(* ===== verification/Prelude.thy ===== *)
theory Prelude
  imports Main "HOL-Library.Word" "HOL-Library.Sublist"
begin

unbundle bit_operations_syntax

text \<open>
  Shared vocabulary of the development: the widths of the C integer types as words, the two ways
  a run of the C code can fail, the sequencing of fallible steps, and the generic lemmas on lists
  and words that the component theories share.
\<close>

section \<open>Types\<close>

type_synonym u8 = "8 word"
type_synonym u16 = "16 word"
type_synonym u32 = "32 word"
type_synonym u64 = "64 word"

text \<open>
  A run of a host tool ends early in one of two ways: it calls \<^verbatim>\<open>exit(-1)\<close> or
  \<^verbatim>\<open>terminate()\<close> (\<open>Exit\<close>), or it reaches undefined behaviour such as a read through a null
  pointer or past the end of an object, or a failed \<^verbatim>\<open>assert\<close> (\<open>Crash\<close>).
\<close>

datatype failure = Exit | Crash

type_synonym 'a run = "failure + 'a"

definition bind_run :: "'e + 'a \<Rightarrow> ('a \<Rightarrow> 'e + 'b) \<Rightarrow> 'e + 'b" where
  "bind_run r f = (case r of Inl e \<Rightarrow> Inl e | Inr a \<Rightarrow> f a)"

text \<open>Collections used by the component proofs.\<close>

named_theorems run_simps \<open>sequencing of fallible steps\<close>
named_theorems wf_intros \<open>preservation of well-formedness invariants\<close>
named_theorems step_simps \<open>effect of one operation on the fields of the state\<close>

section \<open>Fallible steps\<close>

lemma bind_run_Inl [simp, run_simps]: "bind_run (Inl e) f = Inl e"
  by (simp add: bind_run_def)

lemma bind_run_Inr [simp, run_simps]: "bind_run (Inr a) f = f a"
  by (simp add: bind_run_def)

lemma bind_run_eq_Inr [run_simps]:
  "bind_run r f = Inr b \<longleftrightarrow> (\<exists>a. r = Inr a \<and> f a = Inr b)"
  by (cases r) auto

lemma bind_run_eq_Inl [run_simps]:
  "bind_run r f = Inl e \<longleftrightarrow> r = Inl e \<or> (\<exists>a. r = Inr a \<and> f a = Inl e)"
  by (cases r) auto

section \<open>Lists\<close>

lemma distinct_snocI [intro]: "distinct xs \<Longrightarrow> x \<notin> set xs \<Longrightarrow> distinct (xs @ [x])"
  by simp

lemma length_filter_mono:
  "(\<And>x. x \<in> set xs \<Longrightarrow> P x \<Longrightarrow> Q x) \<Longrightarrow> length (filter P xs) \<le> length (filter Q xs)"
  by (induction xs) auto

lemma length_filter_strict:
  assumes "\<And>x. x \<in> set xs \<Longrightarrow> P x \<Longrightarrow> Q x" and "a \<in> set xs" and "Q a" and "\<not> P a"
  shows "length (filter P xs) < length (filter Q xs)"
  using assms
proof (induction xs)
  case Nil
  then show ?case by simp
next
  case (Cons x xs)
  have le: "length (filter P xs) \<le> length (filter Q xs)"
    using Cons.prems(1) by (intro length_filter_mono) auto
  show ?case
  proof (cases "a \<in> set xs")
    case True
    then have "length (filter P xs) < length (filter Q xs)"
      using Cons.IH Cons.prems by auto
    then show ?thesis using Cons.prems(1) by auto
  next
    case False
    with Cons.prems(2) have "x = a" by simp
    with le Cons.prems(3,4) show ?thesis by simp
  qed
qed

lemma take_eq_prefix_conv: "take (length a) b = a \<longleftrightarrow> prefix a b"
  by (metis append_eq_conv_conj prefix_def take_is_prefix)


section \<open>Strings of the host C library\<close>

text \<open>
  In the host tools a C string is its content up to the terminating NUL, a \<open>string\<close>.
  \<open>strncmp_eq a b n\<close> is \<^verbatim>\<open>strncmp(a, b, n) == 0\<close>.
\<close>

definition strncmp_eq :: "string \<Rightarrow> string \<Rightarrow> nat \<Rightarrow> bool" where
  "strncmp_eq a b n \<longleftrightarrow> take n a = take n b"

lemma strncmp_eq_prefix: "strncmp_eq a b (length a) \<longleftrightarrow> prefix a b"
  by (metis strncmp_eq_def take_all take_eq_prefix_conv order_refl)

section \<open>Words\<close>

lemma and_not_mask_eq: "(x :: 'a::len word) AND NOT (mask n) = x - take_bit n x"
proof -
  have "NOT x AND take_bit n x = 0"
    by (rule bit_eqI) (auto simp: bit_simps)
  then have "x - take_bit n x = x AND NOT (take_bit n x)"
    by (rule disjunctive_diff_eq_and_not)
  also have "\<dots> = x AND NOT (mask n)"
    by (rule bit_eqI) (auto simp: bit_simps)
  finally show ?thesis by simp
qed

lemma unat_and_not_mask: "unat ((x :: 'a::len word) AND NOT (mask n)) = 2 ^ n * (unat x div 2 ^ n)"
proof -
  have "take_bit n x \<le> x"
    by (simp add: word_le_nat_alt unsigned_take_bit_eq take_bit_nat_less_eq_self)
  then have "unat (x - take_bit n x) = unat x - take_bit n (unat x)"
    by (simp add: unat_sub unsigned_take_bit_eq)
  then show ?thesis
    by (simp only: and_not_mask_eq take_bit_eq_mod [of _ "unat x"] minus_mod_eq_mult_div)
qed

lemma unat_plus_small:
  fixes a b :: "'a::len word"
  assumes "unat a + unat b < 2 ^ LENGTH('a)"
  shows "unat (a + b) = unat a + unat b"
  using assms by (simp add: unat_word_ariths)

end
