(* ===== verification/Dep_Graph.thy ===== *)
theory Dep_Graph
  imports Prelude
begin

text \<open>
  The dependency graph that \<^verbatim>\<open>tools/mk_bootrd/main.c\<close> builds between components: the objects of
  \<^verbatim>\<open>module.h\<close>, and the functions that turn the undefined symbols of a module into edges
  (\<open>find_dependency\<close>, \<open>on_match\<close>, \<open>match_undef\<close>, \<open>build_dependency\<close>).  Module and depend objects
  live in two stores indexed by their addresses, because \<open>match_undef\<close> links depend objects of a
  module through their \<^verbatim>\<open>next\<close> fields and later symbols see the links that earlier ones left.
\<close>

section \<open>Objects\<close>

datatype mod_status = M_STATUS_NONE | M_STATUS_DOING | M_STATUS_DONE

record module =
  m_name :: string
  m_status :: mod_status
  undef_syms :: "string list"
  dependencies :: "nat list"
  num_dependencies :: nat
  offset_in_file :: u64

record depend =
  d_mod :: nat
  d_flags :: u64
  d_next :: "nat option"

record symbol =
  s_name :: string
  s_mod :: nat

definition DEPEND_FLAGS_CANDIDATE :: u64 where
  "DEPEND_FLAGS_CANDIDATE = 1"

text \<open>
  The static variables of \<^verbatim>\<open>main.c\<close>.  A fixup is a depend object of which only \<^verbatim>\<open>next\<close> is ever
  used, so the list \<open>fixups\<close> holds the \<^verbatim>\<open>next\<close> pointers.  \<open>ndep\<close> is the next fresh address of the
  depend store (\<^verbatim>\<open>calloc\<close>).
\<close>

record tool =
  mods :: "nat \<Rightarrow> module"
  deps :: "nat \<Rightarrow> depend"
  ndep :: nat
  modules :: "nat list"
  num_modules :: nat
  symbols :: "symbol list"
  fixups :: "nat list"

definition booter :: nat where
  "booter = 0"

section \<open>Operations\<close>

fun find_dependency :: "(nat \<Rightarrow> depend) \<Rightarrow> nat list \<Rightarrow> nat \<Rightarrow> nat option" where
  "find_dependency D [] target = None"
| "find_dependency D (p # ps) target =
     (if d_mod (D p) = target then Some p else find_dependency D ps target)"

definition on_match :: "nat \<Rightarrow> symbol \<Rightarrow> tool \<Rightarrow> nat \<times> tool" where
  "on_match m sy T =
     (case find_dependency (deps T) (dependencies (mods T m)) (s_mod sy) of
        Some d \<Rightarrow> (d, T)
      | None \<Rightarrow>
          (let d = ndep T;
               md = mods T m
           in (d, T\<lparr>ndep := Suc d,
                    deps := (deps T)(d := \<lparr>d_mod = s_mod sy, d_flags = 0, d_next = None\<rparr>),
                    mods := (mods T)(m := md\<lparr>dependencies := dependencies md @ [d],
                                            num_dependencies := Suc (num_dependencies md)\<rparr>)\<rparr>)))"

text \<open>The scan of the symbol list in \<open>match_undef\<close>; the result is the head of the candidate chain.\<close>

fun match_syms :: "string \<Rightarrow> nat \<Rightarrow> symbol list \<Rightarrow> nat option \<Rightarrow> tool \<Rightarrow> nat option \<times> tool" where
  "match_syms name m [] head T = (head, T)"
| "match_syms name m (sy # syms) head T =
     (if s_name sy = name then
        (let (cur, T') = on_match m sy T
         in match_syms name m syms (Some cur)
              (case head of
                 None \<Rightarrow> T'
               | Some h \<Rightarrow> T'\<lparr>deps := (deps T')(cur := (deps T' cur)\<lparr>d_next := Some h\<rparr>)\<rparr>))
      else match_syms name m syms head T)"

text \<open>The marking loop follows \<^verbatim>\<open>next\<close> until it is null; \<open>None\<close> is a loop that never ends.\<close>

partial_function (option) mark_candidates ::
  "(nat \<Rightarrow> depend) \<Rightarrow> nat option \<Rightarrow> (nat \<Rightarrow> depend) option" where
  "mark_candidates D p =
     (case p of
        None \<Rightarrow> Some D
      | Some a \<Rightarrow>
          mark_candidates (D(a := (D a)\<lparr>d_flags := d_flags (D a) OR DEPEND_FLAGS_CANDIDATE\<rparr>))
            (d_next (D a)))"

definition match_undef :: "string \<Rightarrow> nat \<Rightarrow> tool \<Rightarrow> tool option" where
  "match_undef name m T =
     (case match_syms name m (symbols T) None T of
        (None, T') \<Rightarrow> Some T'
      | (Some h, T') \<Rightarrow>
          (if d_next (deps T' h) = None then Some T'
           else map_option (\<lambda>D. T'\<lparr>deps := D, fixups := fixups T' @ [h]\<rparr>)
                  (mark_candidates (deps T') (Some h))))"

fun build_undefs :: "nat \<Rightarrow> string list \<Rightarrow> tool \<Rightarrow> tool option" where
  "build_undefs m [] T = Some T"
| "build_undefs m (u # us) T =
     Option.bind (match_undef u m T)
       (\<lambda>T'. build_undefs m us (T'\<lparr>mods := (mods T')(m := (mods T' m)\<lparr>undef_syms := us\<rparr>)\<rparr>))"

definition build_dependency :: "nat \<Rightarrow> tool \<Rightarrow> tool option" where
  "build_dependency m T = build_undefs m (undef_syms (mods T m)) T"

fun build_all :: "nat list \<Rightarrow> tool \<Rightarrow> tool option" where
  "build_all [] T = Some T"
| "build_all (m # ms) T = Option.bind (build_dependency m T) (build_all ms)"


section \<open>Well-formed graphs\<close>

text \<open>
  \<open>links_ok D ps\<close>: every \<^verbatim>\<open>next\<close> link of an object in \<open>ps\<close> stays in \<open>ps\<close> and leads to a module with a
  smaller address.  Addresses of modules follow the order of the list \<open>modules\<close>, with the booter
  module first.
\<close>

definition links_ok :: "(nat \<Rightarrow> depend) \<Rightarrow> nat list \<Rightarrow> bool" where
  "links_ok D ps \<longleftrightarrow>
     (\<forall>p\<in>set ps. case d_next (D p) of None \<Rightarrow> True | Some q \<Rightarrow> q \<in> set ps \<and> d_mod (D q) < d_mod (D p))"

definition mod_wf :: "tool \<Rightarrow> nat \<Rightarrow> bool" where
  "mod_wf T m \<longleftrightarrow>
     num_dependencies (mods T m) = length (dependencies (mods T m)) \<and>
     (\<forall>p\<in>set (dependencies (mods T m)). p < ndep T) \<and>
     distinct (map (\<lambda>p. d_mod (deps T p)) (dependencies (mods T m))) \<and>
     links_ok (deps T) (dependencies (mods T m))"

definition graph_wf :: "tool \<Rightarrow> bool" where
  "graph_wf T \<longleftrightarrow>
     (\<forall>m. mod_wf T m) \<and>
     (\<forall>m m'. m \<noteq> m' \<longrightarrow> set (dependencies (mods T m)) \<inter> set (dependencies (mods T m')) = {})"

definition targets :: "tool \<Rightarrow> nat \<Rightarrow> nat set" where
  "targets T m = (\<lambda>p. d_mod (deps T p)) ` set (dependencies (mods T m))"

text \<open>The symbol list as the scan of the modules leaves it: grouped by module, no duplicates.\<close>

definition syms_ok :: "symbol list \<Rightarrow> bool" where
  "syms_ok ss \<longleftrightarrow> sorted (map s_mod ss) \<and> distinct ss"

text \<open>What a step on module \<open>m\<close> leaves alone.\<close>

definition frame :: "nat \<Rightarrow> tool \<Rightarrow> tool \<Rightarrow> bool" where
  "frame m T T' \<longleftrightarrow>
     symbols T' = symbols T \<and> modules T' = modules T \<and> num_modules T' = num_modules T \<and>
     (\<forall>m'. m' \<noteq> m \<longrightarrow> mods T' m' = mods T m' \<and> targets T' m' = targets T m') \<and>
     m_name (mods T' m) = m_name (mods T m) \<and> m_status (mods T' m) = m_status (mods T m) \<and>
     offset_in_file (mods T' m) = offset_in_file (mods T m)"

lemma frame_refl [simp]: "frame m T T"
  by (simp add: frame_def)

lemma frame_trans: "frame m T T' \<Longrightarrow> frame m T' T'' \<Longrightarrow> frame m T T''"
  by (simp add: frame_def)

lemma graph_wf_mod: "graph_wf T \<Longrightarrow> mod_wf T m"
  by (simp add: graph_wf_def)

lemma graph_wf_disjoint:
  "graph_wf T \<Longrightarrow> p \<in> set (dependencies (mods T m)) \<Longrightarrow> p \<in> set (dependencies (mods T m')) \<Longrightarrow> m = m'"
  by (auto simp: graph_wf_def disjoint_iff)

lemma graph_wf_bound: "graph_wf T \<Longrightarrow> p \<in> set (dependencies (mods T m)) \<Longrightarrow> p < ndep T"
  by (auto simp: graph_wf_def mod_wf_def)

section \<open>Matching one symbol\<close>

lemma find_dependency_Some:
  "find_dependency D ps t = Some p \<Longrightarrow> p \<in> set ps \<and> d_mod (D p) = t"
  by (induction ps) (auto split: if_splits)

lemma find_dependency_None:
  "find_dependency D ps t = None \<longleftrightarrow> t \<notin> (\<lambda>p. d_mod (D p)) ` set ps"
  by (induction ps) (auto split: if_splits)

lemma links_ok_cong:
  assumes "\<And>p. p \<in> set ps \<Longrightarrow> d_mod (D' p) = d_mod (D p) \<and> d_next (D' p) = d_next (D p)"
  shows "links_ok D' ps = links_ok D ps"
proof -
  have "(case d_next (D' p) of None \<Rightarrow> True | Some q \<Rightarrow> q \<in> set ps \<and> d_mod (D' q) < d_mod (D' p)) =
        (case d_next (D p) of None \<Rightarrow> True | Some q \<Rightarrow> q \<in> set ps \<and> d_mod (D q) < d_mod (D p))"
    if "p \<in> set ps" for p
    using assms that by (auto split: option.splits)
  then show ?thesis by (simp add: links_ok_def)
qed

lemma mod_wf_cong:
  assumes "mods T' m = mods T m" and "ndep T \<le> ndep T'"
    and "\<And>p. p \<in> set (dependencies (mods T m)) \<Longrightarrow>
           d_mod (deps T' p) = d_mod (deps T p) \<and> d_next (deps T' p) = d_next (deps T p)"
    and "mod_wf T m"
  shows "mod_wf T' m"
proof -
  have "map (\<lambda>p. d_mod (deps T' p)) (dependencies (mods T m)) =
        map (\<lambda>p. d_mod (deps T p)) (dependencies (mods T m))"
    using assms(3) by simp
  then have "distinct (map (\<lambda>p. d_mod (deps T' p)) (dependencies (mods T m))) =
        distinct (map (\<lambda>p. d_mod (deps T p)) (dependencies (mods T m)))"
    by (simp only:)
  moreover have "links_ok (deps T') (dependencies (mods T m)) = links_ok (deps T) (dependencies (mods T m))"
    using assms(3) by (rule links_ok_cong)
  ultimately show ?thesis using assms(1,2,4) by (auto simp: mod_wf_def)
qed

lemma targets_cong:
  assumes "mods T' m = mods T m"
    and "\<And>p. p \<in> set (dependencies (mods T m)) \<Longrightarrow> d_mod (deps T' p) = d_mod (deps T p)"
  shows "targets T' m = targets T m"
  using assms by (auto simp: targets_def)

lemma links_ok_snoc_fresh:
  assumes "links_ok D ps" and "n \<notin> set ps"
  shows "links_ok (D(n := \<lparr>d_mod = t, d_flags = 0, d_next = None\<rparr>)) (ps @ [n])"
proof -
  let ?D = "D(n := \<lparr>d_mod = t, d_flags = 0, d_next = None\<rparr>)"
  have "case d_next (?D p) of None \<Rightarrow> True | Some q \<Rightarrow> q \<in> set (ps @ [n]) \<and> d_mod (?D q) < d_mod (?D p)"
    if p: "p \<in> set (ps @ [n])" for p
  proof (cases "p = n")
    case True
    then show ?thesis by simp
  next
    case False
    with p have "p \<in> set ps" by simp
    with assms(1) have "case d_next (D p) of None \<Rightarrow> True | Some q \<Rightarrow> q \<in> set ps \<and> d_mod (D q) < d_mod (D p)"
      by (simp add: links_ok_def)
    with False assms(2) show ?thesis by (auto split: option.splits)
  qed
  then show ?thesis by (simp add: links_ok_def)
qed

lemma on_match_new_wf:
  assumes wf: "graph_wf T" and t: "t \<notin> targets T m"
    and T': "T' = T\<lparr>ndep := Suc (ndep T),
               deps := (deps T)(ndep T := \<lparr>d_mod = t, d_flags = 0, d_next = None\<rparr>),
               mods := (mods T)(m := (mods T m)\<lparr>dependencies := dependencies (mods T m) @ [ndep T],
                                 num_dependencies := Suc (num_dependencies (mods T m))\<rparr>)\<rparr>"
  shows "graph_wf T'" and "targets T' m = insert t (targets T m)"
    and "\<And>m'. m' \<noteq> m \<Longrightarrow> targets T' m' = targets T m'"
proof -
  have fresh: "ndep T \<notin> set (dependencies (mods T m'))" for m'
    using graph_wf_bound [OF wf] by blast
  have wfm: "mod_wf T m" using wf by (rule graph_wf_mod)
  have "mod_wf T' m"
    using wfm t fresh [of m] links_ok_snoc_fresh [of "deps T" "dependencies (mods T m)" "ndep T" t]
    by (auto simp: mod_wf_def T' targets_def distinct_map inj_on_def)
  moreover have "mod_wf T' m'" if "m' \<noteq> m" for m'
    using that fresh [of m'] graph_wf_mod [OF wf, of m'] by (intro mod_wf_cong [of T' m' T]) (auto simp: T')
  ultimately have "\<forall>m'. mod_wf T' m'" by metis
  moreover have "\<forall>m1 m2. m1 \<noteq> m2 \<longrightarrow> set (dependencies (mods T' m1)) \<inter> set (dependencies (mods T' m2)) = {}"
    using wf fresh by (auto simp: T' graph_wf_def disjoint_iff)
  ultimately show "graph_wf T'" by (simp add: graph_wf_def)
  show "targets T' m = insert t (targets T m)"
  proof -
    have "(\<lambda>p. d_mod (deps T' p)) ` set (dependencies (mods T m)) = targets T m"
      unfolding targets_def using fresh [of m] by (intro image_cong) (auto simp: T')
    then show ?thesis by (simp add: targets_def T')
  qed
  show "targets T' m' = targets T m'" if "m' \<noteq> m" for m'
    using that fresh [of m'] by (intro targets_cong) (auto simp: T')
qed

lemma on_match_spec:
  assumes wf: "graph_wf T" and om: "on_match m sy T = (c, T')"
  shows "graph_wf T'" and "c \<in> set (dependencies (mods T' m))" and "d_mod (deps T' c) = s_mod sy"
    and "targets T' m = insert (s_mod sy) (targets T m)" and "frame m T T'"
    and "undef_syms (mods T' m) = undef_syms (mods T m)" and "fixups T' = fixups T"
    and "\<And>p. p \<in> set (dependencies (mods T m)) \<Longrightarrow>
           p \<in> set (dependencies (mods T' m)) \<and> deps T' p = deps T p"
proof -
  let ?f = "find_dependency (deps T) (dependencies (mods T m)) (s_mod sy)"
  have "graph_wf T' \<and> c \<in> set (dependencies (mods T' m)) \<and> d_mod (deps T' c) = s_mod sy \<and>
        targets T' m = insert (s_mod sy) (targets T m) \<and> frame m T T' \<and>
        undef_syms (mods T' m) = undef_syms (mods T m) \<and> fixups T' = fixups T \<and>
        (\<forall>p\<in>set (dependencies (mods T m)). p \<in> set (dependencies (mods T' m)) \<and> deps T' p = deps T p)"
  proof (cases ?f)
    case (Some p)
    with om have "c = p" and "T' = T" by (auto simp: on_match_def)
    moreover have "p \<in> set (dependencies (mods T m))" and "d_mod (deps T p) = s_mod sy"
      using find_dependency_Some [OF Some] by auto
    ultimately show ?thesis using wf by (auto simp: targets_def intro: rev_image_eqI)
  next
    case None
    then have t: "s_mod sy \<notin> targets T m"
      by (simp add: find_dependency_None targets_def)
    have T': "T' = T\<lparr>ndep := Suc (ndep T),
               deps := (deps T)(ndep T := \<lparr>d_mod = s_mod sy, d_flags = 0, d_next = None\<rparr>),
               mods := (mods T)(m := (mods T m)\<lparr>dependencies := dependencies (mods T m) @ [ndep T],
                                 num_dependencies := Suc (num_dependencies (mods T m))\<rparr>)\<rparr>"
      and c: "c = ndep T"
      using om None by (auto simp: on_match_def Let_def)
    have "\<forall>p\<in>set (dependencies (mods T m)). p < ndep T"
      using graph_wf_bound [OF wf] by blast
    with on_match_new_wf [OF wf t T'] c show ?thesis
      by (auto simp: frame_def T')
  qed
  then show "graph_wf T'" and "c \<in> set (dependencies (mods T' m))" and "d_mod (deps T' c) = s_mod sy"
    and "targets T' m = insert (s_mod sy) (targets T m)" and "frame m T T'"
    and "undef_syms (mods T' m) = undef_syms (mods T m)" and "fixups T' = fixups T"
    and "\<And>p. p \<in> set (dependencies (mods T m)) \<Longrightarrow>
           p \<in> set (dependencies (mods T' m)) \<and> deps T' p = deps T p"
    by blast+
qed


section \<open>The scan of the symbol list\<close>

abbreviation set_next :: "nat \<Rightarrow> nat \<Rightarrow> tool \<Rightarrow> tool" where
  "set_next c h T \<equiv> T\<lparr>deps := (deps T)(c := (deps T c)\<lparr>d_next := Some h\<rparr>)\<rparr>"

lemma set_next_links:
  assumes "links_ok D ps" and "h \<in> set ps" and "d_mod (D h) < d_mod (D c)"
  shows "links_ok (D(c := (D c)\<lparr>d_next := Some h\<rparr>)) ps"
proof -
  let ?D = "D(c := (D c)\<lparr>d_next := Some h\<rparr>)"
  have "case d_next (?D p) of None \<Rightarrow> True | Some q \<Rightarrow> q \<in> set ps \<and> d_mod (?D q) < d_mod (?D p)"
    if p: "p \<in> set ps" for p
  proof (cases "p = c")
    case True
    with assms show ?thesis by auto
  next
    case False
    from p assms(1) have "case d_next (D p) of None \<Rightarrow> True | Some q \<Rightarrow> q \<in> set ps \<and> d_mod (D q) < d_mod (D p)"
      by (simp add: links_ok_def)
    with False show ?thesis by (auto split: option.splits)
  qed
  then show ?thesis by (simp add: links_ok_def)
qed

lemma set_next_wf:
  assumes wf: "graph_wf T" and c: "c \<in> set (dependencies (mods T m))"
    and h: "h \<in> set (dependencies (mods T m))" and lt: "d_mod (deps T h) < d_mod (deps T c)"
  shows "graph_wf (set_next c h T)" and "targets (set_next c h T) m' = targets T m'"
proof -
  let ?T = "set_next c h T"
  have "mod_wf ?T m'" for m'
  proof (cases "m' = m")
    case True
    have "(\<lambda>p. d_mod ((deps ?T) p)) = (\<lambda>p. d_mod (deps T p))"
      by (rule ext) simp
    then show ?thesis
      using graph_wf_mod [OF wf, of m] set_next_links [OF _ h lt] True by (simp add: mod_wf_def)
  next
    case False
    have "c \<notin> set (dependencies (mods T m'))"
      using False c graph_wf_disjoint [OF wf] by blast
    then show ?thesis
      using graph_wf_mod [OF wf, of m'] by (intro mod_wf_cong [of ?T m' T]) auto
  qed
  then show "graph_wf ?T" using wf by (simp add: graph_wf_def)
  show "targets ?T m' = targets T m'"
    by (rule targets_cong) simp_all
qed

lemma symbol_eqI: "s_name a = s_name b \<Longrightarrow> s_mod a = s_mod b \<Longrightarrow> a = (b :: symbol)"
  by (rule symbol.equality) simp_all

lemma match_syms_spec:
  assumes "graph_wf T" and "sorted (map s_mod syms)" and "distinct syms"
    and "\<And>h. head = Some h \<Longrightarrow> h \<in> set (dependencies (mods T m)) \<and>
           (\<forall>sy\<in>set syms. s_name sy = name \<longrightarrow> d_mod (deps T h) < s_mod sy)"
    and "match_syms name m syms head T = (head', T')"
  shows "graph_wf T' \<and> frame m T T' \<and> undef_syms (mods T' m) = undef_syms (mods T m) \<and>
         targets T' m = targets T m \<union> s_mod ` {sy \<in> set syms. s_name sy = name} \<and>
         (\<forall>h. head' = Some h \<longrightarrow> h \<in> set (dependencies (mods T' m)))"
  using assms
proof (induction syms arbitrary: head T)
  case Nil
  then show ?case by auto
next
  case (Cons sy syms)
  show ?case
  proof (cases "s_name sy = name")
    case False
    with Cons.prems show ?thesis
      using Cons.IH [of T head] by auto
  next
    case True
    obtain c T1 where om: "on_match m sy T = (c, T1)" by fastforce
    note os = on_match_spec [OF Cons.prems(1) om]
    define T2 where "T2 = (case head of None \<Rightarrow> T1 | Some h \<Rightarrow> set_next c h T1)"
    have run: "match_syms name m syms (Some c) T2 = (head', T')"
      using Cons.prems(5) True om by (simp add: T2_def)
    have T2: "graph_wf T2 \<and> frame m T1 T2 \<and> undef_syms (mods T2 m) = undef_syms (mods T1 m) \<and>
        targets T2 m = targets T1 m \<and> mods T2 = mods T1 \<and> d_mod (deps T2 c) = s_mod sy"
    proof (cases head)
      case None
      with os show ?thesis by (simp add: T2_def)
    next
      case (Some h)
      have h: "h \<in> set (dependencies (mods T m))" and lt: "d_mod (deps T h) < s_mod sy"
        using Cons.prems(4) [OF Some] True by auto
      have "h \<in> set (dependencies (mods T1 m))" and "d_mod (deps T1 h) < d_mod (deps T1 c)"
        using os(8) [OF h] os(3) lt by auto
      then show ?thesis
        using set_next_wf [OF os(1,2)] os(3) Some by (simp add: T2_def frame_def)
    qed
    have less: "\<forall>sy'\<in>set syms. s_name sy' = name \<longrightarrow> s_mod sy < s_mod sy'"
    proof (intro ballI impI)
      fix sy' assume sy': "sy' \<in> set syms" "s_name sy' = name"
      then have le: "s_mod sy \<le> s_mod sy'" and "sy \<noteq> sy'"
        using Cons.prems(2,3) by auto
      then have "s_mod sy \<noteq> s_mod sy'"
        using True sy'(2) symbol_eqI [of sy sy'] by auto
      with le show "s_mod sy < s_mod sy'" by simp
    qed
    have rest: "graph_wf T' \<and> frame m T2 T' \<and> undef_syms (mods T' m) = undef_syms (mods T2 m) \<and>
         targets T' m = targets T2 m \<union> s_mod ` {sy \<in> set syms. s_name sy = name} \<and>
         (\<forall>h. head' = Some h \<longrightarrow> h \<in> set (dependencies (mods T' m)))"
    proof (rule Cons.IH [OF _ _ _ _ run])
      show "graph_wf T2" and "sorted (map s_mod syms)" and "distinct syms"
        using T2 Cons.prems(2,3) by simp_all
      show "h \<in> set (dependencies (mods T2 m)) \<and>
          (\<forall>sy\<in>set syms. s_name sy = name \<longrightarrow> d_mod (deps T2 h) < s_mod sy)" if "Some c = Some h" for h
        using that T2 os(2) less by simp
    qed
    have "frame m T1 T2" and "frame m T2 T'" using T2 rest by simp_all
    then have "frame m T T'" by (rule frame_trans [OF frame_trans [OF os(5)]])
    moreover have "{sy' \<in> set (sy # syms). s_name sy' = name} = insert sy {sy' \<in> set syms. s_name sy' = name}"
      using True by auto
    ultimately show ?thesis using rest T2 os(4,6) by simp
  qed
qed

section \<open>The marking loop ends\<close>

lemma mark_candidates_returns:
  assumes "links_ok D ps" and "p \<in> set ps"
  shows "\<exists>D'. mark_candidates D (Some p) = Some D' \<and>
           (\<forall>a. d_mod (D' a) = d_mod (D a) \<and> d_next (D' a) = d_next (D a) \<and>
                (a \<notin> set ps \<longrightarrow> D' a = D a))"
  using assms
proof (induction "d_mod (D p)" arbitrary: D p rule: less_induct)
  case less
  define E where "E = D(p := (D p)\<lparr>d_flags := d_flags (D p) OR DEPEND_FLAGS_CANDIDATE\<rparr>)"
  have step: "mark_candidates D (Some p) = mark_candidates E (d_next (D p))"
    by (subst mark_candidates.simps) (simp add: E_def)
  have E: "d_mod (E a) = d_mod (D a) \<and> d_next (E a) = d_next (D a) \<and> (a \<notin> set ps \<longrightarrow> E a = D a)" for a
    using less.prems(2) by (auto simp: E_def)
  show ?case
  proof (cases "d_next (D p)")
    case None
    have "mark_candidates E None = Some E" by (subst mark_candidates.simps) simp
    with None step E show ?thesis by auto
  next
    case (Some q)
    with less.prems have q: "q \<in> set ps" and lt: "d_mod (D q) < d_mod (D p)"
      by (auto simp: links_ok_def split: option.splits dest!: bspec)
    have "links_ok E ps" using less.prems(1) E links_ok_cong [of ps E D] by auto
    then obtain D' where D': "mark_candidates E (Some q) = Some D'"
      and same: "\<forall>a. d_mod (D' a) = d_mod (E a) \<and> d_next (D' a) = d_next (E a) \<and> (a \<notin> set ps \<longrightarrow> D' a = E a)"
      using less.hyps [of E q] q lt E by auto
    then show ?thesis using Some step E by auto
  qed
qed


section \<open>Resolving the undefined symbols of a module\<close>

definition exporters :: "symbol list \<Rightarrow> string \<Rightarrow> nat set" where
  "exporters ss name = s_mod ` set (filter (\<lambda>sy. s_name sy = name) ss)"

lemma frame_deps_only:
  assumes "\<And>a. d_mod (D a) = d_mod (deps T a)"
  shows "frame m T (T\<lparr>deps := D, fixups := F\<rparr>)" and "targets (T\<lparr>deps := D, fixups := F\<rparr>) m' = targets T m'"
  using assms by (auto simp: frame_def targets_def)

lemma mark_wf:
  assumes "graph_wf T"
    and "\<And>a. d_mod (D a) = d_mod (deps T a) \<and> d_next (D a) = d_next (deps T a)"
  shows "graph_wf (T\<lparr>deps := D, fixups := F\<rparr>)"
proof -
  have "mod_wf (T\<lparr>deps := D, fixups := F\<rparr>) m" for m
    by (rule mod_wf_cong [OF _ _ _ graph_wf_mod [OF assms(1)]]) (simp_all add: assms(2))
  then show ?thesis using assms(1) by (simp add: graph_wf_def)
qed

lemma match_undef_spec:
  assumes wf: "graph_wf T" and ok: "syms_ok (symbols T)"
  shows "\<exists>T'. match_undef name m T = Some T' \<and> graph_wf T' \<and> frame m T T' \<and>
           undef_syms (mods T' m) = undef_syms (mods T m) \<and>
           targets T' m = targets T m \<union> exporters (symbols T) name"
proof -
  obtain head T1 where ms: "match_syms name m (symbols T) None T = (head, T1)" by fastforce
  have spec: "graph_wf T1 \<and> frame m T T1 \<and> undef_syms (mods T1 m) = undef_syms (mods T m) \<and>
         targets T1 m = targets T m \<union> exporters (symbols T) name \<and>
         (\<forall>h. head = Some h \<longrightarrow> h \<in> set (dependencies (mods T1 m)))"
    using match_syms_spec [OF wf _ _ _ ms] ok by (simp add: syms_ok_def exporters_def)
  show ?thesis
  proof (cases "head = None \<or> (\<exists>h. head = Some h \<and> d_next (deps T1 h) = None)")
    case True
    with ms have "match_undef name m T = Some T1" by (auto simp: match_undef_def)
    with spec show ?thesis by blast
  next
    case False
    then obtain h where h: "head = Some h" and nx: "d_next (deps T1 h) \<noteq> None" by auto
    have "links_ok (deps T1) (dependencies (mods T1 m))" and "h \<in> set (dependencies (mods T1 m))"
      using spec h graph_wf_mod [of T1 m] by (auto simp: mod_wf_def)
    then obtain D where D: "mark_candidates (deps T1) (Some h) = Some D"
      and same: "\<forall>a. d_mod (D a) = d_mod (deps T1 a) \<and> d_next (D a) = d_next (deps T1 a)"
      using mark_candidates_returns by blast
    let ?T = "T1\<lparr>deps := D, fixups := fixups T1 @ [h]\<rparr>"
    have "match_undef name m T = Some ?T"
      using ms h nx D by (auto simp: match_undef_def)
    moreover have "graph_wf ?T" using spec same by (intro mark_wf) auto
    moreover have "frame m T1 ?T" and "targets ?T m = targets T1 m"
      by (rule frame_deps_only, simp add: same)+
    moreover have "undef_syms (mods ?T m) = undef_syms (mods T1 m)" by simp
    ultimately show ?thesis using spec frame_trans [of m T T1 ?T] by metis
  qed
qed

abbreviation set_undef :: "nat \<Rightarrow> string list \<Rightarrow> tool \<Rightarrow> tool" where
  "set_undef m us T \<equiv> T\<lparr>mods := (mods T)(m := (mods T m)\<lparr>undef_syms := us\<rparr>)\<rparr>"

lemma set_undef_wf:
  assumes "graph_wf T"
  shows "graph_wf (set_undef m us T)" and "frame m T (set_undef m us T)"
    and "targets (set_undef m us T) m' = targets T m'"
proof -
  let ?T = "set_undef m us T"
  have same: "dependencies (mods ?T k) = dependencies (mods T k)"
    "num_dependencies (mods ?T k) = num_dependencies (mods T k)" for k
    by simp_all
  have "mod_wf ?T k" for k
    using graph_wf_mod [OF assms, of k] same [of k] by (auto simp: mod_wf_def)
  then show "graph_wf ?T" using assms same by (simp add: graph_wf_def)
  show "targets ?T m' = targets T m'" by (simp add: targets_def)
  show "frame m T ?T" by (simp add: frame_def targets_def)
qed

lemma build_undefs_spec:
  assumes "graph_wf T" and "syms_ok (symbols T)" and "undef_syms (mods T m) = us"
  shows "\<exists>T'. build_undefs m us T = Some T' \<and> graph_wf T' \<and> frame m T T' \<and> undef_syms (mods T' m) = [] \<and>
           targets T' m = targets T m \<union> (\<Union>u\<in>set us. exporters (symbols T) u)"
  using assms
proof (induction us arbitrary: T)
  case Nil
  then show ?case by simp
next
  case (Cons u us)
  obtain T1 where T1: "match_undef u m T = Some T1" "graph_wf T1" "frame m T T1"
    "targets T1 m = targets T m \<union> exporters (symbols T) u"
    using match_undef_spec [OF Cons.prems(1,2)] by blast
  let ?T2 = "set_undef m us T1"
  note cl = set_undef_wf [OF T1(2), of m us]
  have sy: "symbols ?T2 = symbols T" using T1(3) by (simp add: frame_def)
  obtain T' where T': "build_undefs m us ?T2 = Some T'" "graph_wf T'" "frame m ?T2 T'"
    "undef_syms (mods T' m) = []"
    "targets T' m = targets ?T2 m \<union> (\<Union>u\<in>set us. exporters (symbols T) u)"
    using Cons.IH [OF cl(1)] sy Cons.prems(2) by auto
  have "frame m T T'" by (rule frame_trans [OF frame_trans [OF T1(3) cl(2)] T'(3)])
  moreover have "targets T' m = targets T m \<union> (\<Union>u\<in>set (u # us). exporters (symbols T) u)"
    using T'(5) cl(3) T1(4) by auto
  moreover have "build_undefs m (u # us) T = Some T'" using T1(1) T'(1) by simp
  ultimately show ?case using T'(2,4) by blast
qed

lemma build_dependency_spec:
  assumes "graph_wf T" and "syms_ok (symbols T)"
  shows "\<exists>T'. build_dependency m T = Some T' \<and> graph_wf T' \<and> frame m T T' \<and> undef_syms (mods T' m) = [] \<and>
           targets T' m = targets T m \<union> (\<Union>u\<in>set (undef_syms (mods T m)). exporters (symbols T) u)"
  using build_undefs_spec [OF assms refl] by (simp add: build_dependency_def)

lemma build_all_spec:
  assumes "graph_wf T" and "syms_ok (symbols T)" and "distinct ms"
  shows "\<exists>T'. build_all ms T = Some T' \<and> graph_wf T' \<and> symbols T' = symbols T \<and> modules T' = modules T \<and>
           num_modules T' = num_modules T \<and>
           (\<forall>m. m \<notin> set ms \<longrightarrow> mods T' m = mods T m \<and> targets T' m = targets T m) \<and>
           (\<forall>m\<in>set ms. undef_syms (mods T' m) = [] \<and>
              targets T' m = targets T m \<union> (\<Union>u\<in>set (undef_syms (mods T m)). exporters (symbols T) u))"
  using assms
proof (induction ms arbitrary: T)
  case Nil
  then show ?case by simp
next
  case (Cons k ms)
  obtain T1 where T1: "build_dependency k T = Some T1" "graph_wf T1" "frame k T T1"
    "undef_syms (mods T1 k) = []"
    "targets T1 k = targets T k \<union> (\<Union>u\<in>set (undef_syms (mods T k)). exporters (symbols T) u)"
    using build_dependency_spec [OF Cons.prems(1,2)] by blast
  have fr: "symbols T1 = symbols T" "modules T1 = modules T" "num_modules T1 = num_modules T"
    "\<And>m. m \<noteq> k \<Longrightarrow> mods T1 m = mods T m \<and> targets T1 m = targets T m"
    using T1(3) by (simp_all add: frame_def)
  obtain T' where T': "build_all ms T1 = Some T'" "graph_wf T'" "symbols T' = symbols T1"
    "modules T' = modules T1" "num_modules T' = num_modules T1"
    "\<And>m. m \<notin> set ms \<Longrightarrow> mods T' m = mods T1 m \<and> targets T' m = targets T1 m"
    "\<And>m. m \<in> set ms \<Longrightarrow> undef_syms (mods T' m) = [] \<and>
       targets T' m = targets T1 m \<union> (\<Union>u\<in>set (undef_syms (mods T1 m)). exporters (symbols T1) u)"
    using Cons.IH [OF T1(2)] fr(1) Cons.prems(2,3) by (metis (no_types, lifting) distinct.simps(2))
  have k: "k \<notin> set ms" using Cons.prems(3) by simp
  have "\<forall>m. m \<notin> set (k # ms) \<longrightarrow> mods T' m = mods T m \<and> targets T' m = targets T m"
    using T'(6) fr(4) by simp
  moreover have "undef_syms (mods T' m) = [] \<and>
      targets T' m = targets T m \<union> (\<Union>u\<in>set (undef_syms (mods T m)). exporters (symbols T) u)"
    if "m \<in> set (k # ms)" for m
  proof (cases "m = k")
    case True
    then show ?thesis using T'(6) [OF k] T1(4,5) by simp
  next
    case False
    then show ?thesis using that T'(7) [of m] fr(1) fr(4) [of m] by auto
  qed
  moreover have "build_all (k # ms) T = Some T'" using T1(1) T'(1) by simp
  ultimately show ?case using T'(2-5) fr(1-3) by auto
qed


section \<open>Properties\<close>

definition new_module :: "string \<Rightarrow> string list \<Rightarrow> module" where
  "new_module name undefs =
     \<lparr>m_name = name, m_status = M_STATUS_NONE, undef_syms = undefs, dependencies = [],
      num_dependencies = 0, offset_in_file = 0\<rparr>"

definition new_tool :: "(nat \<Rightarrow> module) \<Rightarrow> nat list \<Rightarrow> symbol list \<Rightarrow> tool" where
  "new_tool M ms ss =
     \<lparr>mods = M, deps = (\<lambda>_. \<lparr>d_mod = 0, d_flags = 0, d_next = None\<rparr>), ndep = 0, modules = ms,
      num_modules = length ms, symbols = ss, fixups = []\<rparr>"

lemma new_tool_wf:
  assumes "\<And>m. dependencies (M m) = []" and "\<And>m. num_dependencies (M m) = 0"
  shows "graph_wf (new_tool M ms ss)"
  using assms by (simp add: graph_wf_def mod_wf_def new_tool_def links_ok_def)

text \<open>
  (C5) Resolving the undefined symbols of all modules always returns when the symbol list is
  grouped by module without duplicates, and the edges it leaves on each module lead exactly to the
  modules that export one of its undefined symbols: no edge is missing, invented or duplicated, and
  the stored count of edges is right.
\<close>

theorem build_all_edges:
  assumes "graph_wf T" and "syms_ok (symbols T)" and "distinct ms"
    and "\<forall>m\<in>set ms. dependencies (mods T m) = []"
  shows "\<exists>T'. build_all ms T = Some T' \<and>
           (\<forall>m\<in>set ms.
              targets T' m =
                s_mod ` set (filter (\<lambda>sy. s_name sy \<in> set (undef_syms (mods T m))) (symbols T)) \<and>
              undef_syms (mods T' m) = [] \<and>
              distinct (map (\<lambda>p. d_mod (deps T' p)) (dependencies (mods T' m))) \<and>
              num_dependencies (mods T' m) = length (dependencies (mods T' m)))"
proof -
  obtain T' where T': "build_all ms T = Some T'" "graph_wf T'"
    "\<forall>m\<in>set ms. undef_syms (mods T' m) = [] \<and>
       targets T' m = targets T m \<union> (\<Union>u\<in>set (undef_syms (mods T m)). exporters (symbols T) u)"
    using build_all_spec [OF assms(1-3)] by blast
  have "targets T m = {}" if "m \<in> set ms" for m
    using assms(4) that by (simp add: targets_def)
  moreover have "(\<Union>u\<in>set us. exporters ss u) = s_mod ` set (filter (\<lambda>sy. s_name sy \<in> set us) ss)" for us ss
    by (auto simp: exporters_def)
  moreover have "mod_wf T' m" for m using T'(2) by (rule graph_wf_mod)
  ultimately show ?thesis using T'(1,3) by (auto simp: mod_wf_def)
qed

definition tool_ex :: tool where
  "tool_ex = new_tool (\<lambda>m. if m = 1 then new_module ''top_a.ko'' [''f'', ''g'']
                          else if m = 2 then new_module ''b.ko'' [''g'', ''panic'']
                          else new_module ''c.ko'' [''panic''])
       [1, 2, 3]
       [\<lparr>s_name = ''panic'', s_mod = 0\<rparr>, \<lparr>s_name = ''f'', s_mod = 2\<rparr>, \<lparr>s_name = ''g'', s_mod = 3\<rparr>]"

lemma tool_ex_ok:
  "graph_wf tool_ex" "syms_ok (symbols tool_ex)" "distinct (modules tool_ex)"
  "\<forall>m\<in>set (modules tool_ex). dependencies (mods tool_ex m) = []"
  unfolding tool_ex_def
  by (rule new_tool_wf; simp add: new_module_def) (simp_all add: syms_ok_def new_tool_def new_module_def)

theorem build_all_edges_witness:
  "graph_wf tool_ex \<and> syms_ok (symbols tool_ex) \<and> distinct (modules tool_ex) \<and>
   (\<exists>T'. build_all (modules tool_ex) tool_ex = Some T' \<and> targets T' 1 = {2, 3} \<and> targets T' 2 = {0, 3} \<and>
         targets T' 3 = {0})"
proof -
  let ?E = "\<lambda>m. s_mod ` set (filter (\<lambda>sy. s_name sy \<in> set (undef_syms (mods tool_ex m))) (symbols tool_ex))"
  have E: "?E 1 = {2, 3}" "?E 2 = {0, 3}" "?E 3 = {0}"
    by (auto simp: tool_ex_def new_tool_def new_module_def)
  have m: "modules tool_ex = [1, 2, 3]" by (simp add: tool_ex_def new_tool_def)
  obtain T' where "build_all (modules tool_ex) tool_ex = Some T'"
    and "\<forall>m\<in>set (modules tool_ex). targets T' m = ?E m"
    using build_all_edges [OF tool_ex_ok] by blast
  then show ?thesis using tool_ex_ok(1-3) E m by auto
qed

lemma mark_candidates_self_loop:
  assumes "d_next (D a) = Some a"
  shows "mark_candidates D (Some a) = None"
proof (rule ccontr)
  assume "mark_candidates D (Some a) \<noteq> None"
  then obtain D' where ret: "mark_candidates D (Some a) = Some D'" by blast
  have "\<not> (\<exists>b. (Some a :: nat option) = Some b \<and> d_next (D b) = Some b)"
  proof (rule mark_candidates.raw_induct [where P = "\<lambda>D p D'. \<not> (\<exists>b. p = Some b \<and> d_next (D b) = Some b)", OF _ ret])
    fix f :: "(nat \<Rightarrow> depend) \<Rightarrow> nat option \<Rightarrow> (nat \<Rightarrow> depend) option" and D p D'
    assume IH: "\<And>D p D'. f D p = Some D' \<Longrightarrow> \<not> (\<exists>b. p = Some b \<and> d_next (D b) = Some b)"
      and eq: "(case p of None \<Rightarrow> Some D
        | Some a \<Rightarrow> f (D(a := (D a)\<lparr>d_flags := d_flags (D a) OR DEPEND_FLAGS_CANDIDATE\<rparr>)) (d_next (D a))) = Some D'"
    show "\<not> (\<exists>b. p = Some b \<and> d_next (D b) = Some b)"
    proof
      assume "\<exists>b. p = Some b \<and> d_next (D b) = Some b"
      then obtain b where b: "p = Some b" "d_next (D b) = Some b" by blast
      with eq have "f (D(b := (D b)\<lparr>d_flags := d_flags (D b) OR DEPEND_FLAGS_CANDIDATE\<rparr>)) (Some b) = Some D'"
        by simp
      from IH [OF this] b show False by simp
    qed
  qed
  with assms show False by simp
qed



definition stale_tool :: tool where
  "stale_tool = new_tool (\<lambda>m. if m = 1 then new_module ''top_a.ko'' [''a'', ''b''] else new_module ''x.ko'' [])
       [1, 2, 3]
       [\<lparr>s_name = ''a'', s_mod = 2\<rparr>, \<lparr>s_name = ''a'', s_mod = 3\<rparr>, \<lparr>s_name = ''b'', s_mod = 3\<rparr>]"


end
