(* ===== verification/Elf_Scan.thy ===== *)
theory Elf_Scan
  imports Dep_Graph
begin

text \<open>
  Reading a component's ELF file in \<^verbatim>\<open>tools/mk_bootrd/main.c\<close>: \<open>get_strtab\<close>, \<open>discover_undef_syms\<close>,
  \<open>export_symbols\<close> and \<open>analysis_module\<close>.  A \<^verbatim>\<open>FILE\<close> is its contents and its position; a short read
  ends the tool, and a read past the end of a buffer is a crash.  Allocation is assumed to succeed.
\<close>

section \<open>Files and little-endian fields\<close>

record cfile =
  f_data :: "u8 list"
  f_pos :: nat

text \<open>\<^verbatim>\<open>fseek(fp, (long)off, SEEK_SET)\<close>: an offset that is negative as a \<^verbatim>\<open>long\<close> fails and leaves the position.\<close>

definition fseek :: "nat \<Rightarrow> cfile \<Rightarrow> cfile" where
  "fseek off f = (if off < 2 ^ 63 then f\<lparr>f_pos := off\<rparr> else f)"

definition fread :: "nat \<Rightarrow> cfile \<Rightarrow> u8 list \<times> cfile" where
  "fread n f = (let bs = take n (drop (f_pos f) (f_data f)) in (bs, f\<lparr>f_pos := f_pos f + length bs\<rparr>))"

fun le_nat :: "u8 list \<Rightarrow> nat" where
  "le_nat [] = 0"
| "le_nat (b # bs) = unat b + 256 * le_nat bs"

definition field :: "nat \<Rightarrow> nat \<Rightarrow> u8 list \<Rightarrow> nat" where
  "field off w bs = le_nat (take w (drop off bs))"

section \<open>ELF structures\<close>

record elf64_hdr =
  e_ident :: "u8 list"
  e_type :: nat
  e_machine :: nat
  e_version :: nat
  e_entry :: nat
  e_phoff :: nat
  e_shoff :: nat
  e_flags :: nat
  e_ehsize :: nat
  e_phentsize :: nat
  e_phnum :: nat
  e_shentsize :: nat
  e_shnum :: nat
  e_shstrndx :: nat

definition sizeof_ehdr :: nat where
  "sizeof_ehdr = 64"

definition dec_ehdr :: "u8 list \<Rightarrow> elf64_hdr" where
  "dec_ehdr b =
     \<lparr>e_ident = take 16 b, e_type = field 16 2 b, e_machine = field 18 2 b, e_version = field 20 4 b,
      e_entry = field 24 8 b, e_phoff = field 32 8 b, e_shoff = field 40 8 b, e_flags = field 48 4 b,
      e_ehsize = field 52 2 b, e_phentsize = field 54 2 b, e_phnum = field 56 2 b,
      e_shentsize = field 58 2 b, e_shnum = field 60 2 b, e_shstrndx = field 62 2 b\<rparr>"

record elf64_shdr =
  sh_name :: nat
  sh_type :: nat
  sh_flags :: nat
  sh_addr :: nat
  sh_offset :: nat
  sh_size :: nat
  sh_link :: nat
  sh_info :: nat
  sh_addralign :: nat
  sh_entsize :: nat

definition sizeof_shdr :: nat where
  "sizeof_shdr = 64"

definition dec_shdr :: "u8 list \<Rightarrow> elf64_shdr" where
  "dec_shdr b =
     \<lparr>sh_name = field 0 4 b, sh_type = field 4 4 b, sh_flags = field 8 8 b, sh_addr = field 16 8 b,
      sh_offset = field 24 8 b, sh_size = field 32 8 b, sh_link = field 40 4 b, sh_info = field 44 4 b,
      sh_addralign = field 48 8 b, sh_entsize = field 56 8 b\<rparr>"

record elf64_sym =
  st_name :: nat
  st_info :: nat
  st_other :: nat
  st_shndx :: nat
  st_value :: nat
  st_size :: nat

definition sizeof_sym :: nat where
  "sizeof_sym = 24"

definition dec_sym :: "u8 list \<Rightarrow> elf64_sym" where
  "dec_sym b =
     \<lparr>st_name = field 0 4 b, st_info = field 4 1 b, st_other = field 5 1 b, st_shndx = field 6 2 b,
      st_value = field 8 8 b, st_size = field 16 8 b\<rparr>"

definition SHT_SYMTAB :: nat where
  "SHT_SYMTAB = 2"

definition SHN_UNDEF :: nat where
  "SHN_UNDEF = 0"

text \<open>The \<open>n\<close>-th object of size \<open>sz\<close> in a buffer.\<close>

definition nth_obj :: "nat \<Rightarrow> nat \<Rightarrow> u8 list \<Rightarrow> u8 list" where
  "nth_obj sz n bs = take sz (drop (sz * n) bs)"

section \<open>Strings in a buffer\<close>

definition chars :: "u8 list \<Rightarrow> string" where
  "chars bs = map (\<lambda>b. char_of (unat b)) bs"

definition bytes :: "string \<Rightarrow> u8 list" where
  "bytes s = map (\<lambda>c. word_of_nat (of_char c)) s"

text \<open>\<^verbatim>\<open>strdup(buf + off)\<close>.\<close>

definition str_at :: "u8 list \<Rightarrow> nat \<Rightarrow> string run" where
  "str_at buf off =
     (if 0 \<in> set (drop off buf) then Inr (chars (takeWhile (\<lambda>b. b \<noteq> 0) (drop off buf))) else Inl Crash)"

text \<open>\<^verbatim>\<open>strcmp(buf, s) == 0\<close> for a literal \<open>s\<close> given with its terminator.\<close>

fun cmp_z :: "u8 list \<Rightarrow> u8 list \<Rightarrow> bool run" where
  "cmp_z [] cs = Inl Crash"
| "cmp_z (b # bs) [] = Inl Crash"
| "cmp_z (b # bs) (c # cs) = (if b \<noteq> c then Inr False else if b = 0 then Inr True else cmp_z bs cs)"

section \<open>Operations\<close>

function export_symbols :: "u8 list \<Rightarrow> string list run" where
  "export_symbols buf =
     (if buf = [] then Inr []
      else bind_run (str_at buf 0)
             (\<lambda>s. bind_run (export_symbols (drop (Suc (length s)) buf)) (\<lambda>ss. Inr (s # ss))))"
  by pat_completeness auto
termination
  by (relation "measure length") auto

declare export_symbols.simps [simp del]

definition get_strtab :: "elf64_shdr \<Rightarrow> cfile \<Rightarrow> (u8 list \<times> cfile) run" where
  "get_strtab sh f =
     (let (bs, f') = fread (sh_size sh) (fseek (sh_offset sh) f)
      in if length bs \<noteq> sh_size sh then Inl Exit else Inr (bs, f'))"

fun undef_names :: "u8 list \<Rightarrow> u8 list \<Rightarrow> nat list \<Rightarrow> string list run" where
  "undef_names syms strtab [] = Inr []"
| "undef_names syms strtab (i # is) =
     (let sym_i = dec_sym (nth_obj sizeof_sym i syms)
      in if st_shndx sym_i = SHN_UNDEF
         then bind_run (str_at strtab (st_name sym_i))
                (\<lambda>s. bind_run (undef_names syms strtab is) (\<lambda>ss. Inr (s # ss)))
         else undef_names syms strtab is)"

definition discover_undef_syms :: "elf64_shdr \<Rightarrow> u8 list \<Rightarrow> cfile \<Rightarrow> (string list \<times> cfile) run" where
  "discover_undef_syms sh strtab f =
     (let (bs, f') = fread (sh_size sh) (fseek (sh_offset sh) f)
      in if length bs \<noteq> sh_size sh then Inl Exit
         else bind_run (undef_names bs strtab [1..<sh_size sh div sizeof_sym]) (\<lambda>ss. Inr (ss, f')))"

definition add_undefs :: "nat \<Rightarrow> string list \<Rightarrow> tool \<Rightarrow> tool" where
  "add_undefs m ss T =
     T\<lparr>mods := (mods T)(m := (mods T m)\<lparr>undef_syms := undef_syms (mods T m) @ ss\<rparr>)\<rparr>"

definition add_exports :: "nat \<Rightarrow> string list \<Rightarrow> tool \<Rightarrow> tool" where
  "add_exports m ss T = T\<lparr>symbols := symbols T @ map (\<lambda>s. \<lparr>s_name = s, s_mod = m\<rparr>) ss\<rparr>"

text \<open>The section loop of \<open>analysis_module\<close> over the headers \<open>shs\<close>, at index list \<open>is\<close>.\<close>

fun scan_sections ::
  "nat \<Rightarrow> elf64_shdr list \<Rightarrow> u8 list \<Rightarrow> nat list \<Rightarrow> cfile \<Rightarrow> tool \<Rightarrow> tool run" where
  "scan_sections m shs secstrings [] f T = Inr T"
| "scan_sections m shs secstrings (i # is) f T =
     (let sh = shs ! i
      in if sh_type sh = SHT_SYMTAB then
           (if sh_link sh < length shs then
              bind_run (get_strtab (shs ! sh_link sh) f) (\<lambda>(strtab, f1).
              bind_run (discover_undef_syms sh strtab f1) (\<lambda>(us, f2).
              scan_sections m shs secstrings is f2 (add_undefs m us T)))
            else Inl Crash)
         else
           bind_run (cmp_z (drop (sh_name sh) secstrings) (bytes ''__ksymtab_strings'' @ [0])) (\<lambda>eq.
             if eq then
               bind_run (get_strtab sh f) (\<lambda>(ksym_str, f1).
               bind_run (export_symbols ksym_str) (\<lambda>ss.
               scan_sections m shs secstrings is f1 (add_exports m ss T)))
             else scan_sections m shs secstrings is f T))"

definition analysis_module :: "(string \<Rightarrow> u8 list option) \<Rightarrow> nat \<Rightarrow> tool \<Rightarrow> tool run" where
  "analysis_module files m T =
     (case files (m_name (mods T m)) of None \<Rightarrow> Inl Exit | Some data \<Rightarrow>
     (let (hb, f0) = fread sizeof_ehdr \<lparr>f_data = data, f_pos = 0\<rparr>
      in if length hb \<noteq> sizeof_ehdr then Inl Exit
         else
           (let hdr = dec_ehdr hb;
                (sb, f1) = fread (sizeof_shdr * e_shnum hdr) (fseek (e_shoff hdr) f0)
            in if length sb \<noteq> sizeof_shdr * e_shnum hdr then Inl Exit
               else
                 (let shs = map (\<lambda>i. dec_shdr (nth_obj sizeof_shdr i sb)) [0..<e_shnum hdr]
                  in if e_shstrndx hdr < length shs then
                       bind_run (get_strtab (shs ! e_shstrndx hdr) f1) (\<lambda>(secstrings, f2).
                         scan_sections m shs secstrings [0..<e_shnum hdr] f2 T)
                     else Inl Crash))))"

text \<open>The first loop of \<open>sort_modules\<close>: the exports and undefined symbols of every module.\<close>

fun analyse_all :: "(string \<Rightarrow> u8 list option) \<Rightarrow> nat list \<Rightarrow> tool \<Rightarrow> tool run" where
  "analyse_all files [] T = Inr T"
| "analyse_all files (m # ms) T = bind_run (analysis_module files m T) (analyse_all files ms)"

section \<open>The symbols of the booter\<close>

text \<open>
  \<open>fgets_lines\<close> cuts a text file the way \<^verbatim>\<open>fgets(line, 256, fp)\<close> does, and \<open>strtoul16\<close> is
  \<^verbatim>\<open>strtoul(line, &tail, 16)\<close>.
\<close>

definition fgets_len :: "string \<Rightarrow> nat" where
  "fgets_len s =
     (let n = length (takeWhile (\<lambda>c. c \<noteq> CHR 0x0A) s) in min 255 (if n < length s then Suc n else n))"

function fgets_lines :: "string \<Rightarrow> string list" where
  "fgets_lines s =
     (if s = [] then [] else take (fgets_len s) s # fgets_lines (drop (fgets_len s) s))"
  by pat_completeness auto
termination
proof (relation "measure length")
  fix s :: string
  assume "s \<noteq> []"
  then have "0 < fgets_len s" by (cases s) (auto simp: fgets_len_def Let_def)
  with \<open>s \<noteq> []\<close> show "(drop (fgets_len s) s, s) \<in> measure length" by simp
qed simp

declare fgets_lines.simps [simp del]

definition c_isspace :: "char \<Rightarrow> bool" where
  "c_isspace c \<longleftrightarrow> c = CHR '' '' \<or> (9 \<le> (of_char c :: nat) \<and> (of_char c :: nat) \<le> 13)"

definition hex_digit :: "char \<Rightarrow> nat option" where
  "hex_digit c =
     (let n = of_char c :: nat
      in if 48 \<le> n \<and> n \<le> 57 then Some (n - 48)
         else if 97 \<le> n \<and> n \<le> 102 then Some (n - 87)
         else if 65 \<le> n \<and> n \<le> 70 then Some (n - 55) else None)"

fun hex_value :: "nat \<Rightarrow> string \<Rightarrow> nat" where
  "hex_value acc [] = acc"
| "hex_value acc (c # cs) = (case hex_digit c of None \<Rightarrow> acc | Some d \<Rightarrow> hex_value (16 * acc + d) cs)"

definition strtoul16 :: "string \<Rightarrow> u64" where
  "strtoul16 s =
     (let s1 = dropWhile c_isspace s;
          neg = (s1 \<noteq> [] \<and> hd s1 = CHR ''-'');
          s2 = (if s1 \<noteq> [] \<and> (hd s1 = CHR ''-'' \<or> hd s1 = CHR ''+'') then tl s1 else s1);
          s3 = (if take 2 s2 = ''0x'' \<or> take 2 s2 = ''0X'' then drop 2 s2 else s2);
          v = hex_value 0 s3
      in if 2 ^ 64 \<le> v then - 1 else if neg then - word_of_nat v else word_of_nat v)"

definition map_line :: "string \<Rightarrow> u64 \<times> u64 \<times> u64 \<Rightarrow> u64 \<times> u64 \<times> u64" where
  "map_line l r =
     (let line = takeWhile (\<lambda>c. c \<noteq> CHR 0x00) l; (base, start, end) = r
      in if sublist (CHR '' '' # ''_start'' @ [CHR 0x0A]) line then (strtoul16 line, start, end)
         else if sublist (CHR '' '' # ''__start_ksymtab_strings'' @ [CHR 0x0A]) line
           then (base, strtoul16 line, end)
         else if sublist (CHR '' '' # ''__end_ksymtab_strings'' @ [CHR 0x0A]) line
           then (base, start, strtoul16 line)
         else r)"

fun map_lines :: "string list \<Rightarrow> u64 \<times> u64 \<times> u64 \<Rightarrow> u64 \<times> u64 \<times> u64" where
  "map_lines [] r = r"
| "map_lines (l # ls) r =
     (let (base, start, end) = map_line l r
      in if start \<noteq> 0 \<and> end \<noteq> 0 then (base, start, end) else map_lines ls (base, start, end))"

definition detect_syms_range :: "u8 list \<Rightarrow> u32 \<times> u32" where
  "detect_syms_range data =
     (let (base, start, end) = map_lines (fgets_lines (chars data)) (0, 0, 0)
      in (ucast (start - base), ucast (end - start)))"

definition init_symtable :: "(string \<Rightarrow> u8 list option) \<Rightarrow> tool \<Rightarrow> tool run" where
  "init_symtable files T =
     (case files ''booter.map'' of None \<Rightarrow> Inl Exit | Some mp \<Rightarrow>
     (let (ksym_ptr, ksym_num) = detect_syms_range mp
      in case files ''booter.bin'' of None \<Rightarrow> Inl Exit | Some bin \<Rightarrow>
        (let (bs, f) = fread (unat ksym_num) (fseek (unat ksym_ptr) \<lparr>f_data = bin, f_pos = 0\<rparr>);
             buf = bs @ replicate (unat ksym_num - length bs) 0
         in bind_run (export_symbols buf) (\<lambda>ss. Inr (add_exports booter ss T)))))"

section \<open>Exported names\<close>

lemma chars_bytes [simp]: "chars (bytes s) = s"
  by (induction s) (auto simp: chars_def bytes_def unat_of_nat take_bit_eq_mod)

lemma str_at_bytes:
  assumes "0 \<notin> set (bytes s)"
  shows "str_at (bytes s @ 0 # rest) 0 = Inr s"
proof -
  have "takeWhile (\<lambda>b. b \<noteq> 0) (bytes s @ 0 # rest) = bytes s"
    using assms by (subst takeWhile_append2) auto
  then show ?thesis by (simp add: str_at_def)
qed

text \<open>
  (C8) The scan of a \<^verbatim>\<open>__ksymtab_strings\<close> section finds every exported name: decoding the
  concatenation of NUL-terminated names gives back the names, in order.
\<close>

theorem export_symbols_roundtrip:
  assumes "\<forall>s\<in>set names. 0 \<notin> set (bytes s)"
  shows "export_symbols (concat (map (\<lambda>s. bytes s @ [0]) names)) = Inr names"
  using assms
proof (induction names)
  case Nil
  then show ?case by (simp add: export_symbols.simps)
next
  case (Cons s names)
  have len: "length (bytes s) = length s" by (simp add: bytes_def)
  have "str_at (bytes s @ 0 # concat (map (\<lambda>s. bytes s @ [0]) names)) 0 = Inr s"
    using Cons.prems by (intro str_at_bytes) simp
  then show ?case using Cons len by (subst export_symbols.simps) simp
qed

theorem export_symbols_roundtrip_witness:
  "export_symbols (concat (map (\<lambda>s. bytes s @ [0]) [''panic'', ''sbi_puts''])) = Inr [''panic'', ''sbi_puts'']"
  by (rule export_symbols_roundtrip) (simp add: bytes_def)

section \<open>The symbol list after the scan\<close>

text \<open>
  What scanning module \<open>m\<close> may change: exports of \<open>m\<close> are appended to the symbol list, and the
  undefined symbols of \<open>m\<close> grow.
\<close>

definition scanned :: "nat \<Rightarrow> tool \<Rightarrow> tool \<Rightarrow> bool" where
  "scanned m T T' \<longleftrightarrow>
     (\<exists>ss us. T' = T\<lparr>symbols := symbols T @ map (\<lambda>s. \<lparr>s_name = s, s_mod = m\<rparr>) ss,
                    mods := (mods T)(m := (mods T m)\<lparr>undef_syms := undef_syms (mods T m) @ us\<rparr>)\<rparr>)"

lemma scanned_refl: "scanned m T T"
  unfolding scanned_def by (intro exI [of _ "[]"]) simp

lemma scanned_trans: "scanned m T T1 \<Longrightarrow> scanned m T1 T2 \<Longrightarrow> scanned m T T2"
  unfolding scanned_def
  by (elim exE, intro exI [of _ "_ @ _"]) simp

lemma scanned_add_undefs: "scanned m T (add_undefs m us T)"
  unfolding scanned_def add_undefs_def by (intro exI [of _ "[]"] exI [of _ us]) simp

lemma scanned_add_exports: "scanned m T (add_exports m ss T)"
  unfolding scanned_def add_exports_def by (intro exI [of _ "[]"] exI [of _ ss]) simp

lemma scan_sections_scanned:
  "scan_sections m shs sec is f T = Inr T' \<Longrightarrow> scanned m T T'"
proof (induction "is" arbitrary: f T)
  case Nil
  then show ?case by (simp add: scanned_refl)
next
  case (Cons i "is")
  then show ?case
    by (auto simp: Let_def run_simps split: if_splits
        intro: scanned_trans [OF scanned_add_undefs] scanned_trans [OF scanned_add_exports])
qed

lemma analysis_module_scanned:
  "analysis_module files m T = Inr T' \<Longrightarrow> scanned m T T'"
  by (auto simp: analysis_module_def Let_def run_simps split: option.splits prod.splits if_splits
      intro: scan_sections_scanned)

lemma analyse_all_frame:
  "analyse_all files ms T = Inr T' \<Longrightarrow>
     (\<exists>ss. symbols T' = symbols T @ ss \<and> (\<forall>sy\<in>set ss. s_mod sy \<in> set ms) \<and>
           (sorted ms \<longrightarrow> sorted (map s_mod ss))) \<and>
     (\<forall>m. dependencies (mods T' m) = dependencies (mods T m) \<and> m_name (mods T' m) = m_name (mods T m) \<and>
          num_dependencies (mods T' m) = num_dependencies (mods T m)) \<and>
     deps T' = deps T \<and> ndep T' = ndep T \<and> modules T' = modules T"
proof (induction ms arbitrary: T)
  case Nil
  then show ?case by simp
next
  case (Cons k ms)
  from Cons.prems obtain T1 where T1: "analysis_module files k T = Inr T1" "analyse_all files ms T1 = Inr T'"
    by (auto simp: run_simps)
  from analysis_module_scanned [OF T1(1)] obtain ss us where
    eq: "T1 = T\<lparr>symbols := symbols T @ map (\<lambda>s. \<lparr>s_name = s, s_mod = k\<rparr>) ss,
               mods := (mods T)(k := (mods T k)\<lparr>undef_syms := undef_syms (mods T k) @ us\<rparr>)\<rparr>"
    unfolding scanned_def by blast
  note IH = Cons.IH [OF T1(2)]
  from IH obtain rest where rest: "symbols T' = symbols T1 @ rest" "\<forall>sy\<in>set rest. s_mod sy \<in> set ms"
    "sorted ms \<longrightarrow> sorted (map s_mod rest)"
    by blast
  let ?new = "map (\<lambda>s. \<lparr>s_name = s, s_mod = k\<rparr>) ss @ rest"
  have syms: "symbols T' = symbols T @ ?new" using rest(1) eq by simp
  have mem: "\<forall>sy\<in>set ?new. s_mod sy \<in> set (k # ms)" using rest(2) by auto
  have "sorted (map s_mod (map (\<lambda>s. \<lparr>s_name = s, s_mod = k\<rparr>) ss))"
    by (induction ss) auto
  then have srt: "sorted (k # ms) \<longrightarrow> sorted (map s_mod ?new)"
    using rest(2,3) by (auto simp: sorted_append)
  have "\<exists>ss. symbols T' = symbols T @ ss \<and> (\<forall>sy\<in>set ss. s_mod sy \<in> set (k # ms)) \<and>
           (sorted (k # ms) \<longrightarrow> sorted (map s_mod ss))"
    by (rule exI [of _ ?new]) (use syms mem srt in blast)
  moreover have "dependencies (mods T1 m) = dependencies (mods T m) \<and> m_name (mods T1 m) = m_name (mods T m) \<and>
      num_dependencies (mods T1 m) = num_dependencies (mods T m)" for m
    by (simp add: eq)
  moreover have "deps T1 = deps T \<and> ndep T1 = ndep T \<and> modules T1 = modules T" by (simp add: eq)
  ultimately show ?case using IH by simp
qed

end
