(* ===== verification/Dep_Traverse.thy ===== *)
theory Dep_Traverse
  imports Dep_Graph
begin

text \<open>
  The depth-first walk of \<^verbatim>\<open>tools/mk_bootrd/main.c\<close> over the dependency graph: it orders the
  components a top component needs (\<open>traverse_dependency\<close> with the callback \<open>sort_func\<close>), checks or
  records the profile, and detects cyclic chains.  The profile read from a JSON file is an argument
  of the walk (what \<^verbatim>\<open>json_object_object_get_ex\<close> returns for a module name), the profile being
  written is the sequence of \<^verbatim>\<open>json_object_object_add\<close> calls.
\<close>

section \<open>State and environment\<close>

record tstate =
  status :: "nat \<Rightarrow> mod_status"
  profile_mods :: "u64 list"
  need_handle_candidates :: bool
  json_deps :: "(string \<times> string list option) list"

record tenv =
  graph :: tool
  verify :: bool
  prof_deps :: "string \<Rightarrow> string list option"
  whitelist :: "string list"
  blacklist :: "string list"

abbreviation node_name :: "tenv \<Rightarrow> nat \<Rightarrow> string" where
  "node_name E m \<equiv> m_name (mods (graph E) m)"

datatype loop_exit =
    Cyclic tstate
  | Finished tstate nat "string list option"

section \<open>Operations\<close>

definition verify_dependency :: "string \<Rightarrow> string \<Rightarrow> (string \<Rightarrow> string list option) \<Rightarrow> bool run" where
  "verify_dependency name dep_name prof =
     (if strncmp_eq dep_name ''booter'' (length ''booter'') then Inr True
      else case prof name of
        None \<Rightarrow> Inl Crash
      | Some ns \<Rightarrow> Inr (list_ex (\<lambda>n. strncmp_eq dep_name n (length dep_name)) ns))"

definition in_list :: "string \<Rightarrow> string list \<Rightarrow> bool" where
  "in_list name items = list_ex (\<lambda>i. strncmp_eq name i (length name)) items"

definition sort_func :: "tool \<Rightarrow> nat \<Rightarrow> u64 list \<Rightarrow> u64 list run" where
  "sort_func T m ps =
     (if length ps = num_modules T then Inl Exit else Inr (ps @ [offset_in_file (mods T m)]))"

definition is_candidate :: "tenv \<Rightarrow> nat \<Rightarrow> bool" where
  "is_candidate E p \<longleftrightarrow> d_flags (deps (graph E) p) AND DEPEND_FLAGS_CANDIDATE \<noteq> 0"

definition dep_mod :: "tenv \<Rightarrow> nat \<Rightarrow> nat" where
  "dep_mod E p = d_mod (deps (graph E) p)"

text \<open>
  \<open>traverse_dependency fuel E m s\<close> is the call on module \<open>m\<close>, \<open>traverse_deps\<close> its loop over the
  dependency list.  The fuel bounds the depth of the recursion; \<open>None\<close> is running out of it, and
  \<open>traverse_fuel\<close> below shows that one unit per module that is not yet visited is enough.
\<close>

function (sequential) traverse_dependency :: "nat \<Rightarrow> tenv \<Rightarrow> nat \<Rightarrow> tstate \<Rightarrow> tstate run option"
  and traverse_deps ::
    "nat \<Rightarrow> tenv \<Rightarrow> nat \<Rightarrow> nat list \<Rightarrow> nat \<Rightarrow> string list option \<Rightarrow> tstate \<Rightarrow> loop_exit run option"
where
  "traverse_dependency fuel E m s =
     (if status s m \<noteq> M_STATUS_NONE then Some (Inr s)
      else case fuel of
        0 \<Rightarrow> None
      | Suc f \<Rightarrow>
         (case traverse_deps f E m (dependencies (mods (graph E) m)) 0 None
                 (s\<lparr>status := (status s)(m := M_STATUS_DOING)\<rparr>) of
            None \<Rightarrow> None
          | Some (Inl e) \<Rightarrow> Some (Inl e)
          | Some (Inr (Cyclic s2)) \<Rightarrow> Some (Inr s2)
          | Some (Inr (Finished s2 handled dep_mods)) \<Rightarrow>
             (let s3 = (if verify E then s2
                        else s2\<lparr>json_deps := json_deps s2 @ [(node_name E m, dep_mods)]\<rparr>)
              in if handled \<noteq> num_dependencies (mods (graph E) m) then Some (Inl Exit)
                 else Some (bind_run (sort_func (graph E) m (profile_mods s3))
                        (\<lambda>ps. Inr (s3\<lparr>status := (status s3)(m := M_STATUS_DONE), profile_mods := ps\<rparr>))))))"
| "traverse_deps f E m [] handled dep_mods s = Some (Inr (Finished s handled dep_mods))"
| "traverse_deps f E m (p # ps) handled dep_mods s =
     (if is_candidate E p \<and> in_list (node_name E (dep_mod E p)) (blacklist E)
      then traverse_deps f E m ps (Suc handled) dep_mods s
      else
        (let s1 = (if is_candidate E p \<and> \<not> in_list (node_name E (dep_mod E p)) (whitelist E)
                   then s\<lparr>need_handle_candidates := True\<rparr> else s)
         in case traverse_dependency f E (dep_mod E p) s1 of
              None \<Rightarrow> None
            | Some (Inl e) \<Rightarrow> Some (Inl e)
            | Some (Inr s2) \<Rightarrow>
               (if status s2 (dep_mod E p) \<noteq> M_STATUS_DONE then Some (Inr (Cyclic s2))
                else if verify E then
                  (case verify_dependency (node_name E m) (node_name E (dep_mod E p)) (prof_deps E) of
                     Inl e \<Rightarrow> Some (Inl e)
                   | Inr False \<Rightarrow> Some (Inl Exit)
                   | Inr True \<Rightarrow> traverse_deps f E m ps (Suc handled) dep_mods s2)
                else
                  (let dm = (case dep_mods of None \<Rightarrow> [] | Some l \<Rightarrow> l)
                   in traverse_deps f E m ps (Suc handled)
                        (Some (if strncmp_eq (node_name E (dep_mod E p)) ''booter'' (length ''booter'')
                               then dm else dm @ [node_name E (dep_mod E p)])) s2))))"
  by pat_completeness auto
termination
  by (relation "measures [\<lambda>x. case x of Inl (f, _) \<Rightarrow> f | Inr (f, _) \<Rightarrow> f,
                          \<lambda>x. case x of Inl _ \<Rightarrow> 0 | Inr (_, _, _, ps, _) \<Rightarrow> Suc (length ps)]") auto

declare traverse_dependency.simps [simp del] traverse_deps.simps(2) [simp del]

section \<open>Edges\<close>

definition skipped :: "tenv \<Rightarrow> nat \<Rightarrow> bool" where
  "skipped E p \<longleftrightarrow> is_candidate E p \<and> in_list (node_name E (dep_mod E p)) (blacklist E)"

definition edges :: "tenv \<Rightarrow> (nat \<times> nat) set" where
  "edges E = {(x, dep_mod E p) | x p. p \<in> set (dependencies (mods (graph E) x)) \<and> \<not> skipped E p}"

text \<open>\<open>topo E B xs\<close>: every node of \<open>xs\<close> comes after all its successors, except those in \<open>B\<close>.\<close>

definition topo :: "tenv \<Rightarrow> nat set \<Rightarrow> nat list \<Rightarrow> bool" where
  "topo E B xs \<longleftrightarrow>
     (\<forall>i<length xs. \<forall>p\<in>set (dependencies (mods (graph E) (xs ! i))).
        \<not> skipped E p \<longrightarrow> dep_mod E p \<in> B \<union> set (take i xs))"


lemma edgesI: "p \<in> set (dependencies (mods (graph E) x)) \<Longrightarrow> \<not> skipped E p \<Longrightarrow> (x, dep_mod E p) \<in> edges E"
  by (auto simp: edges_def)

lemma topo_snoc:
  assumes "topo E B xs"
    and "\<And>p. p \<in> set (dependencies (mods (graph E) x)) \<Longrightarrow> \<not> skipped E p \<Longrightarrow> dep_mod E p \<in> B \<union> set xs"
  shows "topo E B (xs @ [x])"
  using assms by (auto simp: topo_def nth_append less_Suc_eq)

section \<open>The invariant of the walk\<close>

definition walk_inv :: "tenv \<Rightarrow> nat set \<Rightarrow> tstate \<Rightarrow> nat list \<Rightarrow> bool" where
  "walk_inv E B s ord \<longleftrightarrow>
     distinct ord \<and> B \<inter> set ord = {} \<and>
     profile_mods s = map (\<lambda>x. offset_in_file (mods (graph E) x)) ord \<and>
     (\<forall>x. status s x = M_STATUS_DONE \<longleftrightarrow> x \<in> B \<union> set ord) \<and>
     topo E B ord"

definition keeps :: "tstate \<Rightarrow> tstate \<Rightarrow> bool" where
  "keeps s s' \<longleftrightarrow> (\<forall>x. status s x \<noteq> M_STATUS_NONE \<longrightarrow> status s' x = status s x)"

definition no_new_doing :: "tstate \<Rightarrow> tstate \<Rightarrow> bool" where
  "no_new_doing s s' \<longleftrightarrow> (\<forall>x. status s' x = M_STATUS_DOING \<longrightarrow> status s x = M_STATUS_DOING)"

definition visits :: "tenv \<Rightarrow> nat set \<Rightarrow> nat \<Rightarrow> tstate \<Rightarrow> nat list \<Rightarrow> tstate \<Rightarrow> bool" where
  "visits E B m s ord s' \<longleftrightarrow>
     keeps s s' \<and> (\<exists>new. walk_inv E B s' (ord @ new) \<and> set new \<subseteq> (edges E)\<^sup>* `` {m})"

lemma keeps_refl [simp]: "keeps s s"
  by (simp add: keeps_def)

lemma keeps_trans: "keeps s s' \<Longrightarrow> keeps s' s'' \<Longrightarrow> keeps s s''"
  by (simp add: keeps_def)

lemma no_new_doing_trans: "no_new_doing s s' \<Longrightarrow> no_new_doing s' s'' \<Longrightarrow> no_new_doing s s''"
  by (auto simp: no_new_doing_def)

lemma visits_refl: "walk_inv E B s ord \<Longrightarrow> visits E B m s ord s"
  unfolding visits_def by (rule conjI, simp, rule exI [of _ "[]"]) simp

lemma walk_inv_flag [simp]:
  "walk_inv E B (s\<lparr>need_handle_candidates := b\<rparr>) ord = walk_inv E B s ord"
  "walk_inv E B (s\<lparr>json_deps := j\<rparr>) ord = walk_inv E B s ord"
  by (simp_all add: walk_inv_def)

lemma keeps_flag [simp]:
  "keeps (s\<lparr>need_handle_candidates := b\<rparr>) s' = keeps s s'"
  "no_new_doing (s\<lparr>need_handle_candidates := b\<rparr>) s' = no_new_doing s s'"
  by (simp_all add: keeps_def no_new_doing_def)

lemma walk_inv_doing:
  assumes "walk_inv E B s ord" and "status s m = M_STATUS_NONE"
  shows "walk_inv E B (s\<lparr>status := (status s)(m := M_STATUS_DOING)\<rparr>) ord"
proof -
  have "m \<notin> B \<union> set ord" using assms by (metis mod_status.distinct(3) walk_inv_def)
  with assms show ?thesis by (auto simp: walk_inv_def)
qed

text \<open>What one call and one run of the loop achieve; \<open>call_ok\<close> is the hypothesis for nested calls.\<close>

definition call_ok :: "tenv \<Rightarrow> nat set \<Rightarrow> nat \<Rightarrow> bool" where
  "call_ok E B f \<longleftrightarrow>
     (\<forall>m s ord s'. walk_inv E B s ord \<longrightarrow> traverse_dependency f E m s = Some (Inr s') \<longrightarrow>
        visits E B m s ord s' \<and>
        (status s' m = M_STATUS_DONE \<longrightarrow> no_new_doing s s'))"

lemma loop_next:
  assumes "\<not> skipped E p"
    and "traverse_deps f E m (p # ps) h dm s = Some (Inr r)"
  obtains s1 s2 where "s1 = s \<or> s1 = s\<lparr>need_handle_candidates := True\<rparr>"
    and "traverse_dependency f E (dep_mod E p) s1 = Some (Inr s2)"
    and "status s2 (dep_mod E p) \<noteq> M_STATUS_DONE \<Longrightarrow> r = Cyclic s2"
    and "status s2 (dep_mod E p) = M_STATUS_DONE \<Longrightarrow>
           \<exists>dm'. traverse_deps f E m ps (Suc h) dm' s2 = Some (Inr r)"
proof -
  define s1 where "s1 = (if is_candidate E p \<and> \<not> in_list (node_name E (dep_mod E p)) (whitelist E)
                   then s\<lparr>need_handle_candidates := True\<rparr> else s)"
  have "s1 = s \<or> s1 = s\<lparr>need_handle_candidates := True\<rparr>" by (simp add: s1_def)
  moreover define K where "K = (\<lambda>s2. if status s2 (dep_mod E p) \<noteq> M_STATUS_DONE then Some (Inr (Cyclic s2))
      else if verify E then
        (case verify_dependency (node_name E m) (node_name E (dep_mod E p)) (prof_deps E) of
           Inl e \<Rightarrow> Some (Inl e)
         | Inr False \<Rightarrow> Some (Inl Exit)
         | Inr True \<Rightarrow> traverse_deps f E m ps (Suc h) dm s2)
      else traverse_deps f E m ps (Suc h)
             (Some (if strncmp_eq (node_name E (dep_mod E p)) ''booter'' (length ''booter'')
                    then (case dm of None \<Rightarrow> [] | Some l \<Rightarrow> l)
                    else (case dm of None \<Rightarrow> [] | Some l \<Rightarrow> l) @ [node_name E (dep_mod E p)])) s2)"
  have c: "\<not> (is_candidate E p \<and> in_list (node_name E (dep_mod E p)) (blacklist E))"
    using assms(1) by (simp add: skipped_def)
  have A: "(case traverse_dependency f E (dep_mod E p) s1 of
      None \<Rightarrow> None | Some (Inl e) \<Rightarrow> Some (Inl e) | Some (Inr s2) \<Rightarrow> K s2) = Some (Inr r)"
    using assms(2) unfolding traverse_deps.simps Let_def if_not_P [OF c] s1_def [symmetric] K_def .
  then obtain s2 where s2: "traverse_dependency f E (dep_mod E p) s1 = Some (Inr s2)" and K: "K s2 = Some (Inr r)"
    by (auto split: option.splits sum.splits)
  moreover have "r = Cyclic s2" if "status s2 (dep_mod E p) \<noteq> M_STATUS_DONE"
    using K that by (simp add: K_def)
  moreover have "\<exists>dm'. traverse_deps f E m ps (Suc h) dm' s2 = Some (Inr r)"
    if "status s2 (dep_mod E p) = M_STATUS_DONE"
    using K that unfolding K_def by (simp split: if_split_asm sum.split_asm bool.split_asm) blast+
  ultimately show thesis using that by blast
qed

lemma loop_skip:
  "skipped E p \<Longrightarrow> traverse_deps f E m (p # ps) h dm s = traverse_deps f E m ps (Suc h) dm s"
  by (simp add: skipped_def traverse_deps.simps)


lemma visits_trans:
  assumes "visits E B t s ord s2" and "(m, t) \<in> edges E"
    and "\<And>ord2. walk_inv E B s2 ord2 \<Longrightarrow> visits E B m s2 ord2 s3"
  shows "visits E B m s ord s3"
proof -
  obtain new where new: "keeps s s2" "walk_inv E B s2 (ord @ new)" "set new \<subseteq> (edges E)\<^sup>* `` {t}"
    using assms(1) by (auto simp: visits_def)
  obtain new2 where new2: "keeps s2 s3" "walk_inv E B s3 ((ord @ new) @ new2)" "set new2 \<subseteq> (edges E)\<^sup>* `` {m}"
    using assms(3) [OF new(2)] by (auto simp: visits_def)
  have "(edges E)\<^sup>* `` {t} \<subseteq> (edges E)\<^sup>* `` {m}"
    using assms(2) by (auto intro: converse_rtrancl_into_rtrancl)
  with new(3) new2(3) have "set (new @ new2) \<subseteq> (edges E)\<^sup>* `` {m}" by auto
  moreover have "walk_inv E B s3 (ord @ (new @ new2))" using new2(2) by simp
  ultimately show ?thesis
    using keeps_trans [OF new(1) new2(1)] unfolding visits_def by blast
qed

lemma loop_ok:
  assumes call: "call_ok E B f"
    and "set ps \<subseteq> set (dependencies (mods (graph E) m))"
    and "walk_inv E B s ord"
    and "traverse_deps f E m ps h dm s = Some (Inr r)"
  shows "case r of
      Cyclic s' \<Rightarrow> visits E B m s ord s'
    | Finished s' h' dm' \<Rightarrow>
        visits E B m s ord s' \<and> no_new_doing s s' \<and> h' = h + length ps \<and>
        (\<forall>p\<in>set ps. \<not> skipped E p \<longrightarrow> status s' (dep_mod E p) = M_STATUS_DONE)"
  using assms(2-4)
proof (induction ps arbitrary: s ord h dm)
  case Nil
  then show ?case by (auto simp: visits_refl no_new_doing_def)
next
  case (Cons p ps)
  show ?case
  proof (cases "skipped E p")
    case True
    with Cons.prems have "traverse_deps f E m ps (Suc h) dm s = Some (Inr r)" by (simp add: loop_skip)
    from Cons.IH [OF _ Cons.prems(2) this] Cons.prems(1) True show ?thesis
      by (auto split: loop_exit.splits)
  next
    case False
    obtain s1 s2 where s1: "s1 = s \<or> s1 = s\<lparr>need_handle_candidates := True\<rparr>"
      and run: "traverse_dependency f E (dep_mod E p) s1 = Some (Inr s2)"
      and cyc: "status s2 (dep_mod E p) \<noteq> M_STATUS_DONE \<Longrightarrow> r = Cyclic s2"
      and rest: "status s2 (dep_mod E p) = M_STATUS_DONE \<Longrightarrow>
           \<exists>dm'. traverse_deps f E m ps (Suc h) dm' s2 = Some (Inr r)"
      using loop_next [OF False Cons.prems(3)] by blast
    have edge: "(m, dep_mod E p) \<in> edges E" using Cons.prems(1) False by (auto intro: edgesI)
    have inv1: "walk_inv E B s1 ord" using s1 Cons.prems(2) by auto
    have "visits E B (dep_mod E p) s1 ord s2 \<and>
        (status s2 (dep_mod E p) = M_STATUS_DONE \<longrightarrow> no_new_doing s1 s2)"
      using call inv1 run by (simp add: call_ok_def)
    then have v: "visits E B (dep_mod E p) s ord s2"
      and nd: "status s2 (dep_mod E p) = M_STATUS_DONE \<Longrightarrow> no_new_doing s s2"
      using s1 by (auto simp: visits_def)
    have sub: "set ps \<subseteq> set (dependencies (mods (graph E) m))" using Cons.prems(1) by simp
    show ?thesis
    proof (cases "status s2 (dep_mod E p) = M_STATUS_DONE")
      case False
      with cyc show ?thesis by (simp add: visits_trans [OF v edge visits_refl])
    next
      case True
      obtain dm' where run': "traverse_deps f E m ps (Suc h) dm' s2 = Some (Inr r)"
        using rest [OF True] by blast
      note IH = Cons.IH [OF sub _ run']
      obtain ord2 where inv2: "walk_inv E B s2 ord2" using v by (auto simp: visits_def)
      show ?thesis
      proof (cases r)
        case (Cyclic s')
        then show ?thesis using visits_trans [OF v edge, of s'] IH by auto
      next
        case (Finished s' h' dm'')
        have "visits E B m s2 ord2 s'" and nd': "no_new_doing s2 s'" and "h' = Suc h + length ps"
          and done': "\<forall>p\<in>set ps. \<not> skipped E p \<longrightarrow> status s' (dep_mod E p) = M_STATUS_DONE"
          using IH [OF inv2] Finished by auto
        then have "status s' (dep_mod E p) = M_STATUS_DONE"
          using True by (auto simp: visits_def keeps_def)
        moreover have "visits E B m s ord s'"
          using visits_trans [OF v edge, of s'] IH Finished by auto
        ultimately show ?thesis
          using Finished done' \<open>h' = Suc h + length ps\<close> no_new_doing_trans [OF nd [OF True] nd'] by auto
      qed
    qed
  qed
qed

lemma finish_inv:
  assumes inv: "walk_inv E B s ord" and m: "status s m = M_STATUS_DOING"
    and deps: "\<And>p. p \<in> set (dependencies (mods (graph E) m)) \<Longrightarrow> \<not> skipped E p \<Longrightarrow>
                 status s (dep_mod E p) = M_STATUS_DONE"
  shows "walk_inv E B (s\<lparr>status := (status s)(m := M_STATUS_DONE),
           profile_mods := profile_mods s @ [offset_in_file (mods (graph E) m)]\<rparr>) (ord @ [m])"
proof -
  have st: "\<forall>x. status s x = M_STATUS_DONE \<longleftrightarrow> x \<in> B \<union> set ord" and "topo E B ord"
    using inv by (simp_all add: walk_inv_def)
  moreover have new: "m \<notin> B \<union> set ord" using st m by (metis mod_status.distinct(5))
  ultimately have "topo E B (ord @ [m])" using deps by (intro topo_snoc) auto
  with inv new show ?thesis by (auto simp: walk_inv_def)
qed

lemma call_cases:
  assumes "status s m = M_STATUS_NONE"
    and "traverse_dependency (Suc f) E m s = Some (Inr s')"
  obtains (cyclic) "traverse_deps f E m (dependencies (mods (graph E) m)) 0 None
             (s\<lparr>status := (status s)(m := M_STATUS_DOING)\<rparr>) = Some (Inr (Cyclic s'))"
  | (finished) s2 h dm j where "traverse_deps f E m (dependencies (mods (graph E) m)) 0 None
             (s\<lparr>status := (status s)(m := M_STATUS_DOING)\<rparr>) = Some (Inr (Finished s2 h dm))"
      and "h = num_dependencies (mods (graph E) m)"
      and "length (profile_mods s2) \<noteq> num_modules (graph E)"
      and "s' = s2\<lparr>json_deps := j, status := (status s2)(m := M_STATUS_DONE),
           profile_mods := profile_mods s2 @ [offset_in_file (mods (graph E) m)]\<rparr>"
proof -
  let ?R = "traverse_deps f E m (dependencies (mods (graph E) m)) 0 None
             (s\<lparr>status := (status s)(m := M_STATUS_DOING)\<rparr>)"
  obtain r where r: "?R = Some (Inr r)"
    using assms by (subst (asm) traverse_dependency.simps) (auto split: option.splits sum.splits)
  show thesis
  proof (cases r)
    case (Cyclic s2)
    then have "s' = s2" using assms r by (subst (asm) traverse_dependency.simps) simp
    with Cyclic r cyclic show ?thesis by simp
  next
    case (Finished s2 h dm)
    define j where "j = (if verify E then json_deps s2 else json_deps s2 @ [(node_name E m, dm)])"
    have "h = num_dependencies (mods (graph E) m) \<and> length (profile_mods s2) \<noteq> num_modules (graph E) \<and>
      s' = s2\<lparr>json_deps := j, status := (status s2)(m := M_STATUS_DONE),
           profile_mods := profile_mods s2 @ [offset_in_file (mods (graph E) m)]\<rparr>"
      using assms r Finished
      by (subst (asm) traverse_dependency.simps) (auto simp: Let_def sort_func_def j_def split: if_splits)
    with Finished r finished show ?thesis by blast
  qed
qed


lemma call_ok_0: "call_ok E B 0"
  unfolding call_ok_def
proof (intro allI impI)
  fix m s ord s'
  assume inv: "walk_inv E B s ord" and run: "traverse_dependency 0 E m s = Some (Inr s')"
  then have "s' = s"
    by (subst (asm) traverse_dependency.simps) (auto split: if_splits)
  then show "visits E B m s ord s' \<and> (status s' m = M_STATUS_DONE \<longrightarrow> no_new_doing s s')"
    using inv by (simp add: visits_refl no_new_doing_def)
qed

lemma visits_doing:
  assumes "status s m = M_STATUS_NONE" and "walk_inv E B s ord"
    and "visits E B m (s\<lparr>status := (status s)(m := M_STATUS_DOING)\<rparr>) ord s'"
  shows "visits E B m s ord s'" and "status s' m = M_STATUS_DOING"
proof -
  let ?s = "s\<lparr>status := (status s)(m := M_STATUS_DOING)\<rparr>"
  have k: "keeps ?s s'" using assms(3) by (simp add: visits_def)
  then have "keeps s s'" using assms(1) by (auto simp: keeps_def)
  with assms(3) show "visits E B m s ord s'" by (simp add: visits_def)
  from k show "status s' m = M_STATUS_DOING" by (simp add: keeps_def)
qed

lemma call_ok_Suc:
  assumes call: "call_ok E B f"
  shows "call_ok E B (Suc f)"
  unfolding call_ok_def
proof (intro allI impI)
  fix m s ord s'
  assume inv: "walk_inv E B s ord" and run: "traverse_dependency (Suc f) E m s = Some (Inr s')"
  let ?s = "s\<lparr>status := (status s)(m := M_STATUS_DOING)\<rparr>"
  let ?ps = "dependencies (mods (graph E) m)"
  show "visits E B m s ord s' \<and> (status s' m = M_STATUS_DONE \<longrightarrow> no_new_doing s s')"
  proof (cases "status s m = M_STATUS_NONE")
    case False
    then have "s' = s" using run by (subst (asm) traverse_dependency.simps) simp
    then show ?thesis using inv by (simp add: visits_refl no_new_doing_def)
  next
    case True
    have inv1: "walk_inv E B ?s ord" using inv True by (rule walk_inv_doing)
    from True run show ?thesis
    proof (cases rule: call_cases)
      case cyclic
      have "visits E B m ?s ord s'" using loop_ok [OF call subset_refl inv1 cyclic] by simp
      from visits_doing [OF True inv this] show ?thesis by simp
    next
      case (finished s2 h dm j)
      have v2: "visits E B m ?s ord s2" and nd: "no_new_doing ?s s2"
        and dn: "\<And>p. p \<in> set ?ps \<Longrightarrow> \<not> skipped E p \<Longrightarrow> status s2 (dep_mod E p) = M_STATUS_DONE"
        using loop_ok [OF call subset_refl inv1 finished(1)] by simp_all
      note v = visits_doing [OF True inv v2]
      obtain new where new: "keeps s s2" "walk_inv E B s2 (ord @ new)" "set new \<subseteq> (edges E)\<^sup>* `` {m}"
        using v(1) by (auto simp: visits_def)
      have "walk_inv E B (s2\<lparr>json_deps := j\<rparr>) (ord @ new)" using new(2) by simp
      then have "walk_inv E B s' ((ord @ new) @ [m])"
        using finish_inv [of E B "s2\<lparr>json_deps := j\<rparr>" "ord @ new" m] v(2) dn finished(4) by simp
      moreover have "keeps s s'" using new(1) True finished(4) by (auto simp: keeps_def)
      moreover have "set (new @ [m]) \<subseteq> (edges E)\<^sup>* `` {m}" using new(3) by simp
      ultimately have "visits E B m s ord s'" unfolding visits_def by (metis append_assoc)
      moreover have "no_new_doing s s'"
        unfolding no_new_doing_def
      proof (intro allI impI)
        fix x assume x: "status s' x = M_STATUS_DOING"
        then have "x \<noteq> m" and "status s2 x = M_STATUS_DOING" using finished(4) by (auto split: if_splits)
        with nd show "status s x = M_STATUS_DOING" by (auto simp: no_new_doing_def)
      qed
      ultimately show ?thesis by simp
    qed
  qed
qed

lemma call_ok_all: "call_ok E B f"
  by (induction f) (simp_all add: call_ok_0 call_ok_Suc)

lemma traverse_visits:
  assumes "walk_inv E B s ord" and "traverse_dependency f E m s = Some (Inr s')"
  shows "visits E B m s ord s'" and "status s' m = M_STATUS_DONE \<Longrightarrow> no_new_doing s s'"
  using call_ok_all [of E B f] assms unfolding call_ok_def by blast+

section \<open>Enough fuel\<close>

definition unvisited :: "nat set \<Rightarrow> tstate \<Rightarrow> nat set" where
  "unvisited U s = {x \<in> U. status s x = M_STATUS_NONE}"

definition closed_nodes :: "tenv \<Rightarrow> nat set \<Rightarrow> bool" where
  "closed_nodes E U \<longleftrightarrow>
     finite U \<and>
     (\<forall>x\<in>U. \<forall>p\<in>set (dependencies (mods (graph E) x)). \<not> skipped E p \<longrightarrow> dep_mod E p \<in> U)"

lemma unvisited_keeps: "keeps s s' \<Longrightarrow> unvisited U s' \<subseteq> unvisited U s"
  by (auto simp: unvisited_def keeps_def)

lemma unvisited_card:
  assumes "keeps s s'" and "finite U"
  shows "card (unvisited U s') \<le> card (unvisited U s)"
  using assms by (intro card_mono unvisited_keeps) (auto simp: unvisited_def)

lemma unvisited_doing:
  assumes "finite U" and "m \<in> U" and "status s m = M_STATUS_NONE" and "card (unvisited U s) \<le> Suc f"
  shows "card (unvisited U (s\<lparr>status := (status s)(m := M_STATUS_DOING)\<rparr>)) \<le> f"
proof -
  have "unvisited U (s\<lparr>status := (status s)(m := M_STATUS_DOING)\<rparr>) = unvisited U s - {m}"
    by (auto simp: unvisited_def)
  moreover have "m \<in> unvisited U s" and "finite (unvisited U s)"
    using assms by (auto simp: unvisited_def)
  ultimately show ?thesis using assms(4) by simp
qed

definition fuel_ok :: "tenv \<Rightarrow> nat set \<Rightarrow> nat set \<Rightarrow> nat \<Rightarrow> bool" where
  "fuel_ok E B U f \<longleftrightarrow>
     (\<forall>m s ord. m \<in> U \<longrightarrow> walk_inv E B s ord \<longrightarrow> card (unvisited U s) \<le> f \<longrightarrow>
        traverse_dependency f E m s \<noteq> None)"

lemma fuel_loop:
  assumes ok: "fuel_ok E B U f" and cl: "closed_nodes E U"
    and "\<forall>p\<in>set ps. \<not> skipped E p \<longrightarrow> dep_mod E p \<in> U"
    and "walk_inv E B s ord" and "card (unvisited U s) \<le> f"
  shows "traverse_deps f E m ps h dm s \<noteq> None"
  using assms(3-5)
proof (induction ps arbitrary: s ord h dm)
  case Nil
  then show ?case by simp
next
  case (Cons p ps)
  have sub: "\<forall>p\<in>set ps. \<not> skipped E p \<longrightarrow> dep_mod E p \<in> U" using Cons.prems(1) by auto
  note IH = Cons.IH [OF sub]
  show ?case
  proof (cases "skipped E p")
    case True
    then show ?thesis using IH [OF Cons.prems(2,3)] by (simp add: loop_skip)
  next
    case False
    then have p: "dep_mod E p \<in> U" using Cons.prems(1) by simp
    from False have c: "\<not> (is_candidate E p \<and> in_list (node_name E (dep_mod E p)) (blacklist E))"
      by (simp add: skipped_def)
    define s1 where "s1 = (if is_candidate E p \<and> \<not> in_list (node_name E (dep_mod E p)) (whitelist E)
                   then s\<lparr>need_handle_candidates := True\<rparr> else s)"
    have inv1: "walk_inv E B s1 ord" and card1: "card (unvisited U s1) \<le> f"
      using Cons.prems(2,3) by (auto simp: s1_def unvisited_def)
    then have ne: "traverse_dependency f E (dep_mod E p) s1 \<noteq> None"
      using ok p by (auto simp: fuel_ok_def)
    have next_ok: "traverse_deps f E m ps h' dm' s2 \<noteq> None"
      if "traverse_dependency f E (dep_mod E p) s1 = Some (Inr s2)" for s2 h' dm'
    proof -
      have v: "visits E B (dep_mod E p) s1 ord s2" using inv1 that by (rule traverse_visits(1))
      then obtain ord2 where "walk_inv E B s2 ord2" and "keeps s1 s2" by (auto simp: visits_def)
      moreover have "card (unvisited U s2) \<le> f"
        using unvisited_card [of s1 s2 U] \<open>keeps s1 s2\<close> card1 cl by (simp add: closed_nodes_def)
      ultimately show ?thesis using IH by blast
    qed
    show ?thesis
      unfolding traverse_deps.simps Let_def if_not_P [OF c] s1_def [symmetric]
      using ne next_ok by (auto split: option.split sum.split bool.split)
  qed
qed

lemma traverse_fuel_ok:
  assumes cl: "closed_nodes E U"
  shows "fuel_ok E B U f"
proof (induction f)
  case 0
  have "status s m \<noteq> M_STATUS_NONE" if "m \<in> U" and "card (unvisited U s) = 0" for m and s :: tstate
    using that cl by (auto simp: closed_nodes_def unvisited_def)
  then show ?case
    unfolding fuel_ok_def by (subst traverse_dependency.simps) auto
next
  case (Suc f)
  show ?case
    unfolding fuel_ok_def
  proof (intro allI impI)
    fix m s ord
    assume m: "m \<in> U" and inv: "walk_inv E B s ord" and card: "card (unvisited U s) \<le> Suc f"
    show "traverse_dependency (Suc f) E m s \<noteq> None"
    proof (cases "status s m = M_STATUS_NONE")
      case False
      then show ?thesis by (subst traverse_dependency.simps) simp
    next
      case True
      have "traverse_deps f E m (dependencies (mods (graph E) m)) 0 None
             (s\<lparr>status := (status s)(m := M_STATUS_DOING)\<rparr>) \<noteq> None"
        by (rule fuel_loop [OF Suc.IH cl _ walk_inv_doing [OF inv True] unvisited_doing [OF _ m True card]])
          (use cl m in \<open>auto simp: closed_nodes_def\<close>)
      then show ?thesis
        by (subst traverse_dependency.simps) (auto simp: True Let_def split: sum.split loop_exit.split)
    qed
  qed
qed


section \<open>Progress on acyclic graphs\<close>

definition inner_edges :: "tenv \<Rightarrow> nat set \<Rightarrow> (nat \<times> nat) set" where
  "inner_edges E U = edges E \<inter> U \<times> U"

text \<open>
  What the steps before the walk establish: the node set is closed, the edge counts are right, and
  when a profile is checked it lists every edge.
\<close>

definition walk_ready :: "tenv \<Rightarrow> nat set \<Rightarrow> nat set \<Rightarrow> bool" where
  "walk_ready E B U \<longleftrightarrow>
     closed_nodes E U \<and> card (U - B) \<le> num_modules (graph E) \<and>
     (\<forall>x\<in>U. num_dependencies (mods (graph E) x) = length (dependencies (mods (graph E) x))) \<and>
     (verify E \<longrightarrow> (\<forall>x\<in>U. \<forall>p\<in>set (dependencies (mods (graph E) x)). \<not> skipped E p \<longrightarrow>
        verify_dependency (node_name E x) (node_name E (dep_mod E p)) (prof_deps E) = Inr True))"

lemma closed_reach:
  assumes "closed_nodes E U" and "m \<in> U"
  shows "(edges E)\<^sup>* `` {m} \<subseteq> U"
proof
  fix y assume "y \<in> (edges E)\<^sup>* `` {m}"
  then have "(m, y) \<in> (edges E)\<^sup>*" by simp
  then show "y \<in> U"
  proof (induction rule: rtrancl_induct)
    case base
    then show ?case by (rule assms(2))
  next
    case (step y z)
    then show ?case using assms(1) by (auto simp: edges_def closed_nodes_def)
  qed
qed

lemma visits_within:
  assumes "visits E B t s ord s'" and "set ord \<subseteq> U" and "closed_nodes E U" and "t \<in> U"
  obtains ord' where "walk_inv E B s' ord'" and "set ord' \<subseteq> U"
  using assms closed_reach [OF assms(3,4)] unfolding visits_def by (metis Un_subset_iff set_append subset_trans)

definition progress_ok :: "tenv \<Rightarrow> nat set \<Rightarrow> nat set \<Rightarrow> nat \<Rightarrow> bool" where
  "progress_ok E B U f \<longleftrightarrow>
     (\<forall>m s ord. m \<in> U \<longrightarrow> walk_inv E B s ord \<longrightarrow> set ord \<subseteq> U \<longrightarrow> card (unvisited U s) \<le> f \<longrightarrow>
        (\<forall>x. status s x = M_STATUS_DOING \<longrightarrow> (x, m) \<in> (inner_edges E U)\<^sup>+) \<longrightarrow>
        (\<exists>s'. traverse_dependency f E m s = Some (Inr s') \<and> status s' m = M_STATUS_DONE))"

lemma progress_loop:
  assumes ok: "progress_ok E B U f" and ready: "walk_ready E B U" and m: "m \<in> U"
    and "set ps \<subseteq> set (dependencies (mods (graph E) m))"
    and "walk_inv E B s ord" and "set ord \<subseteq> U" and "card (unvisited U s) \<le> f"
    and "\<forall>x. status s x = M_STATUS_DOING \<longrightarrow> (x, m) \<in> (inner_edges E U)\<^sup>*"
  shows "\<exists>s' h' dm'. traverse_deps f E m ps h dm s = Some (Inr (Finished s' h' dm'))"
  using assms(4-8)
proof (induction ps arbitrary: s ord h dm)
  case Nil
  then show ?case by simp
next
  case (Cons p ps)
  have sub: "set ps \<subseteq> set (dependencies (mods (graph E) m))" and pm: "p \<in> set (dependencies (mods (graph E) m))"
    using Cons.prems(1) by auto
  have cl: "closed_nodes E U" using ready by (simp add: walk_ready_def)
  note IH = Cons.IH [OF sub]
  show ?case
  proof (cases "skipped E p")
    case True
    then show ?thesis using IH [OF Cons.prems(2-5)] by (simp add: loop_skip)
  next
    case False
    then have c: "\<not> (is_candidate E p \<and> in_list (node_name E (dep_mod E p)) (blacklist E))"
      by (simp add: skipped_def)
    define t where "t = dep_mod E p"
    define s1 where "s1 = (if is_candidate E p \<and> \<not> in_list (node_name E (dep_mod E p)) (whitelist E)
                   then s\<lparr>need_handle_candidates := True\<rparr> else s)"
    have st1: "status s1 = status s" by (simp add: s1_def)
    have tU: "t \<in> U" using cl m pm False by (auto simp: closed_nodes_def t_def)
    have e: "(m, t) \<in> inner_edges E U"
      using m tU edgesI [OF pm False] by (auto simp: inner_edges_def t_def)
    have inv1: "walk_inv E B s1 ord" and card1: "card (unvisited U s1) \<le> f"
      using Cons.prems(2,4) by (auto simp: s1_def unvisited_def)
    have doing1: "\<forall>x. status s1 x = M_STATUS_DOING \<longrightarrow> (x, t) \<in> (inner_edges E U)\<^sup>+"
      using Cons.prems(5) e st1 by (auto intro: rtrancl_into_trancl1)
    obtain s2 where run: "traverse_dependency f E t s1 = Some (Inr s2)" and dn: "status s2 t = M_STATUS_DONE"
      using ok tU inv1 Cons.prems(3) card1 doing1 unfolding progress_ok_def by blast
    note tv = traverse_visits [OF inv1 run]
    obtain ord2 where inv2: "walk_inv E B s2 ord2" "set ord2 \<subseteq> U"
      using visits_within [OF tv(1) Cons.prems(3) cl tU] by blast
    have card2: "card (unvisited U s2) \<le> f"
      using unvisited_card [of s1 s2 U] tv(1) card1 cl by (simp add: closed_nodes_def visits_def)
    have doing2: "\<forall>x. status s2 x = M_STATUS_DOING \<longrightarrow> (x, m) \<in> (inner_edges E U)\<^sup>*"
      using tv(2) [OF dn] st1 Cons.prems(5) by (auto simp: no_new_doing_def)
    note rest = IH [OF inv2 card2 doing2]
    have ver: "verify_dependency (node_name E m) (node_name E (dep_mod E p)) (prof_deps E) = Inr True" if "verify E"
      using that ready m pm False by (auto simp: walk_ready_def)
    show ?thesis
      unfolding traverse_deps.simps Let_def if_not_P [OF c] s1_def [symmetric]
      using run dn rest ver by (simp add: t_def)
  qed
qed

lemma profile_room:
  assumes ready: "walk_ready E B U" and inv: "walk_inv E B s ord" and sub: "set ord \<subseteq> U"
    and m: "m \<in> U" and doing: "status s m = M_STATUS_DOING"
  shows "length (profile_mods s) \<noteq> num_modules (graph E)"
proof -
  have "status s m \<noteq> M_STATUS_DONE" using doing by simp
  then have "m \<notin> B \<union> set ord" using inv unfolding walk_inv_def by blast
  then have "insert m (set ord) \<subseteq> U - B" and "m \<notin> set ord"
    using sub m inv by (auto simp: walk_inv_def)
  moreover have "finite (U - B)" using ready by (simp add: walk_ready_def closed_nodes_def)
  ultimately have "card (insert m (set ord)) \<le> card (U - B)" by (intro card_mono)
  moreover have "card (insert m (set ord)) = Suc (length ord)"
    using \<open>m \<notin> set ord\<close> inv by (simp add: walk_inv_def distinct_card)
  ultimately show ?thesis using ready inv by (simp add: walk_ready_def walk_inv_def)
qed

lemma traverse_progress_ok:
  assumes ready: "walk_ready E B U" and acyc: "acyclic (inner_edges E U)"
  shows "progress_ok E B U f"
proof (induction f)
  case 0
  have "status s m = M_STATUS_DONE"
    if "m \<in> U" and "card (unvisited U s) \<le> 0"
      and "\<forall>x. status s x = M_STATUS_DOING \<longrightarrow> (x, m) \<in> (inner_edges E U)\<^sup>+" for m and s :: tstate
  proof -
    have "finite U" using ready by (simp add: walk_ready_def closed_nodes_def)
    then have "status s m \<noteq> M_STATUS_NONE" using that(1,2) by (auto simp: unvisited_def)
    moreover have "status s m \<noteq> M_STATUS_DOING" using that(3) acyc by (auto simp: acyclic_def)
    ultimately show ?thesis by (cases "status s m") simp_all
  qed
  then show ?case unfolding progress_ok_def by (subst traverse_dependency.simps) auto
next
  case (Suc f)
  show ?case
    unfolding progress_ok_def
  proof (intro allI impI)
    fix m s ord
    assume m: "m \<in> U" and inv: "walk_inv E B s ord" and sub: "set ord \<subseteq> U"
      and card: "card (unvisited U s) \<le> Suc f"
      and doing: "\<forall>x. status s x = M_STATUS_DOING \<longrightarrow> (x, m) \<in> (inner_edges E U)\<^sup>+"
    let ?s = "s\<lparr>status := (status s)(m := M_STATUS_DOING)\<rparr>"
    let ?ps = "dependencies (mods (graph E) m)"
    have cl: "closed_nodes E U" using ready by (simp add: walk_ready_def)
    show "\<exists>s'. traverse_dependency (Suc f) E m s = Some (Inr s') \<and> status s' m = M_STATUS_DONE"
    proof (cases "status s m = M_STATUS_NONE")
      case False
      moreover have "status s m \<noteq> M_STATUS_DOING" using doing acyc by (auto simp: acyclic_def)
      ultimately have "status s m = M_STATUS_DONE" by (cases "status s m") simp_all
      then show ?thesis by (subst traverse_dependency.simps) simp
    next
      case True
      have inv1: "walk_inv E B ?s ord" using inv True by (rule walk_inv_doing)
      have card1: "card (unvisited U ?s) \<le> f"
        using cl by (intro unvisited_doing [OF _ m True card]) (simp add: closed_nodes_def)
      have doing1: "\<forall>x. status ?s x = M_STATUS_DOING \<longrightarrow> (x, m) \<in> (inner_edges E U)\<^sup>*"
        using doing by (auto intro: trancl_into_rtrancl)
      obtain s2 h dm where run: "traverse_deps f E m ?ps 0 None ?s = Some (Inr (Finished s2 h dm))"
        using progress_loop [OF Suc.IH ready m subset_refl inv1 sub card1 doing1] by blast
      have v: "visits E B m ?s ord s2" and h: "h = length ?ps"
        using loop_ok [OF call_ok_all subset_refl inv1 run] by simp_all
      obtain ord2 where inv2: "walk_inv E B s2 ord2" "set ord2 \<subseteq> U"
        using visits_within [OF v sub cl m] by blast
      have room: "length (profile_mods s2) \<noteq> num_modules (graph E)"
        using profile_room [OF ready inv2 m] visits_doing(2) [OF True inv v] by simp
      have "h = num_dependencies (mods (graph E) m)" using ready m h by (simp add: walk_ready_def)
      then show ?thesis
        using run room True by (subst traverse_dependency.simps) (simp add: Let_def sort_func_def)
    qed
  qed
qed


section \<open>The remaining operations around the walk\<close>

definition reset_modules_status :: "nat list \<Rightarrow> tstate \<Rightarrow> tstate" where
  "reset_modules_status ms s =
     s\<lparr>status := fold (\<lambda>m st. st(m := M_STATUS_NONE)) ms (status s)\<rparr>"

text \<open>
  A fixup entry of a profile: its \<^verbatim>\<open>select\<close> string and its \<^verbatim>\<open>candidates\<close> array, each absent when the
  key is.  The loop of \<open>setup_white_black_list\<close> stops at the first incomplete entry.
\<close>

record fixup_entry =
  fx_select :: "string option"
  fx_candidates :: "string list option"

fun setup_white_black_list ::
  "fixup_entry list \<Rightarrow> string list \<times> string list \<Rightarrow> string list \<times> string list" where
  "setup_white_black_list [] wb = wb"
| "setup_white_black_list (fx # fxs) (wl, bl) =
     (case fx_select fx of
        None \<Rightarrow> (wl, bl)
      | Some sel \<Rightarrow>
         (if sel = [] then (wl, bl)
          else case fx_candidates fx of
            None \<Rightarrow> (wl @ [sel], bl)
          | Some cs \<Rightarrow>
              setup_white_black_list fxs
                (wl @ [sel], bl @ filter (\<lambda>n. \<not> strncmp_eq sel n (length sel)) cs)))"

definition walk_start :: "bool \<Rightarrow> tstate" where
  "walk_start need =
     \<lparr>status = (\<lambda>x. if x = booter then M_STATUS_DONE else M_STATUS_NONE), profile_mods = [],
      need_handle_candidates = need, json_deps = []\<rparr>"

lemma walk_start_inv: "walk_inv E {booter} (walk_start need) []"
  by (auto simp: walk_inv_def walk_start_def topo_def)

section \<open>Order and reachability\<close>

lemma topo_closed:
  assumes "topo E B ord" and "x \<in> set ord" and "(x, y) \<in> edges E"
  shows "y \<in> B \<union> set ord"
proof -
  obtain i where "i < length ord" and "ord ! i = x" using assms(2) by (auto simp: in_set_conv_nth)
  with assms(1,3) have "y \<in> B \<union> set (take i ord)" by (auto simp: topo_def edges_def)
  then show ?thesis using set_take_subset [of i ord] by auto
qed

lemma topo_reach:
  assumes "topo E B ord" and "\<And>x y. x \<in> B \<Longrightarrow> (x, y) \<in> edges E \<Longrightarrow> y \<in> B" and "m \<in> B \<union> set ord"
  shows "(edges E)\<^sup>* `` {m} \<subseteq> B \<union> set ord"
proof
  fix y assume "y \<in> (edges E)\<^sup>* `` {m}"
  then have "(m, y) \<in> (edges E)\<^sup>*" by simp
  then show "y \<in> B \<union> set ord"
  proof (induction rule: rtrancl_induct)
    case base
    then show ?case by (rule assms(3))
  next
    case (step y z)
    then show ?case using assms(2) topo_closed [OF assms(1)] by blast
  qed
qed

definition pos :: "nat list \<Rightarrow> nat \<Rightarrow> nat" where
  "pos ord x = length (takeWhile (\<lambda>y. y \<noteq> x) ord)"

lemma pos_nth: "distinct ord \<Longrightarrow> i < length ord \<Longrightarrow> pos ord (ord ! i) = i"
  unfolding pos_def
proof (induction ord arbitrary: i)
  case Nil
  then show ?case by simp
next
  case (Cons a ord)
  then show ?case by (cases i) auto
qed

definition depth :: "nat list \<Rightarrow> nat \<Rightarrow> nat" where
  "depth ord x = (if x = booter then 0 else Suc (pos ord x))"

lemma topo_descends:
  assumes topo: "topo E {booter} ord" and dist: "distinct ord" and nb: "booter \<notin> set ord"
    and e: "(x, y) \<in> edges E" and x: "x \<in> set ord"
  shows "depth ord y < depth ord x"
proof (cases "y = booter")
  case True
  then show ?thesis using x nb by (auto simp: depth_def)
next
  case False
  obtain i where i: "i < length ord" "ord ! i = x" using x by (auto simp: in_set_conv_nth)
  with topo e have "y \<in> {booter} \<union> set (take i ord)" by (auto simp: topo_def edges_def)
  then obtain j where "j < i" "ord ! j = y" using False i(1) by (auto simp: in_set_conv_nth)
  then have "pos ord y < pos ord x" using pos_nth [OF dist] i by auto
  then show ?thesis using False x nb by (auto simp: depth_def)
qed

lemma booter_sink: "dependencies (mods (graph E) booter) = [] \<Longrightarrow> (booter, y) \<notin> edges E"
  by (auto simp: edges_def)

lemma topo_acyclic:
  assumes "topo E {booter} ord" and "distinct ord" and "booter \<notin> set ord"
    and sink: "dependencies (mods (graph E) booter) = []"
  shows "acyclic (inner_edges E ({booter} \<union> set ord))"
proof -
  have "(inner_edges E ({booter} \<union> set ord))\<inverse> \<subseteq> measure (depth ord)"
  proof
    fix e assume "e \<in> (inner_edges E ({booter} \<union> set ord))\<inverse>"
    then obtain x y where e: "e = (y, x)" and xy: "(x, y) \<in> edges E" "x \<in> {booter} \<union> set ord"
      by (auto simp: inner_edges_def)
    then have "x \<in> set ord" using booter_sink [OF sink] by auto
    then show "e \<in> measure (depth ord)" using topo_descends [OF assms(1-3) xy(1)] e by simp
  qed
  then have "wf ((inner_edges E ({booter} \<union> set ord))\<inverse>)" by (rule wf_subset [OF wf_measure])
  then show ?thesis using wf_acyclic acyclic_converse by blast
qed

lemma booter_reach:
  assumes "topo E {booter} ord" and "m \<in> {booter} \<union> set ord"
    and "dependencies (mods (graph E) booter) = []"
  shows "(edges E)\<^sup>* `` {m} \<subseteq> {booter} \<union> set ord"
  using assms(1) _ assms(2) by (rule topo_reach) (use booter_sink [OF assms(3)] in auto)

lemma reach_closed:
  assumes "closed_nodes E U" and "m \<in> U"
  shows "closed_nodes E ((edges E)\<^sup>* `` {m})"
  unfolding closed_nodes_def
proof (intro conjI ballI impI)
  show "finite ((edges E)\<^sup>* `` {m})"
    using closed_reach [OF assms] assms(1) finite_subset by (auto simp: closed_nodes_def)
  fix x p assume "x \<in> (edges E)\<^sup>* `` {m}" and "p \<in> set (dependencies (mods (graph E) x))" and "\<not> skipped E p"
  then show "dep_mod E p \<in> (edges E)\<^sup>* `` {m}" using edgesI [of p E x] by (auto intro: rtrancl_into_rtrancl)
qed

lemma reach_ready:
  assumes ready: "walk_ready E B U" and m: "m \<in> U"
  shows "walk_ready E B ((edges E)\<^sup>* `` {m})"
proof -
  have cl: "closed_nodes E U" using ready by (simp add: walk_ready_def)
  have V: "(edges E)\<^sup>* `` {m} \<subseteq> U" using cl m by (rule closed_reach)
  then have "card ((edges E)\<^sup>* `` {m} - B) \<le> card (U - B)"
    using cl by (intro card_mono) (auto simp: closed_nodes_def)
  then show ?thesis using reach_closed [OF cl m] ready V by (auto simp: walk_ready_def)
qed

section \<open>Properties\<close>

text \<open>
  When the walk from a top component ends with that component done, the profile it wrote is a
  topological order of what the component needs: the modules reachable from it along dependencies
  that the blacklist does not remove, the booter excepted, each exactly once and after everything it
  depends on.
\<close>

definition profile_order :: "tenv \<Rightarrow> nat \<Rightarrow> nat list \<Rightarrow> bool" where
  "profile_order E m ord \<longleftrightarrow>
     distinct ord \<and> topo E {booter} ord \<and> set ord = (edges E)\<^sup>* `` {m} - {booter}"

lemma traverse_sorts:
  assumes "dependencies (mods (graph E) booter) = []"
    and "traverse_dependency f E m (walk_start need) = Some (Inr s')"
    and "status s' m = M_STATUS_DONE"
  obtains ord where "profile_mods s' = map (\<lambda>x. offset_in_file (mods (graph E) x)) ord"
    and "profile_order E m ord" and "status s' booter = M_STATUS_DONE"
    and "\<And>x. x \<notin> (edges E)\<^sup>* `` {m} \<Longrightarrow> x \<noteq> booter \<Longrightarrow> status s' x = M_STATUS_NONE"
proof -
  obtain ord where inv: "walk_inv E {booter} s' ord" and sub: "set ord \<subseteq> (edges E)\<^sup>* `` {m}"
    using traverse_visits(1) [OF walk_start_inv assms(2)] by (auto simp: visits_def)
  have topo: "topo E {booter} ord" and mem: "m \<in> {booter} \<union> set ord"
    and dn: "\<And>x. status s' x = M_STATUS_DONE \<longleftrightarrow> x \<in> {booter} \<union> set ord"
    using inv assms(3) by (auto simp: walk_inv_def)
  then have "(edges E)\<^sup>* `` {m} \<subseteq> {booter} \<union> set ord"
    using booter_reach assms(1) by blast
  then have po: "profile_order E m ord" using sub inv topo by (auto simp: profile_order_def walk_inv_def)
  have doing: "status s' x \<noteq> M_STATUS_DOING" for x
    using traverse_visits(2) [OF walk_start_inv assms(2,3)]
    by (auto simp: no_new_doing_def walk_start_def split: if_splits)
  show ?thesis
  proof
    show "status s' x = M_STATUS_NONE" if "x \<notin> (edges E)\<^sup>* `` {m}" and "x \<noteq> booter" for x
      using that sub dn [of x] doing [of x] by (cases "status s' x") auto
    show "profile_mods s' = map (\<lambda>x. offset_in_file (mods (graph E) x)) ord"
      using inv by (simp add: walk_inv_def)
  qed (use po dn in simp_all)
qed

text \<open>
  (C4) The walk always returns, cyclic graphs included: recursion depth one per module is enough.
\<close>

theorem traverse_returns:
  assumes "closed_nodes E U" and "m \<in> U"
  shows "\<exists>r. traverse_dependency (card U) E m (walk_start need) = Some r"
proof -
  have "card (unvisited U (walk_start need)) \<le> card U"
    using assms(1) by (intro card_mono) (auto simp: closed_nodes_def unvisited_def)
  then show ?thesis
    using traverse_fuel_ok [OF assms(1), of "{booter}" "card U"] assms(2) walk_start_inv
    unfolding fuel_ok_def by blast
qed

text \<open>
  (C3) On a graph with correct edge counts (and, when a profile is checked, a profile that lists
  every edge), the walk ends with the top component done exactly when no cycle is reachable from it:
  cyclic chains are detected, and nothing else makes the tool give up.
\<close>

theorem traverse_done_iff_acyclic:
  assumes ready: "walk_ready E {booter} U" and m: "m \<in> U"
    and booter: "dependencies (mods (graph E) booter) = []"
  shows "(\<exists>s'. traverse_dependency (card U) E m (walk_start need) = Some (Inr s') \<and>
            status s' m = M_STATUS_DONE) \<longleftrightarrow>
         acyclic (inner_edges E ((edges E)\<^sup>* `` {m}))"
    (is "?done \<longleftrightarrow> acyclic ?R")
proof
  assume ?done
  then obtain s' where run: "traverse_dependency (card U) E m (walk_start need) = Some (Inr s')"
    and st: "status s' m = M_STATUS_DONE" by blast
  obtain ord where inv: "walk_inv E {booter} s' ord"
    using traverse_visits(1) [OF walk_start_inv run] by (auto simp: visits_def)
  have topo: "topo E {booter} ord" and mb: "m \<in> {booter} \<union> set ord"
    using inv st by (auto simp: walk_inv_def)
  have "?R \<subseteq> inner_edges E ({booter} \<union> set ord)"
    using booter_reach [OF topo mb booter] by (auto simp: inner_edges_def)
  moreover have "acyclic (inner_edges E ({booter} \<union> set ord))"
    using topo_acyclic [OF topo _ _ booter] inv by (simp add: walk_inv_def)
  ultimately show "acyclic ?R" by (rule acyclic_subset [rotated])
next
  assume acyc: "acyclic ?R"
  let ?V = "(edges E)\<^sup>* `` {m}"
  have "?V \<subseteq> U" and "finite U"
    using closed_reach [OF _ m] ready by (auto simp: walk_ready_def closed_nodes_def)
  then have "card (unvisited ?V (walk_start need)) \<le> card U"
    by (intro card_mono) (auto simp: unvisited_def)
  then show ?done
    by (intro traverse_progress_ok [OF reach_ready [OF ready m] acyc, unfolded progress_ok_def, rule_format,
          OF _ walk_start_inv])
      (simp_all add: walk_start_def split: if_splits)
qed

definition mod_at :: "string \<Rightarrow> nat list \<Rightarrow> u64 \<Rightarrow> module" where
  "mod_at name ds off =
     \<lparr>m_name = name, m_status = M_STATUS_NONE, undef_syms = [], dependencies = ds,
      num_dependencies = length ds, offset_in_file = off\<rparr>"

text \<open>A top component that needs \<open>b.ko\<close> and the booter, and \<open>b.ko\<close> that needs the booter.\<close>

definition env_ex :: tenv where
  "env_ex =
     \<lparr>graph = (new_tool (\<lambda>m. if m = 1 then mod_at ''top_a.ko'' [0, 1] 64
                             else if m = 2 then mod_at ''b.ko'' [2] 512
                             else mod_at ''booter'' [] 0) [1, 2] [])
        \<lparr>deps := (\<lambda>p. \<lparr>d_mod = (if p = 1 then 2 else 0), d_flags = 0, d_next = None\<rparr>)\<rparr>,
      verify = False, prof_deps = (\<lambda>_. None), whitelist = [], blacklist = []\<rparr>"

lemmas env_ex_simps = env_ex_def new_tool_def mod_at_def booter_def dep_mod_def is_candidate_def
  in_list_def sort_func_def strncmp_eq_def

definition env_ex_final :: tstate where
  "env_ex_final =
     \<lparr>status = (\<lambda>x. if x \<le> 2 then M_STATUS_DONE else M_STATUS_NONE),
      profile_mods = [512, 64], need_handle_candidates = False,
      json_deps = [(''b.ko'', Some []), (''top_a.ko'', Some [''b.ko''])]\<rparr>"

lemma env_ex_run: "traverse_dependency 3 env_ex 1 (walk_start False) = Some (Inr env_ex_final)"
proof -
  have st: "status env_ex_final =
      (status (walk_start False))(1 := M_STATUS_DOING, 2 := M_STATUS_DONE, 1 := M_STATUS_DONE)"
    by (rule ext) (auto simp: env_ex_final_def walk_start_def booter_def)
  have "env_ex_final = \<lparr>status = status env_ex_final,
      profile_mods = [512, 64], need_handle_candidates = False,
      json_deps = [(''b.ko'', Some []), (''top_a.ko'', Some [''b.ko''])]\<rparr>"
    by (simp add: env_ex_final_def)
  then show ?thesis
    unfolding st
    by (simp add: traverse_dependency.simps traverse_deps.simps env_ex_simps walk_start_def Let_def numeral_eq_Suc)
qed

lemma env_ex_booter: "dependencies (mods (graph env_ex) booter) = []"
  by (simp add: env_ex_simps)

lemma env_ex_ready: "walk_ready env_ex {booter} {0, 1, 2}"
  by (simp add: walk_ready_def closed_nodes_def env_ex_simps)

theorem traverse_returns_witness:
  "closed_nodes env_ex {0, 1, 2} \<and>
   (\<exists>r. traverse_dependency (card {0, 1, 2 :: nat}) env_ex 1 (walk_start False) = Some r)"
  using traverse_returns [of env_ex "{0, 1, 2}" 1 False] env_ex_ready by (simp add: walk_ready_def)

theorem traverse_done_iff_acyclic_witness:
  "walk_ready env_ex {booter} {0, 1, 2} \<and> acyclic (inner_edges env_ex ((edges env_ex)\<^sup>* `` {1}))"
proof -
  have card3: "card {0, 1, 2 :: nat} = 3" by simp
  have "status env_ex_final 1 = M_STATUS_DONE" by (simp add: env_ex_final_def)
  then have "\<exists>s'. traverse_dependency (card {0, 1, 2 :: nat}) env_ex 1 (walk_start False) = Some (Inr s') \<and>
      status s' 1 = M_STATUS_DONE"
    unfolding card3 using env_ex_run by blast
  then show ?thesis
    using traverse_done_iff_acyclic [OF env_ex_ready _ env_ex_booter, of 1 False] env_ex_ready by simp
qed

text \<open>
  (C9) The blacklist and the whitelist set up from the fixups of a profile decide every conflict in
  favour of the selected module: when each fixup has a non-empty selection and candidates, the
  whitelist holds exactly the selections, and a candidate is on the blacklist exactly when some
  fixup that lists it selected a module of which it is not an extension.
\<close>

theorem setup_white_black_list_complete:
  assumes "\<forall>fx\<in>set fxs. fx_select fx \<noteq> None \<and> fx_select fx \<noteq> Some [] \<and> fx_candidates fx \<noteq> None"
  shows "setup_white_black_list fxs (wl, bl) =
     (wl @ map (\<lambda>fx. the (fx_select fx)) fxs,
      bl @ concat (map (\<lambda>fx. filter (\<lambda>n. \<not> prefix (the (fx_select fx)) n) (the (fx_candidates fx))) fxs))"
  using assms
proof (induction fxs arbitrary: wl bl)
  case Nil
  then show ?case by simp
next
  case (Cons fx fxs)
  then obtain sel cs where "fx_select fx = Some sel" "sel \<noteq> []" "fx_candidates fx = Some cs" by auto
  with Cons show ?case by (simp add: strncmp_eq_prefix)
qed

theorem setup_white_black_list_complete_witness:
  "setup_white_black_list
     [\<lparr>fx_select = Some ''slub.ko'', fx_candidates = Some [''slub.ko'', ''bootmem.ko'']\<rparr>] ([], []) =
   ([''slub.ko''], [''bootmem.ko''])"
  using setup_white_black_list_complete
    [of "[\<lparr>fx_select = Some ''slub.ko'', fx_candidates = Some [''slub.ko'', ''bootmem.ko'']\<rparr>]" "[]" "[]"]
  by simp

text \<open>Resetting the statuses restores the start state of the walk for the next top component.\<close>

lemma reset_modules_status_restores:
  assumes "status s booter = M_STATUS_DONE" and "booter \<notin> set ms"
    and "\<And>x. x \<noteq> booter \<Longrightarrow> x \<notin> set ms \<Longrightarrow> status s x = M_STATUS_NONE"
  shows "status (reset_modules_status ms s) = status (walk_start need)"
proof -
  have "fold (\<lambda>m st. st(m := M_STATUS_NONE)) ms st x = (if x \<in> set ms then M_STATUS_NONE else st x)" for st x
    by (induction ms arbitrary: st) auto
  then show ?thesis using assms by (auto simp: reset_modules_status_def walk_start_def)
qed

end
