(* ===== verification/Bootrd_Image.thy ===== *)
theory Bootrd_Image
  imports Elf_Scan Dep_Traverse
begin

text \<open>
  The boot image that \<^verbatim>\<open>tools/mk_bootrd/main.c\<close> writes: \<open>check_module\<close>, \<open>read_module\<close>,
  \<open>write_mod_to_bootrd\<close>, \<open>discover_modules\<close>, \<open>append_fixups_to_profile\<close>, \<open>write_profile_to_bootrd\<close>,
  \<open>sort_modules\<close>, \<open>create_bootrd\<close>, \<open>complete_bootrd\<close> and \<open>main\<close>.  The header file \<^verbatim>\<open>bootrd.h\<close> is not
  part of the repository, so the byte layouts of the two headers are parameters of the model.
\<close>

section \<open>The host environment\<close>

text \<open>
  \<open>bootrd_header\<close> and \<open>profile_header\<close> have the fields that \<^verbatim>\<open>main.c\<close> assigns; their encoders and sizes
  are parameters, as are the directory listing (in the order of \<^verbatim>\<open>scandir\<close>) and the profiles that
  \<^verbatim>\<open>json_object_from_file\<close> finds.
\<close>

record bootrd_header =
  bh_version :: nat
  bh_total_size :: nat
  bh_mod_offset :: nat
  bh_mod_num :: nat
  bh_profile_offset :: nat
  bh_profile_num :: nat
  bh_current_profile :: nat

record profile_header =
  ph_version :: nat
  ph_total_size :: nat
  ph_mod_num :: nat
  ph_sname :: string

record profile =
  pf_deps :: "string \<Rightarrow> string list option"
  pf_fixups :: "fixup_entry list option"

record host =
  entries :: "(string \<times> u8 list) list"
  profile_file :: "string \<Rightarrow> profile option"
  enc_bootrd_header :: "bootrd_header \<Rightarrow> u8 list"
  sizeof_bootrd_header :: nat
  enc_profile_header :: "profile_header \<Rightarrow> u8 list"
  sizeof_profile_header :: nat
  sizeof_sname :: nat

definition headers_ok :: "host \<Rightarrow> bool" where
  "headers_ok H \<longleftrightarrow>
     (\<forall>h. length (enc_bootrd_header H h) = sizeof_bootrd_header H) \<and>
     (\<forall>h. length (enc_profile_header H h) = sizeof_profile_header H)"

definition BOOTRD_SIZE :: nat where
  "BOOTRD_SIZE = 32 * 1024 * 1024"

definition host_file :: "host \<Rightarrow> string \<Rightarrow> u8 list option" where
  "host_file H name = map_of (entries H) name"

section \<open>Writing files\<close>

text \<open>\<^verbatim>\<open>fwrite\<close> at the position; a gap after the end of the file reads as zero.\<close>

definition fwrite :: "u8 list \<Rightarrow> cfile \<Rightarrow> cfile" where
  "fwrite bs f =
     f\<lparr>f_data := take (f_pos f) (f_data f @ replicate (f_pos f - length (f_data f)) 0)
                 @ bs @ drop (f_pos f + length bs) (f_data f),
       f_pos := f_pos f + length bs\<rparr>"

text \<open>The \<open>w\<close> bytes of a value, least significant first.\<close>

primrec le_bytes :: "nat \<Rightarrow> nat \<Rightarrow> u8 list" where
  "le_bytes 0 n = []"
| "le_bytes (Suc w) n = word_of_nat n # le_bytes w (n div 256)"

section \<open>Modules\<close>

text \<open>\<^verbatim>\<open>strrchr(name, '.')\<close>: the suffix from the last dot.\<close>

fun last_dot :: "string \<Rightarrow> string option" where
  "last_dot [] = None"
| "last_dot (c # cs) =
     (case last_dot cs of Some t \<Rightarrow> Some t | None \<Rightarrow> if c = CHR ''.'' then Some (c # cs) else None)"

definition check_module :: "string \<Rightarrow> bool run" where
  "check_module name =
     (if strncmp_eq name ''test_'' 5 then Inr False
      else case last_dot name of None \<Rightarrow> Inl Crash | Some p \<Rightarrow> Inr (p = ''.ko''))"

definition ROUND_UP :: "u64 \<Rightarrow> u64 \<Rightarrow> u64" where
  "ROUND_UP x n = (x + n - 1) AND NOT (n - 1)"

definition ELFMAG :: "u8 list" where
  "ELFMAG = [0x7f, 0x45, 0x4c, 0x46]"

definition elf64_hdr_set_length :: "u8 list \<Rightarrow> nat \<Rightarrow> u8 list run" where
  "elf64_hdr_set_length data len =
     (if length data < 4 then Inl Crash
      else if take 4 data \<noteq> ELFMAG then Inl Exit
      else if length data < 40 then Inl Crash
      else Inr (take 32 data @ le_bytes 8 len @ drop 40 data))"

definition read_module :: "host \<Rightarrow> string \<Rightarrow> u8 list run" where
  "read_module H name =
     (case host_file H name of
        None \<Rightarrow> Inl Exit
      | Some content \<Rightarrow>
         (let size = unat (ROUND_UP (word_of_nat (length content)) 8)
          in elf64_hdr_set_length (content @ replicate (size - length content) 0) (length content)))"

definition write_mod_to_bootrd :: "host \<Rightarrow> nat \<Rightarrow> tool \<Rightarrow> cfile \<Rightarrow> (tool \<times> cfile) run" where
  "write_mod_to_bootrd H m T fp =
     bind_run (read_module H (m_name (mods T m))) (\<lambda>data.
       if length data = 0 then Inl Exit
       else Inr (T\<lparr>mods := (mods T)(m := (mods T m)\<lparr>offset_in_file := word_of_nat (f_pos fp)\<rparr>)\<rparr>,
                 fwrite data fp))"

text \<open>The \<^verbatim>\<open>while (n--)\<close> loop of \<open>discover_modules\<close> over the names in the order it visits them.\<close>

fun discover_loop ::
  "host \<Rightarrow> string list \<Rightarrow> bool \<Rightarrow> bool \<Rightarrow> tool \<Rightarrow> cfile \<Rightarrow> (bool \<times> bool \<times> tool \<times> cfile) run" where
  "discover_loop H [] hb hm T fp = Inr (hb, hm, T, fp)"
| "discover_loop H (name # names) hb hm T fp =
     bind_run (check_module name) (\<lambda>ok.
       if ok then
         (let m = Suc (num_modules T)
          in bind_run (write_mod_to_bootrd H m
               (T\<lparr>mods := (mods T)(m := new_module name []), modules := modules T @ [m], num_modules := m\<rparr>) fp)
               (\<lambda>(T', fp'). discover_loop H names hb hm T' fp'))
       else if name = ''booter.bin'' then discover_loop H names True hm T fp
       else if name = ''booter.map'' then discover_loop H names hb True T fp
       else discover_loop H names hb hm T fp)"

definition discover_modules :: "host \<Rightarrow> tool \<Rightarrow> cfile \<Rightarrow> (tool \<times> cfile) run" where
  "discover_modules H T fp =
     bind_run (discover_loop H (rev (map fst (entries H))) False False T fp) (\<lambda>(hb, hm, T', fp').
       if \<not> hb then Inl Exit else if \<not> hm then Inl Exit else Inr (T', fp'))"

section \<open>Profiles\<close>

text \<open>A profile file as the tool writes it: its \<^verbatim>\<open>dependencies\<close> and \<^verbatim>\<open>fixups\<close> members.\<close>

record json_profile =
  jp_deps :: "(string \<times> string list option) list"
  jp_fixups :: "string list list option"

definition json_has :: "(string \<times> string list option) list \<Rightarrow> string \<Rightarrow> bool" where
  "json_has js name \<longleftrightarrow> (case map_of (rev js) name of Some (Some _) \<Rightarrow> True | _ \<Rightarrow> False)"

text \<open>The inner loop of \<open>append_fixups_to_profile\<close>; \<open>None\<close> is a cyclic chain.\<close>

partial_function (option) chain_names ::
  "tool \<Rightarrow> (string \<times> string list option) list \<Rightarrow> nat option \<Rightarrow> string list option" where
  "chain_names T js p =
     (case p of
        None \<Rightarrow> Some []
      | Some a \<Rightarrow>
         (if json_has js (m_name (mods T (d_mod (deps T a))))
          then Option.bind (chain_names T js (d_next (deps T a)))
                 (\<lambda>ns. Some (m_name (mods T (d_mod (deps T a))) # ns))
          else Some []))"

fun fixup_lists ::
  "tool \<Rightarrow> (string \<times> string list option) list \<Rightarrow> nat list \<Rightarrow> string list list option" where
  "fixup_lists T js [] = Some []"
| "fixup_lists T js (h # hs) =
     Option.bind (chain_names T js (Some h)) (\<lambda>ns.
       Option.bind (fixup_lists T js hs) (\<lambda>nss. Some (if ns = [] then nss else ns # nss)))"

definition append_fixups_to_profile ::
  "tool \<Rightarrow> (string \<times> string list option) list \<Rightarrow> json_profile option" where
  "append_fixups_to_profile T js =
     (if fixups T = [] then Some \<lparr>jp_deps = js, jp_fixups = None\<rparr>
      else map_option (\<lambda>nss. \<lparr>jp_deps = js, jp_fixups = Some nss\<rparr>) (fixup_lists T js (fixups T)))"

definition write_profile_to_bootrd ::
  "host \<Rightarrow> u64 list \<Rightarrow> bootrd_header \<Rightarrow> cfile \<Rightarrow> string \<Rightarrow> (bootrd_header \<times> cfile) run" where
  "write_profile_to_bootrd H pmods hdr fp name =
     (if \<not> strncmp_eq name ''top_'' 1 then Inl Exit
      else if length name < 4 then Inl Crash
      else
        (let len0 = (case last_dot name of Some e \<Rightarrow> length name - length e | None \<Rightarrow> length name);
             len1 = unat ((word_of_nat len0 :: u64) - 4);
             len = min len1 (sizeof_sname H - 1);
             header = \<lparr>ph_version = 1,
                       ph_total_size = sizeof_profile_header H + 8 * length pmods,
                       ph_mod_num = length pmods,
                       ph_sname = take len (drop 4 name)\<rparr>;
             fp1 = fwrite (enc_profile_header H header) fp;
             fp2 = fwrite (concat (map (\<lambda>o1. le_bytes 8 (unat o1)) pmods)) fp1
         in Inr (hdr\<lparr>bh_profile_num := Suc (bh_profile_num hdr)\<rparr>, fp2)))"

section \<open>The whole tool\<close>

definition profile_env :: "host \<Rightarrow> tool \<Rightarrow> nat \<Rightarrow> tenv" where
  "profile_env H T m =
     (case profile_file H (m_name (mods T m)) of
        None \<Rightarrow> \<lparr>graph = T, verify = False, prof_deps = Map.empty, whitelist = [], blacklist = []\<rparr>
      | Some p \<Rightarrow>
         (let (wl, bl) = (case pf_fixups p of None \<Rightarrow> ([], []) | Some fx \<Rightarrow> setup_white_black_list fx ([], []))
          in \<lparr>graph = T, verify = True, prof_deps = pf_deps p, whitelist = wl, blacklist = bl\<rparr>))"

record sort_state =
  st_walk :: tstate
  st_hdr :: bootrd_header
  st_fp :: cfile
  st_json :: "(string \<times> json_profile) list"

text \<open>The profile pointers of the header, set when a profile is about to be written at \<open>off\<close>.\<close>

definition point_profile :: "string \<Rightarrow> nat \<Rightarrow> bootrd_header \<Rightarrow> bootrd_header" where
  "point_profile name off hdr =
     (let hdr1 = (if bh_profile_offset hdr = 0
                  then hdr\<lparr>bh_profile_offset := off, bh_current_profile := off\<rparr> else hdr)
      in if strncmp_eq name ''top_booter'' (length ''top_booter'')
         then hdr1\<lparr>bh_current_profile := off\<rparr> else hdr1)"

text \<open>
  The body of the last loop of \<open>sort_modules\<close> for one module.  The walk gets one unit of fuel per
  module and one for the booter, which \<open>traverse_returns\<close> shows to be enough.
\<close>

definition sort_top :: "host \<Rightarrow> tool \<Rightarrow> nat \<Rightarrow> sort_state \<Rightarrow> sort_state run option" where
  "sort_top H T m S =
     (let name = m_name (mods T m); E = profile_env H T m
      in if \<not> strncmp_eq name ''top_'' 4 then Some (Inr S)
         else case traverse_dependency (Suc (num_modules T)) E m
                     ((st_walk S)\<lparr>profile_mods := [], json_deps := []\<rparr>) of
           None \<Rightarrow> None
         | Some (Inl e) \<Rightarrow> Some (Inl e)
         | Some (Inr s1) \<Rightarrow>
            (if status s1 m \<noteq> M_STATUS_DONE then Some (Inl Exit)
             else Option.bind
               (if verify E then Some (st_json S)
                else map_option (\<lambda>j. st_json S @ [(name, j)]) (append_fixups_to_profile T (json_deps s1)))
               (\<lambda>js. Some (bind_run
                  (write_profile_to_bootrd H (profile_mods s1)
                     (point_profile name (f_pos (st_fp S)) (st_hdr S)) (st_fp S) name)
                  (\<lambda>(hdr3, fp3). Inr \<lparr>st_walk = reset_modules_status (modules T) s1, st_hdr = hdr3,
                                      st_fp = fp3, st_json = js\<rparr>)))))"

fun sort_tops :: "host \<Rightarrow> tool \<Rightarrow> nat list \<Rightarrow> sort_state \<Rightarrow> sort_state run option" where
  "sort_tops H T [] S = Some (Inr S)"
| "sort_tops H T (m # ms) S =
     (case sort_top H T m S of
        None \<Rightarrow> None
      | Some (Inl e) \<Rightarrow> Some (Inl e)
      | Some (Inr S') \<Rightarrow> sort_tops H T ms S')"

definition empty_tool :: tool where
  "empty_tool = new_tool (\<lambda>_. new_module ''booter'' []) [] []"

definition sort_modules :: "host \<Rightarrow> bootrd_header \<Rightarrow> cfile \<Rightarrow> (tool \<times> sort_state) run option" where
  "sort_modules H hdr fp =
     (case discover_modules H empty_tool fp of
        Inl e \<Rightarrow> Some (Inl e)
      | Inr (T1, fp1) \<Rightarrow>
         (case bind_run (init_symtable (host_file H) T1) (analyse_all (host_file H) (modules T1)) of
            Inl e \<Rightarrow> Some (Inl e)
          | Inr T2 \<Rightarrow>
             Option.bind (build_all (modules T2) T2) (\<lambda>T3.
               map_option (\<lambda>r. bind_run r (\<lambda>S. Inr (T3, S)))
                 (sort_tops H T3 (modules T3)
                    \<lparr>st_walk = walk_start False, st_hdr = hdr\<lparr>bh_mod_num := num_modules T1\<rparr>,
                     st_fp = fp1, st_json = []\<rparr>))))"

definition create_bootrd :: "host \<Rightarrow> bootrd_header \<times> cfile" where
  "create_bootrd H =
     (\<lparr>bh_version = 1, bh_total_size = 0, bh_mod_offset = sizeof_bootrd_header H, bh_mod_num = 0,
       bh_profile_offset = 0, bh_profile_num = 0, bh_current_profile = 0\<rparr>,
      fseek (sizeof_bootrd_header H) \<lparr>f_data = [], f_pos = 0\<rparr>)"

text \<open>The result is the image, or \<open>None\<close> when conflicts made the tool remove it.\<close>

definition complete_bootrd :: "host \<Rightarrow> bool \<Rightarrow> bootrd_header \<Rightarrow> cfile \<Rightarrow> u8 list option run" where
  "complete_bootrd H need hdr fp =
     (if need then Inr None
      else
        (let hdr1 = hdr\<lparr>bh_total_size := f_pos fp\<rparr>;
             fp1 = fseek (length (f_data fp)) fp
         in if BOOTRD_SIZE < f_pos fp1 then Inl Exit
            else
              (let fp2 = fwrite (enc_bootrd_header H hdr1) (fseek 0 fp1);
                   fp3 = fwrite [0] (fseek (BOOTRD_SIZE - 1) fp2)
               in Inr (Some (f_data fp3)))))"

definition mk_bootrd_main :: "host \<Rightarrow> u8 list option run option" where
  "mk_bootrd_main H =
     (let (hdr, fp) = create_bootrd H
      in map_option (\<lambda>r. bind_run r (\<lambda>(T, S).
           complete_bootrd H (need_handle_candidates (st_walk S)) (st_hdr S) (st_fp S)))
         (sort_modules H hdr fp))"

section \<open>Lemmas on bytes and files\<close>

lemma length_le_bytes [simp]: "length (le_bytes w n) = w"
  by (induction w arbitrary: n) simp_all

lemma le_nat_le_bytes: "le_nat (le_bytes w n) = n mod 256 ^ w"
proof (induction w arbitrary: n)
  case 0
  then show ?case by simp
next
  case (Suc w)
  have "unat (word_of_nat n :: u8) = n mod 256" by (simp add: unat_of_nat)
  then show ?case
    by (simp add: Suc mod_mult2_eq)
qed

lemma ROUND_UP_8:
  assumes "n + 7 < 2 ^ 64"
  shows "unat (ROUND_UP (word_of_nat n) 8) = 8 * ((n + 7) div 8)"
proof -
  have m: "(8 :: u64) - 1 = mask 3" by (simp add: mask_eq_exp_minus_1)
  have s: "word_of_nat n + 8 - 1 = (word_of_nat (n + 7) :: u64)" by (simp add: algebra_simps)
  have "unat (word_of_nat (n + 7) :: u64) = n + 7"
    using assms by (simp only: unat_of_nat) simp
  then show ?thesis
    unfolding ROUND_UP_def m s by (simp only: unat_and_not_mask) simp
qed

lemma fwrite_at_end:
  assumes "length (f_data f) \<le> f_pos f"
  shows "f_data (fwrite bs f) = f_data f @ replicate (f_pos f - length (f_data f)) 0 @ bs"
    and "f_pos (fwrite bs f) = f_pos f + length bs"
    and "length (f_data (fwrite bs f)) = f_pos (fwrite bs f)"
  using assms by (simp_all add: fwrite_def)

lemma read_module_image:
  assumes "read_module H name = Inr data"
  obtains content where "host_file H name = Some content" and "40 \<le> length data"
    and "take 4 data = ELFMAG"
    and "length content + 7 < 2 ^ 64 \<Longrightarrow> length data = 8 * ((length content + 7) div 8)"
    and "length content < 2 ^ 64 \<Longrightarrow> field 32 8 data = length content"
    and "data = take 32 (content @ replicate (length data - length content) 0) @ le_bytes 8 (length content)
                @ drop 40 (content @ replicate (length data - length content) 0)"
proof -
  from assms obtain content where c: "host_file H name = Some content"
    by (auto simp: read_module_def split: option.splits)
  define k where "k = unat (ROUND_UP (word_of_nat (length content)) 8) - length content"
  define p where "p = content @ replicate k 0"
  have r: "elf64_hdr_set_length p (length content) = Inr data"
    using assms c by (simp add: read_module_def p_def k_def Let_def)
  then have d: "data = take 32 p @ le_bytes 8 (length content) @ drop 40 p"
    and len: "40 \<le> length p" and mag: "take 4 p = ELFMAG"
    by (auto simp: elf64_hdr_set_length_def split: if_splits)
  have l: "length data = length p" using d len by simp
  have k: "k = length data - length content" using l by (simp add: p_def)
  show ?thesis
  proof
    show "host_file H name = Some content" by (rule c)
    show "40 \<le> length data" using len l by simp
    show "take 4 data = ELFMAG" using d len mag by (simp add: min_def)
    show "length data = 8 * ((length content + 7) div 8)" if "length content + 7 < 2 ^ 64"
      using ROUND_UP_8 [OF that] l by (simp add: p_def k_def)
    show "field 32 8 data = length content" if "length content < 2 ^ 64"
      using that len le_nat_le_bytes [of 8 "length content"] by (simp add: d field_def min_def)
    show "data = take 32 (content @ replicate (length data - length content) 0) @ le_bytes 8 (length content)
                @ drop 40 (content @ replicate (length data - length content) 0)"
      using d k by (simp only: p_def)
  qed
qed

section \<open>Layout of the modules\<close>

definition files_ok :: "host \<Rightarrow> bool" where
  "files_ok H \<longleftrightarrow> (\<forall>c\<in>snd ` set (entries H). length c < 2 ^ 63)"

abbreviation mod_off :: "tool \<Rightarrow> nat \<Rightarrow> nat" where
  "mod_off T m \<equiv> unat (offset_in_file (mods T m))"

text \<open>Module \<open>m\<close> lies in the image \<open>img\<close> at its offset, below \<open>bound\<close>.\<close>

definition placed :: "host \<Rightarrow> tool \<Rightarrow> u8 list \<Rightarrow> nat \<Rightarrow> nat \<Rightarrow> bool" where
  "placed H T img bound m \<longleftrightarrow>
     (case read_module H (m_name (mods T m)) of
        Inl _ \<Rightarrow> False
      | Inr data \<Rightarrow> 8 dvd mod_off T m \<and> mod_off T m + length data \<le> bound \<and> bound \<le> length img \<and>
          take (length data) (drop (mod_off T m) img) = data)"

definition layout :: "host \<Rightarrow> tool \<Rightarrow> cfile \<Rightarrow> bool" where
  "layout H T fp \<longleftrightarrow>
     length (f_data fp) \<le> f_pos fp \<and> 8 dvd f_pos fp \<and> modules T = [1..<Suc (num_modules T)] \<and>
     (\<forall>m\<in>set (modules T). placed H T (f_data fp) (length (f_data fp)) m) \<and>
     (\<forall>m\<in>set (modules T). \<forall>m'\<in>set (modules T). m < m' \<longrightarrow> placed H T (f_data fp) (mod_off T m') m)"

lemma placed_append:
  "placed H T img bound m \<Longrightarrow> mods T' m = mods T m \<Longrightarrow> placed H T' (img @ ext) bound m"
  by (auto simp: placed_def split: sum.splits)

lemma placed_bound:
  "placed H T img bound m \<Longrightarrow> bound \<le> bound' \<Longrightarrow> bound' \<le> length img \<Longrightarrow> placed H T img bound' m"
  by (auto simp: placed_def split: sum.splits)

lemma read_module_aligned:
  assumes "files_ok H" and "read_module H name = Inr data"
  shows "8 dvd length data"
proof -
  obtain content where c: "host_file H name = Some content"
    and l: "length content + 7 < 2 ^ 64 \<Longrightarrow> length data = 8 * ((length content + 7) div 8)"
    by (rule read_module_image [OF assms(2)]) (rule that)
  from c have "content \<in> snd ` set (entries H)"
    by (auto simp: host_file_def dest!: map_of_SomeD intro: rev_image_eqI)
  with assms(1) have "length content < 2 ^ 63" unfolding files_ok_def by blast
  then show ?thesis using l by simp
qed

lemma write_mod_layout:
  fixes name H T fp
  defines "m \<equiv> Suc (num_modules T)"
  defines "T1 \<equiv> T\<lparr>mods := (mods T)(m := new_module name []), modules := modules T @ [m], num_modules := m\<rparr>"
  assumes fok: "files_ok H" and lay: "layout H T fp" and small: "f_pos fp < 2 ^ 64"
    and run: "write_mod_to_bootrd H m T1 fp = Inr (T', fp')"
  shows "layout H T' fp'" and "f_pos fp \<le> f_pos fp'"
proof -
  from run obtain data where rd: "read_module H name = Inr data"
    and T': "T' = T1\<lparr>mods := (mods T1)(m := (mods T1 m)\<lparr>offset_in_file := word_of_nat (f_pos fp)\<rparr>)\<rparr>"
    and fp': "fp' = fwrite data fp"
    by (auto simp: write_mod_to_bootrd_def T1_def new_module_def run_simps split: if_splits)
  have le: "length (f_data fp) \<le> f_pos fp" and ms: "modules T = [1..<m]"
    using lay by (simp_all add: layout_def m_def)
  define gap where "gap = replicate (f_pos fp - length (f_data fp)) (0 :: u8)"
  have img: "f_data fp' = f_data fp @ gap @ data" and pos: "f_pos fp' = f_pos fp + length data"
    and len: "length (f_data fp') = f_pos fp'"
    unfolding fp' gap_def by (rule fwrite_at_end [OF le])+
  have gap: "length (f_data fp @ gap) = f_pos fp" using le by (simp add: gap_def)
  have off: "mod_off T' m = f_pos fp"
    using small by (simp add: T' T1_def new_module_def unat_of_nat)
  have old: "mods T' k = mods T k" if "k \<noteq> m" for k using that by (simp add: T' T1_def)
  have nm: "m_name (mods T' m) = name" by (simp add: T' T1_def new_module_def)
  have "take (length data) (drop (f_pos fp) (f_data fp')) = data"
    using gap by (simp add: img)
  then have new: "placed H T' (f_data fp') (length (f_data fp')) m"
    using lay rd nm off pos len by (simp add: placed_def layout_def)
  have oldp: "placed H T' (f_data fp') b k" if "placed H T (f_data fp) b k" and "k \<in> set (modules T)" for b k
    using placed_append [OF that(1), of T' "gap @ data"] old [of k] that(2) ms img by simp
  have mods': "modules T' = modules T @ [m]" "num_modules T' = m" by (simp_all add: T' T1_def)
  have a: "placed H T' (f_data fp') (length (f_data fp')) k" if "k \<in> set (modules T')" for k
  proof (cases "k = m")
    case False
    then have k: "k \<in> set (modules T)" using that mods' by simp
    then have "placed H T (f_data fp) (length (f_data fp)) k" using lay by (simp add: layout_def)
    from placed_bound [OF oldp [OF this k]] show ?thesis using le pos len by simp
  qed (use new in simp)
  have b: "placed H T' (f_data fp') (mod_off T' k') k"
    if kk: "k \<in> set (modules T')" "k' \<in> set (modules T')" "k < k'" for k k'
  proof -
    have k: "k \<in> set (modules T)" "k \<noteq> m" using kk mods' ms by auto
    show ?thesis
    proof (cases "k' = m")
      case True
      have "placed H T (f_data fp) (length (f_data fp)) k" using lay k by (simp add: layout_def)
      from placed_bound [OF oldp [OF this k(1)]] show ?thesis using le pos len True off by simp
    next
      case False
      then have "placed H T (f_data fp) (mod_off T k') k" using lay k kk mods' by (simp add: layout_def)
      then show ?thesis using oldp k old [OF False] by simp
    qed
  qed
  have c: "modules T' = [1..<Suc (num_modules T')]"
    unfolding mods' ms by (simp add: m_def)
  have d: "length (f_data fp') \<le> f_pos fp'" "8 dvd f_pos fp'"
    using len pos lay read_module_aligned [OF fok rd] by (simp_all add: layout_def)
  show "layout H T' fp'"
    unfolding layout_def using a b by (intro conjI ballI impI c d)
  show "f_pos fp \<le> f_pos fp'" using pos by simp
qed

lemma discover_loop_pos:
  "discover_loop H names hb hm T fp = Inr (hb', hm', T', fp') \<Longrightarrow> f_pos fp \<le> f_pos fp'"
proof (induction names arbitrary: hb hm T fp)
  case Nil
  then show ?case by simp
next
  case (Cons name names)
  then show ?case
    by (auto simp: Let_def run_simps write_mod_to_bootrd_def fwrite_def split: if_splits dest!: Cons.IH)
qed

lemma discover_loop_layout:
  assumes "files_ok H"
  shows "discover_loop H names hb hm T fp = Inr (hb', hm', T', fp') \<Longrightarrow> f_pos fp' < 2 ^ 64 \<Longrightarrow>
    layout H T fp \<Longrightarrow> layout H T' fp'"
proof (induction names arbitrary: hb hm T fp)
  case Nil
  then show ?case by simp
next
  case (Cons name names)
  from Cons.prems(1) obtain ok where ok: "check_module name = Inr ok" by (auto simp: run_simps)
  show ?case
  proof (cases ok)
    case False
    then show ?thesis using Cons.prems ok Cons.IH by (auto split: if_splits)
  next
    case True
    let ?m = "Suc (num_modules T)"
    let ?T = "T\<lparr>mods := (mods T)(?m := new_module name []), modules := modules T @ [?m], num_modules := ?m\<rparr>"
    from Cons.prems(1) True ok obtain T1 fp1 where
      w: "write_mod_to_bootrd H ?m ?T fp = Inr (T1, fp1)"
      and rest: "discover_loop H names hb hm T1 fp1 = Inr (hb', hm', T', fp')"
      by (auto simp: run_simps Let_def)
    have "f_pos fp1 \<le> f_pos fp'" using rest by (rule discover_loop_pos)
    moreover have "f_pos fp \<le> f_pos fp1"
      using w by (auto simp: write_mod_to_bootrd_def run_simps fwrite_def split: if_splits)
    ultimately have "f_pos fp < 2 ^ 64" using Cons.prems(2) by simp
    then have "layout H T1 fp1" using write_mod_layout(1) [OF assms Cons.prems(3) _ w] by simp
    then show ?thesis using Cons.IH [OF rest Cons.prems(2)] by simp
  qed
qed


section \<open>The profiles in the image\<close>

text \<open>The bytes of the profile of top component \<open>m\<close> that lists the modules \<open>ord\<close>.\<close>

definition sname_of :: "host \<Rightarrow> string \<Rightarrow> string" where
  "sname_of H name =
     (let stem = (case last_dot name of Some e \<Rightarrow> take (length name - length e) name | None \<Rightarrow> name)
      in take (sizeof_sname H - 1) (drop 4 stem))"

definition profile_block :: "host \<Rightarrow> tool \<Rightarrow> nat \<Rightarrow> nat list \<Rightarrow> u8 list" where
  "profile_block H T m ord =
     enc_profile_header H
       \<lparr>ph_version = 1, ph_total_size = sizeof_profile_header H + 8 * length ord,
        ph_mod_num = length ord, ph_sname = sname_of H (m_name (mods T m))\<rparr>
     @ concat (map (\<lambda>x. le_bytes 8 (mod_off T x)) ord)"

lemma last_dot_suffix: "last_dot name = Some e \<Longrightarrow> \<exists>p. name = p @ e \<and> e \<noteq> [] \<and> hd e = CHR ''.''"
proof (induction name arbitrary: e)
  case Nil
  then show ?case by simp
next
  case (Cons c cs)
  then show ?case by (auto split: option.splits if_splits)
qed

lemma top_name_stem:
  assumes "strncmp_eq name ''top_'' 4"
  shows "4 \<le> length name" and "strncmp_eq name ''top_'' 1"
    and "last_dot name = Some e \<Longrightarrow> 4 \<le> length name - length e"
proof -
  have t: "take 4 name = ''top_''" using assms by (simp add: strncmp_eq_def)
  then have "length (take 4 name) = 4" by simp
  then show len: "4 \<le> length name" by simp
  have "take 1 (take 4 name) = ''t''" unfolding t by simp
  then show "strncmp_eq name ''top_'' 1" by (simp add: strncmp_eq_def)
  show "4 \<le> length name - length e" if e: "last_dot name = Some e"
  proof (rule ccontr)
    obtain p where p: "name = p @ e" "e \<noteq> []" "hd e = CHR ''.''" using last_dot_suffix [OF e] by blast
    assume "\<not> 4 \<le> length name - length e"
    then have "length p < 4" using p by simp
    then have "take 4 name ! length p = CHR ''.''" using p by (simp add: nth_append hd_conv_nth)
    moreover have "length p = 0 \<or> length p = 1 \<or> length p = 2 \<or> length p = 3" using \<open>length p < 4\<close> by arith
    ultimately show False unfolding t by auto
  qed
qed

lemma write_profile_appends:
  assumes "strncmp_eq (m_name (mods T m)) ''top_'' 4" and "length (m_name (mods T m)) < 2 ^ 64"
    and "length (f_data fp) = f_pos fp"
  shows "write_profile_to_bootrd H (map (\<lambda>x. offset_in_file (mods T x)) ord) hdr fp (m_name (mods T m)) =
     Inr (hdr\<lparr>bh_profile_num := Suc (bh_profile_num hdr)\<rparr>,
          \<lparr>f_data = f_data fp @ profile_block H T m ord,
           f_pos = length (f_data fp @ profile_block H T m ord)\<rparr>)"
proof -
  let ?name = "m_name (mods T m)"
  let ?l = "case last_dot ?name of Some e \<Rightarrow> length ?name - length e | None \<Rightarrow> length ?name"
  have l4: "4 \<le> ?l" using top_name_stem [OF assms(1)] by (simp split: option.splits)
  have lm: "?l \<le> length ?name" by (simp split: option.splits)
  have "unat ((word_of_nat ?l :: u64) - 4) = ?l - 4"
    using l4 lm assms(2) by (subst unat_sub) (simp_all add: word_le_nat_alt unat_of_nat)
  moreover have "take (min (?l - 4) (sizeof_sname H - 1)) (drop 4 ?name) = sname_of H ?name"
    by (auto simp: sname_of_def drop_take min.commute min_def split: option.splits)
  ultimately show ?thesis
    using top_name_stem(1,2) [OF assms(1)] assms(3)
    by (simp add: write_profile_to_bootrd_def Let_def fwrite_def profile_block_def comp_def)
qed

text \<open>
  Between two top components the walk is in its start state and the file position is at the end.
\<close>

definition tops_inv :: "sort_state \<Rightarrow> bool" where
  "tops_inv S \<longleftrightarrow> status (st_walk S) = status (walk_start False) \<and> length (f_data (st_fp S)) = f_pos (st_fp S)"

definition graph_ready :: "tool \<Rightarrow> bool" where
  "graph_ready T \<longleftrightarrow>
     dependencies (mods T booter) = [] \<and> booter \<notin> set (modules T) \<and>
     (\<forall>m\<in>set (modules T). length (m_name (mods T m)) < 2 ^ 64 \<and> targets T m \<subseteq> insert booter (set (modules T)))"

lemma profile_env_graph [simp]: "graph (profile_env H T m) = T"
  by (auto simp: profile_env_def Let_def split: option.splits prod.splits)

lemma reach_listed:
  assumes ready: "graph_ready T" and m: "m \<in> set (modules T)"
    and r: "(m, x) \<in> (edges (profile_env H T k))\<^sup>*"
  shows "x \<in> insert booter (set (modules T))"
  using r
proof (induction rule: rtrancl_induct)
  case base
  then show ?case using m by simp
next
  case (step y z)
  then have "z \<in> targets T y" by (auto simp: edges_def targets_def dep_mod_def)
  then show ?case using step.IH ready by (auto simp: graph_ready_def targets_def)
qed

lemma sort_top_cases:
  assumes "(if \<not> t then Some (Inr S)
            else case w of None \<Rightarrow> None | Some (Inl e) \<Rightarrow> Some (Inl e)
              | Some (Inr s1) \<Rightarrow> if status s1 m \<noteq> M_STATUS_DONE then Some (Inl Exit) else Option.bind (J s1) (K s1)) = Some (Inr S')"
    and "t"
  obtains s1 js where "w = Some (Inr s1)" and "status s1 m = M_STATUS_DONE" and "K s1 js = Some (Inr S')"
  using assms by (auto split: option.splits sum.splits if_splits simp: bind_eq_Some_conv)

lemma sort_top_profile:
  assumes ready: "graph_ready T" and inv: "tops_inv S" and m: "m \<in> set (modules T)"
    and top: "strncmp_eq (m_name (mods T m)) ''top_'' 4"
    and run: "sort_top H T m S = Some (Inr S')"
  obtains ord where "profile_order (profile_env H T m) m ord" and "tops_inv S'"
    and "f_data (st_fp S') = f_data (st_fp S) @ profile_block H T m ord"
    and "st_hdr S' = (point_profile (m_name (mods T m)) (f_pos (st_fp S)) (st_hdr S))\<lparr>bh_profile_num := Suc (bh_profile_num (st_hdr S))\<rparr>"
proof -
  let ?E = "profile_env H T m"
  have start: "(st_walk S)\<lparr>profile_mods := [], json_deps := []\<rparr> = walk_start (need_handle_candidates (st_walk S))"
    using inv by (simp add: tops_inv_def walk_start_def)
  let ?hdr = "point_profile (m_name (mods T m)) (f_pos (st_fp S)) (st_hdr S)"
  obtain s1 js where
    walk: "traverse_dependency (Suc (num_modules T)) ?E m (walk_start (need_handle_candidates (st_walk S))) = Some (Inr s1)"
    and dn: "status s1 m = M_STATUS_DONE"
    and w: "bind_run (write_profile_to_bootrd H (profile_mods s1) ?hdr (st_fp S) (m_name (mods T m)))
              (\<lambda>(hdr3, fp3). Inr \<lparr>st_walk = reset_modules_status (modules T) s1, st_hdr = hdr3,
                                  st_fp = fp3, st_json = js\<rparr>) = Inr S'"
    by (rule sort_top_cases [OF run [unfolded sort_top_def Let_def start] top])
      (rule that, assumption+, simp only: option.inject)
  obtain ord where pm: "profile_mods s1 = map (\<lambda>x. offset_in_file (mods T x)) ord" and po: "profile_order ?E m ord"
    and st: "status s1 booter = M_STATUS_DONE"
    and un: "\<And>x. x \<notin> (edges ?E)\<^sup>* `` {m} \<Longrightarrow> x \<noteq> booter \<Longrightarrow> status s1 x = M_STATUS_NONE"
    using traverse_sorts [OF _ walk dn] ready unfolding graph_ready_def profile_env_graph by blast
  have "status (reset_modules_status (modules T) s1) = status (walk_start False)"
    using ready by (intro reset_modules_status_restores st un) (auto simp: graph_ready_def dest: reach_listed [OF ready m])
  moreover have "length (m_name (mods T m)) < 2 ^ 64" using ready m by (auto simp: graph_ready_def)
  note wp = write_profile_appends [OF top this, of "st_fp S" H ord ?hdr]
  ultimately show ?thesis
    using w inv that [OF po] unfolding pm by (auto simp: wp tops_inv_def point_profile_def Let_def)
qed

text \<open>What the header points to after the profiles are written.\<close>

definition tops_of :: "tool \<Rightarrow> nat list \<Rightarrow> nat list" where
  "tops_of T ms = filter (\<lambda>m. strncmp_eq (m_name (mods T m)) ''top_'' 4) ms"

definition header_points :: "sort_state \<Rightarrow> sort_state \<Rightarrow> nat list \<Rightarrow> bool" where
  "header_points S S' tops \<longleftrightarrow>
     (let h = st_hdr S; h' = st_hdr S'
      in bh_profile_num h' = bh_profile_num h + length tops \<and>
         bh_profile_offset h' = (if bh_profile_offset h = 0 \<and> tops \<noteq> [] then f_pos (st_fp S) else bh_profile_offset h) \<and>
         bh_current_profile h' \<le> max (bh_current_profile h) (f_pos (st_fp S')) \<and>
         bh_version h' = bh_version h \<and> bh_mod_offset h' = bh_mod_offset h \<and> bh_mod_num h' = bh_mod_num h)"

lemma header_points_Cons:
  assumes h: "st_hdr S1 = (point_profile name (f_pos (st_fp S)) (st_hdr S))\<lparr>bh_profile_num := Suc (bh_profile_num (st_hdr S))\<rparr>"
    and "f_pos (st_fp S) < f_pos (st_fp S1)" "f_pos (st_fp S1) \<le> f_pos (st_fp S')" "0 < f_pos (st_fp S)"
    and "header_points S1 S' tops"
  shows "header_points S S' (t # tops)"
proof -
  have "bh_current_profile (st_hdr S1) \<le> max (bh_current_profile (st_hdr S)) (f_pos (st_fp S))"
    unfolding h by (simp add: point_profile_def Let_def)
  then have "bh_current_profile (st_hdr S') \<le> max (bh_current_profile (st_hdr S)) (f_pos (st_fp S'))"
    using assms(2,3,5) by (auto simp: header_points_def Let_def)
  moreover have "bh_profile_offset (st_hdr S1) = (if bh_profile_offset (st_hdr S) = 0 then f_pos (st_fp S) else bh_profile_offset (st_hdr S))"
    unfolding h by (simp add: point_profile_def Let_def)
  moreover have "bh_profile_num (st_hdr S1) = Suc (bh_profile_num (st_hdr S))" "bh_version (st_hdr S1) = bh_version (st_hdr S)"
    "bh_mod_offset (st_hdr S1) = bh_mod_offset (st_hdr S)" "bh_mod_num (st_hdr S1) = bh_mod_num (st_hdr S)"
    unfolding h by (simp_all add: point_profile_def Let_def)
  ultimately show ?thesis using assms(4,5) by (simp add: header_points_def Let_def)
qed

lemma sort_tops_blocks:
  assumes "graph_ready T"
  shows "set ms \<subseteq> set (modules T) \<Longrightarrow> tops_inv S \<Longrightarrow> sort_tops H T ms S = Some (Inr S') \<Longrightarrow>
    \<exists>ords. list_all2 (\<lambda>m. profile_order (profile_env H T m) m) (tops_of T ms) ords \<and> tops_inv S' \<and>
      f_data (st_fp S') = f_data (st_fp S) @ concat (map2 (profile_block H T) (tops_of T ms) ords) \<and>
      bh_profile_num (st_hdr S') = bh_profile_num (st_hdr S) + length ords \<and>
      (headers_ok H \<and> 0 < sizeof_profile_header H \<and> f_data (st_fp S) \<noteq> [] \<longrightarrow> header_points S S' (tops_of T ms))"
proof (induction ms arbitrary: S)
  case Nil
  then show ?case by (auto simp: tops_of_def header_points_def)
next
  case (Cons m ms)
  from Cons.prems(3) obtain S1 where S1: "sort_top H T m S = Some (Inr S1)" "sort_tops H T ms S1 = Some (Inr S')"
    by (auto split: option.splits sum.splits)
  show ?case
  proof (cases "strncmp_eq (m_name (mods T m)) ''top_'' 4")
    case False
    then have "S1 = S" using S1(1) by (simp add: sort_top_def)
    moreover have "tops_of T (m # ms) = tops_of T ms" using False by (simp add: tops_of_def)
    ultimately show ?thesis using Cons.IH [of S] Cons.prems S1(2) by simp
  next
    case True
    then have tops: "tops_of T (m # ms) = m # tops_of T ms" by (simp add: tops_of_def)
    from Cons.prems(1) have m: "m \<in> set (modules T)" by simp
    obtain ord where ord: "profile_order (profile_env H T m) m ord" and inv: "tops_inv S1"
      and img: "f_data (st_fp S1) = f_data (st_fp S) @ profile_block H T m ord"
      and hdr: "st_hdr S1 = (point_profile (m_name (mods T m)) (f_pos (st_fp S)) (st_hdr S))\<lparr>bh_profile_num := Suc (bh_profile_num (st_hdr S))\<rparr>"
      using sort_top_profile [OF assms Cons.prems(2) m True S1(1)] by blast
    from Cons.IH [OF _ inv S1(2)] Cons.prems(1) obtain ords where
      rest: "list_all2 (\<lambda>m. profile_order (profile_env H T m) m) (tops_of T ms) ords" "tops_inv S'"
      "f_data (st_fp S') = f_data (st_fp S1) @ concat (map2 (profile_block H T) (tops_of T ms) ords)"
      "bh_profile_num (st_hdr S') = bh_profile_num (st_hdr S1) + length ords"
      "headers_ok H \<and> 0 < sizeof_profile_header H \<and> f_data (st_fp S1) \<noteq> [] \<longrightarrow> header_points S1 S' (tops_of T ms)"
      by auto
    have "header_points S S' (m # tops_of T ms)" if ok: "headers_ok H" "0 < sizeof_profile_header H" "f_data (st_fp S) \<noteq> []"
    proof (rule header_points_Cons [OF hdr])
      have "0 < length (profile_block H T m ord)" using ok(1,2) by (simp add: profile_block_def headers_ok_def)
      then show "f_pos (st_fp S) < f_pos (st_fp S1)" using inv Cons.prems(2) img by (simp add: tops_inv_def del: length_greater_0_conv)
      show "f_pos (st_fp S1) \<le> f_pos (st_fp S')" using inv rest(2,3) by (metis le_add1 length_append tops_inv_def)
      show "0 < f_pos (st_fp S)" using Cons.prems(2) ok(3) by (metis length_greater_0_conv tops_inv_def)
      show "header_points S1 S' (tops_of T ms)" using rest(5) ok img by simp
    qed
    then show ?thesis using ord img rest hdr unfolding tops by (intro exI [of _ "ord # ords"]) simp
  qed
qed

text \<open>
  (C2) When \<open>sort_modules\<close> succeeds, what it appends to the image is one profile per top component, in
  the order of the module list.  Each profile lists the offsets of the modules in a topological
  order of what the component needs: the modules reachable from it along dependencies that the
  blacklist does not remove, the booter excepted, each exactly once and after everything it depends
  on.  The header counts the profiles.
\<close>

theorem sort_tops_profiles:
  assumes "graph_ready T" and "set ms \<subseteq> set (modules T)" and "tops_inv S"
    and "sort_tops H T ms S = Some (Inr S')"
  shows "\<exists>ords. list_all2 (\<lambda>m. profile_order (profile_env H T m) m)
                  (filter (\<lambda>m. strncmp_eq (m_name (mods T m)) ''top_'' 4) ms) ords \<and>
           f_data (st_fp S') = f_data (st_fp S) @
             concat (map2 (profile_block H T) (filter (\<lambda>m. strncmp_eq (m_name (mods T m)) ''top_'' 4) ms) ords) \<and>
           bh_profile_num (st_hdr S') = bh_profile_num (st_hdr S) + length ords"
  using sort_tops_blocks [OF assms(1-4)] unfolding tops_of_def by blast

lemma complete_bootrd_eq:
  assumes "headers_ok H" and "f_pos fp = length (f_data fp)"
    and "sizeof_bootrd_header H \<le> length (f_data fp)" and "sizeof_bootrd_header H < BOOTRD_SIZE"
    and "length (f_data fp) < 2 ^ 63"
  shows "complete_bootrd H False hdr fp =
    (if BOOTRD_SIZE < length (f_data fp) then Inl Exit
     else Inr (Some (enc_bootrd_header H (hdr\<lparr>bh_total_size := length (f_data fp)\<rparr>)
            @ drop (sizeof_bootrd_header H) (take (BOOTRD_SIZE - 1) (f_data fp))
            @ replicate (BOOTRD_SIZE - min (BOOTRD_SIZE - 1) (length (f_data fp))) 0)))"
proof -
  define enc where "enc = enc_bootrd_header H (hdr\<lparr>bh_total_size := length (f_data fp)\<rparr>)"
  define B where "B = BOOTRD_SIZE - 1"
  have enc: "length enc = sizeof_bootrd_header H" using assms(1) by (simp add: enc_def headers_ok_def)
  have B: "BOOTRD_SIZE = Suc B" "B < 2 ^ 63" by (simp_all add: B_def BOOTRD_SIZE_def)
  have tail: "replicate (B - length (f_data fp)) 0 @ [0] = replicate (Suc B - min B (length (f_data fp))) (0 :: u8)"
    by (simp add: min_def Suc_diff_le flip: replicate_append_same)
  have "take B (enc @ drop (length enc) (f_data fp) @ replicate (B - length (f_data fp)) 0) @ [0] =
      enc @ drop (length enc) (take B (f_data fp)) @ replicate (Suc B - min B (length (f_data fp))) 0"
    unfolding tail [symmetric] using assms(3,4) enc unfolding B(1) by (simp add: drop_take)
  then show ?thesis
    using assms(2,3,5) enc B(2) unfolding complete_bootrd_def B(1)
    by (simp add: Let_def fseek_def fwrite_def flip: enc_def)
qed

text \<open>
  (C7) Completing the image: an image whose content exceeds 32 MiB is refused; otherwise the file is
  exactly 32 MiB long, starts with the header that records the size of the content, keeps every byte
  between the header and the end of the content (the last byte of the disk excepted), and is zero
  after it.
\<close>

theorem complete_bootrd_image:
  assumes "headers_ok H" and "f_pos fp = length (f_data fp)"
    and "sizeof_bootrd_header H \<le> length (f_data fp)" and "sizeof_bootrd_header H < BOOTRD_SIZE"
    and "length (f_data fp) < 2 ^ 63"
  shows "complete_bootrd H False hdr fp =
    (if BOOTRD_SIZE < length (f_data fp) then Inl Exit
     else Inr (Some (enc_bootrd_header H (hdr\<lparr>bh_total_size := length (f_data fp)\<rparr>)
            @ drop (sizeof_bootrd_header H) (take (BOOTRD_SIZE - 1) (f_data fp))
            @ replicate (BOOTRD_SIZE - min (BOOTRD_SIZE - 1) (length (f_data fp))) 0)))"
  using complete_bootrd_eq [OF assms] .

section \<open>A run of the tool\<close>

definition host_ex :: host where
  "host_ex =
     \<lparr>entries = [(''booter.map'', []), (''a.ko'', ELFMAG @ replicate 41 0), (''test_b.ko'', []), (''booter.bin'', [])],
      profile_file = (\<lambda>_. None),
      enc_bootrd_header = (\<lambda>h. le_bytes 64 (bh_total_size h)), sizeof_bootrd_header = 64,
      enc_profile_header = (\<lambda>h. le_bytes 64 (ph_mod_num h)), sizeof_profile_header = 64, sizeof_sname = 32\<rparr>"

lemma host_ex_read:
  "read_module host_ex ''a.ko'' = Inr (ELFMAG @ replicate 28 0 @ le_bytes 8 45 @ replicate 8 0)"
proof -
  have e: "host_file host_ex ''a.ko'' = Some (ELFMAG @ replicate 41 0)"
    by (simp add: host_file_def host_ex_def)
  have l: "length (ELFMAG @ replicate 41 0) = 45" by (simp add: ELFMAG_def)
  have r: "unat (ROUND_UP (word_of_nat 45) 8) = 48" by (subst ROUND_UP_8) simp_all
  show ?thesis
    unfolding read_module_def e option.case l Let_def r
    by (simp add: elf64_hdr_set_length_def ELFMAG_def flip: replicate_add del: le_bytes.simps)
qed

lemma host_ex_checks:
  "check_module ''a.ko'' = Inr True" "check_module ''booter.map'' = Inr False"
  "check_module ''booter.bin'' = Inr False" "check_module ''test_b.ko'' = Inr False"
  by (simp_all add: check_module_def strncmp_eq_def)

lemma host_ex_discover:
  "\<exists>T fp. discover_modules host_ex empty_tool (snd (create_bootrd host_ex)) = Inr (T, fp) \<and>
     f_pos fp = 112 \<and> modules T = [1] \<and> m_name (mods T 1) = ''a.ko''"
proof -
  have n: "rev (map fst (entries host_ex)) = [''booter.bin'', ''test_b.ko'', ''a.ko'', ''booter.map'']"
    and p: "f_pos (snd (create_bootrd host_ex)) = 64"
    by (simp_all add: host_ex_def create_bootrd_def fseek_def)
  show ?thesis
    unfolding discover_modules_def n
    by (simp add: host_ex_checks Let_def write_mod_to_bootrd_def empty_tool_def new_tool_def new_module_def
        host_ex_read fwrite_def p ELFMAG_def del: le_bytes.simps)
qed


theorem complete_bootrd_image_witness:
  "complete_bootrd host_ex False (fst (create_bootrd host_ex)) \<lparr>f_data = replicate 80 7, f_pos = 80\<rparr> =
     Inr (Some (le_bytes 64 80 @ replicate 16 7 @ replicate (BOOTRD_SIZE - 80) 0))"
proof -
  have B: "80 < BOOTRD_SIZE" by (simp add: BOOTRD_SIZE_def)
  have "headers_ok host_ex" "sizeof_bootrd_header host_ex = 64"
    and e: "enc_bootrd_header host_ex = (\<lambda>h. le_bytes 64 (bh_total_size h))"
    by (simp_all add: headers_ok_def host_ex_def)
  then show ?thesis
    using complete_bootrd_image [of host_ex "\<lparr>f_data = replicate 80 7, f_pos = 80\<rparr>" "fst (create_bootrd host_ex)"] B
    by (simp add: e del: le_bytes.simps)
qed

theorem sort_tops_profiles_witness:
  "\<exists>S'. sort_tops host_ex (graph env_ex) [1, 2]
         \<lparr>st_walk = walk_start False, st_hdr = fst (create_bootrd host_ex),
          st_fp = \<lparr>f_data = [], f_pos = 0\<rparr>, st_json = []\<rparr> = Some (Inr S') \<and> bh_profile_num (st_hdr S') = 1"
proof -
  let ?S = "\<lparr>st_walk = walk_start False, st_hdr = fst (create_bootrd host_ex),
          st_fp = \<lparr>f_data = [], f_pos = 0\<rparr>, st_json = []\<rparr>"
  have env: "profile_env host_ex (graph env_ex) m = env_ex" for m
    by (simp add: profile_env_def host_ex_def env_ex_def)
  have ready: "graph_ready (graph env_ex)"
    by (auto simp: graph_ready_def env_ex_simps targets_def split: if_splits)
  have names: "m_name (mods (graph env_ex) 1) = ''top_a.ko''" "m_name (mods (graph env_ex) 2) = ''b.ko''"
    "num_modules (graph env_ex) = 2" "fixups (graph env_ex) = []" "modules (graph env_ex) = [1, 2]" "\<not> verify env_ex"
    by (simp_all add: env_ex_simps)
  have st: "(walk_start False)\<lparr>profile_mods := [], json_deps := []\<rparr> = walk_start False"
    by (simp add: walk_start_def)
  have "\<exists>S'. sort_tops host_ex (graph env_ex) [1, 2] ?S = Some (Inr S')"
    by (simp add: sort_top_def names env st env_ex_run env_ex_final_def append_fixups_to_profile_def
        strncmp_eq_def write_profile_to_bootrd_def Let_def take_Suc_Cons [of 0, folded One_nat_def] del: One_nat_def)
  then obtain S' where S': "sort_tops host_ex (graph env_ex) [1, 2] ?S = Some (Inr S')" by blast
  have inv: "tops_inv ?S" by (simp add: tops_inv_def)
  have top: "filter (\<lambda>m. strncmp_eq (m_name (mods (graph env_ex) m)) ''top_'' 4) [1, 2] = [1]"
    by (simp add: names strncmp_eq_def del: One_nat_def)
  have "bh_profile_num (st_hdr S') = 1"
    using sort_tops_profiles [OF ready _ inv S'] names(5) unfolding top
    by (auto simp: create_bootrd_def list_all2_Cons1)
  then show ?thesis using S' by blast
qed

end
