(* ===== verification/Ch_Bootrd.thy ===== *)
theory Ch_Bootrd imports Bootrd_Image begin

text \<open>
  The tool that shows the profiles of a boot image and selects one of them, \<^verbatim>\<open>tools/ch_bootrd/main.c\<close>.  The headers are those of
  \<open>Bootrd_Image\<close>; how they are decoded is a parameter, with \<open>None\<close> for bytes whose magic number is wrong.  The tool prints one
  line for each profile.  Offsets are 32-bit words, as in the code.
\<close>

section \<open>Operations\<close>

record reader =
  dec_bootrd_header :: "u8 list \<Rightarrow> bootrd_header option"
  dec_profile_header :: "u8 list \<Rightarrow> profile_header option"

definition get_profile_header :: "host \<Rightarrow> reader \<Rightarrow> cfile \<Rightarrow> u32 \<Rightarrow> (profile_header \<times> cfile) run" where
  "get_profile_header H R fp offset =
     (let (bs, fp) = fread (sizeof_profile_header H) (fseek (unat offset) fp)
      in if length bs \<noteq> sizeof_profile_header H then Inl Exit
         else case dec_profile_header R bs of
           None \<Rightarrow> Inl Exit
         | Some ph \<Rightarrow> if ph_version ph \<noteq> 1 then Inl Exit else Inr (ph, fp))"

definition overwrite_current_profile_index :: "host \<Rightarrow> cfile \<Rightarrow> u32 \<Rightarrow> bootrd_header \<Rightarrow> bootrd_header \<times> cfile" where
  "overwrite_current_profile_index H fp offset bh =
     (if bh_current_profile bh = unat offset then (bh, fp)
      else (let bh = bh\<lparr>bh_current_profile := unat offset\<rparr> in (bh, fwrite (enc_bootrd_header H bh) (fseek 0 fp))))"

text \<open>A line of the output: whether the profile is marked, its number, its name and its offset.\<close>

type_synonym ch_line = "bool \<times> nat \<times> string \<times> nat"

text \<open>The loop over the profiles; \<open>k\<close> of them are left.\<close>

fun profile_loop ::
  "host \<Rightarrow> reader \<Rightarrow> int \<Rightarrow> nat \<Rightarrow> nat \<Rightarrow> u32 \<Rightarrow> bootrd_header \<Rightarrow> cfile \<Rightarrow> ch_line list \<Rightarrow> (ch_line list \<times> cfile) run" where
  "profile_loop H R index 0 i offset bh fp out = Inr (out, fp)"
| "profile_loop H R index (Suc k) i offset bh fp out =
     bind_run (get_profile_header H R fp offset) (\<lambda>(ph, fp).
       let (mark, bh, fp) =
         (if index < 0 then (unat offset = bh_current_profile bh, bh, fp)
          else if index = int i then (True, overwrite_current_profile_index H fp offset bh)
          else (False, bh, fp))
       in profile_loop H R index k (i + 1) (offset + word_of_nat (ph_total_size ph)) bh fp
            (out @ [(mark, i, ph_sname ph, unat offset)]))"

text \<open>The whole tool: \<open>index\<close> is the number behind \<^verbatim>\<open>-s\<close>, or \<open>- 1\<close>.  The result is the output and the file.\<close>

definition ch_bootrd_main :: "host \<Rightarrow> reader \<Rightarrow> int \<Rightarrow> u8 list \<Rightarrow> (ch_line list \<times> u8 list) run" where
  "ch_bootrd_main H R index file =
     (let (bs, fp) = fread (sizeof_bootrd_header H) \<lparr>f_data = file, f_pos = 0\<rparr>
      in if length bs \<noteq> sizeof_bootrd_header H then Inl Exit
         else case dec_bootrd_header R bs of
           None \<Rightarrow> Inl Exit
         | Some bh \<Rightarrow>
            (if bh_version bh \<noteq> 1 then Inl Exit
             else if sint (word_of_nat (bh_profile_num bh) :: u32) \<le> index then Inl Exit
             else bind_run (profile_loop H R index (bh_profile_num bh) 0 (word_of_nat (bh_profile_offset bh)) bh fp [])
                    (\<lambda>(out, fp). Inr (out, f_data fp))))"

section \<open>Codecs\<close>

text \<open>
  What the structures of \<^verbatim>\<open>bootrd.h\<close> keep: numbers of 32 bits and a name that is shorter than its array.
\<close>

definition fits_bootrd_header :: "bootrd_header \<Rightarrow> bool" where
  "fits_bootrd_header h \<longleftrightarrow>
     (\<forall>x \<in> {bh_version h, bh_total_size h, bh_mod_offset h, bh_mod_num h, bh_profile_offset h, bh_profile_num h, bh_current_profile h}. x < 2 ^ 32)"

definition fits_profile_header :: "host \<Rightarrow> profile_header \<Rightarrow> bool" where
  "fits_profile_header H h \<longleftrightarrow> ph_version h < 2 ^ 32 \<and> ph_total_size h < 2 ^ 32 \<and> ph_mod_num h < 2 ^ 32 \<and>
     length (ph_sname h) < sizeof_sname H \<and> CHR 0x00 \<notin> set (ph_sname h)"

definition codec_ok :: "host \<Rightarrow> reader \<Rightarrow> bool" where
  "codec_ok H R \<longleftrightarrow> headers_ok H \<and> 0 < sizeof_profile_header H \<and>
     (\<forall>h. fits_bootrd_header h \<longrightarrow> dec_bootrd_header R (enc_bootrd_header H h) = Some h) \<and>
     (\<forall>h. fits_profile_header H h \<longrightarrow> dec_profile_header R (enc_profile_header H h) = Some h)"

section \<open>The loop over the profiles of an image\<close>

type_synonym block = "profile_header \<times> u8 list"

definition block_bytes :: "host \<Rightarrow> block \<Rightarrow> u8 list" where
  "block_bytes H b = enc_profile_header H (fst b) @ snd b"

definition block_ok :: "host \<Rightarrow> block \<Rightarrow> bool" where
  "block_ok H b \<longleftrightarrow> fits_profile_header H (fst b) \<and> ph_version (fst b) = 1 \<and> ph_total_size (fst b) = sizeof_profile_header H + length (snd b)"

text \<open>The output, and the profile that is selected in the end.\<close>

fun listing :: "int \<Rightarrow> nat \<Rightarrow> nat \<Rightarrow> nat \<Rightarrow> block list \<Rightarrow> ch_line list" where
  "listing index cur i off [] = []"
| "listing index cur i off (b # bs) =
     (if index < 0 then off = cur else index = int i, i, ph_sname (fst b), off) # listing index cur (i + 1) (off + ph_total_size (fst b)) bs"

fun chosen :: "int \<Rightarrow> nat \<Rightarrow> nat \<Rightarrow> nat \<Rightarrow> block list \<Rightarrow> nat" where
  "chosen index cur i off [] = cur"
| "chosen index cur i off (b # bs) = (if index = int i then off else chosen index cur (i + 1) (off + ph_total_size (fst b)) bs)"

lemma chosen_past: "index < int i \<Longrightarrow> chosen index cur i off bs = cur"
  by (induction bs arbitrary: i off) auto

lemma listing_cur: "0 \<le> index \<Longrightarrow> listing index cur i off bs = listing index cur' i off bs"
  by (induction bs arbitrary: i off) auto

lemma fwrite_front:
  assumes "length bs = length xs"
  shows "f_data (fwrite bs (fseek 0 \<lparr>f_data = xs @ ys, f_pos = p\<rparr>)) = bs @ ys"
  using assms by (simp add: fwrite_def fseek_def)

lemma get_profile_header_block:
  assumes ok: "codec_ok H R" "block_ok H b" and "length front = unat offset"
  shows "\<exists>p. get_profile_header H R \<lparr>f_data = front @ block_bytes H b @ rest, f_pos = q\<rparr> offset =
    Inr (fst b, \<lparr>f_data = front @ block_bytes H b @ rest, f_pos = p\<rparr>)"
proof -
  have "length (enc_profile_header H (fst b)) = sizeof_profile_header H" using ok(1) by (simp add: codec_ok_def headers_ok_def)
  moreover have "unat offset < 2 ^ LENGTH(32)" by (rule unsigned_less)
  then have "unat offset < 2 ^ 63" by simp
  moreover have "dec_profile_header R (enc_profile_header H (fst b)) = Some (fst b)" "ph_version (fst b) = 1"
    using ok by (simp_all add: codec_ok_def block_ok_def)
  ultimately show ?thesis
    using assms(3) by (simp add: get_profile_header_def fread_def fseek_def block_bytes_def Let_def)
qed

lemma overwrite_selects:
  assumes "headers_ok H"
  shows "\<exists>p. overwrite_current_profile_index H \<lparr>f_data = enc_bootrd_header H bh @ rest, f_pos = q\<rparr> offset bh =
    (bh\<lparr>bh_current_profile := unat offset\<rparr>,
     \<lparr>f_data = enc_bootrd_header H (bh\<lparr>bh_current_profile := unat offset\<rparr>) @ rest, f_pos = p\<rparr>)"
proof (cases "bh_current_profile bh = unat offset")
  case True
  then have same: "bh\<lparr>bh_current_profile := unat offset\<rparr> = bh" by (cases bh) simp
  show ?thesis unfolding same overwrite_current_profile_index_def if_P [OF True] by blast
next
  case False
  have "length (enc_bootrd_header H (bh\<lparr>bh_current_profile := unat offset\<rparr>)) = length (enc_bootrd_header H bh)"
    using assms by (simp add: headers_ok_def)
  then show ?thesis using False by (simp add: overwrite_current_profile_index_def Let_def fwrite_def fseek_def)
qed

lemma profile_loop_blocks:
  assumes ok: "codec_ok H R"
  shows "list_all (block_ok H) bs \<Longrightarrow> length (enc_bootrd_header H bh @ front) = unat offset \<Longrightarrow>
    unat offset + length (concat (map (block_bytes H) bs)) < 2 ^ 32 \<Longrightarrow>
    \<exists>p. profile_loop H R index (length bs) i offset bh
          \<lparr>f_data = enc_bootrd_header H bh @ front @ concat (map (block_bytes H) bs) @ rest, f_pos = q\<rparr> out =
      Inr (out @ listing index (bh_current_profile bh) i (unat offset) bs,
        \<lparr>f_data = enc_bootrd_header H (bh\<lparr>bh_current_profile := chosen index (bh_current_profile bh) i (unat offset) bs\<rparr>) @
            front @ concat (map (block_bytes H) bs) @ rest, f_pos = p\<rparr>)"
proof (induction bs arbitrary: i offset bh front q out)
  case Nil
  have "bh\<lparr>bh_current_profile := bh_current_profile bh\<rparr> = bh" by simp
  then show ?case by simp
next
  case (Cons b bs)
  let ?rest = "concat (map (block_bytes H) bs) @ rest"
  let ?size = "ph_total_size (fst b)"
  have hdr: "length (enc_bootrd_header H h) = sizeof_bootrd_header H" "length (enc_profile_header H g) = sizeof_profile_header H" for h g
    using ok by (simp_all add: codec_ok_def headers_ok_def)
  have b: "block_ok H b" "length (block_bytes H b) = ?size" using Cons.prems(1) hdr by (simp_all add: block_ok_def block_bytes_def)
  have next_off: "unat (offset + word_of_nat ?size) = unat offset + ?size"
    using Cons.prems(3) b(2) by (simp add: unat_word_ariths unat_of_nat)
  obtain p where get: "get_profile_header H R \<lparr>f_data = (enc_bootrd_header H bh @ front) @ block_bytes H b @ ?rest, f_pos = q\<rparr> offset =
      Inr (fst b, \<lparr>f_data = (enc_bootrd_header H bh @ front) @ block_bytes H b @ ?rest, f_pos = p\<rparr>)"
    using get_profile_header_block [OF ok b(1) Cons.prems(2)] by blast
  define bh' where "bh' = (if index = int i then bh\<lparr>bh_current_profile := unat offset\<rparr> else bh)"
  obtain p' where p': "(if index < 0 then (unat offset = bh_current_profile bh, bh, \<lparr>f_data = enc_bootrd_header H bh @ front @ block_bytes H b @ ?rest, f_pos = p\<rparr>)
          else if index = int i then (True, overwrite_current_profile_index H \<lparr>f_data = enc_bootrd_header H bh @ front @ block_bytes H b @ ?rest, f_pos = p\<rparr> offset bh)
          else (False, bh, \<lparr>f_data = enc_bootrd_header H bh @ front @ block_bytes H b @ ?rest, f_pos = p\<rparr>)) =
      (if index < 0 then unat offset = bh_current_profile bh else index = int i, bh',
       \<lparr>f_data = enc_bootrd_header H bh' @ front @ block_bytes H b @ ?rest, f_pos = p'\<rparr>)"
    using overwrite_selects [of H bh "front @ block_bytes H b @ ?rest" p offset] ok
    by (cases "index < 0"; cases "index = int i") (auto simp: bh'_def codec_ok_def)
  have "\<exists>p. profile_loop H R index (length bs) (i + 1) (offset + word_of_nat ?size) bh'
        \<lparr>f_data = enc_bootrd_header H bh' @ (front @ block_bytes H b) @ ?rest, f_pos = p'\<rparr>
        (out @ [(if index < 0 then unat offset = bh_current_profile bh else index = int i, i, ph_sname (fst b), unat offset)]) =
      Inr ((out @ [(if index < 0 then unat offset = bh_current_profile bh else index = int i, i, ph_sname (fst b), unat offset)]) @
          listing index (bh_current_profile bh') (i + 1) (unat (offset + word_of_nat ?size)) bs,
        \<lparr>f_data = enc_bootrd_header H (bh'\<lparr>bh_current_profile := chosen index (bh_current_profile bh') (i + 1) (unat (offset + word_of_nat ?size)) bs\<rparr>) @
            (front @ block_bytes H b) @ ?rest, f_pos = p\<rparr>)"
    using Cons.prems hdr b(2) next_off by (intro Cons.IH) (simp_all add: bh'_def)
  then obtain p2 where IH: "profile_loop H R index (length bs) (i + 1) (offset + word_of_nat ?size) bh'
        \<lparr>f_data = enc_bootrd_header H bh' @ (front @ block_bytes H b) @ ?rest, f_pos = p'\<rparr>
        (out @ [(if index < 0 then unat offset = bh_current_profile bh else index = int i, i, ph_sname (fst b), unat offset)]) =
      Inr ((out @ [(if index < 0 then unat offset = bh_current_profile bh else index = int i, i, ph_sname (fst b), unat offset)]) @
          listing index (bh_current_profile bh') (i + 1) (unat offset + ?size) bs,
        \<lparr>f_data = enc_bootrd_header H (bh'\<lparr>bh_current_profile := chosen index (bh_current_profile bh') (i + 1) (unat offset + ?size) bs\<rparr>) @
            (front @ block_bytes H b) @ ?rest, f_pos = p2\<rparr>)" unfolding next_off by blast
  have l: "listing index (bh_current_profile bh') (i + 1) (unat offset + ?size) bs = listing index (bh_current_profile bh) (i + 1) (unat offset + ?size) bs"
    by (cases "index = int i") (auto simp: bh'_def intro: listing_cur)
  have c: "bh'\<lparr>bh_current_profile := chosen index (bh_current_profile bh') (i + 1) (unat offset + ?size) bs\<rparr> =
      bh\<lparr>bh_current_profile := chosen index (bh_current_profile bh) i (unat offset) (b # bs)\<rparr>"
    by (simp add: bh'_def chosen_past)
  show ?case
    using get IH unfolding l c by (simp add: p' del: One_nat_def chosen.simps)
qed

lemma ch_bootrd_main_blocks:
  assumes ok: "codec_ok H R" "list_all (block_ok H) bs" and bh: "fits_bootrd_header bh" "bh_version bh = 1" "bh_profile_num bh = length bs"
    and off: "bh_profile_offset bh = length (enc_bootrd_header H bh @ front)" "bh_profile_offset bh + length (concat (map (block_bytes H) bs)) < 2 ^ 32"
    and num: "length bs < 2 ^ 31" "index < int (length bs)"
  shows "ch_bootrd_main H R index (enc_bootrd_header H bh @ front @ concat (map (block_bytes H) bs) @ rest) =
    Inr (listing index (bh_current_profile bh) 0 (bh_profile_offset bh) bs,
      enc_bootrd_header H (bh\<lparr>bh_current_profile := chosen index (bh_current_profile bh) 0 (bh_profile_offset bh) bs\<rparr>) @
        front @ concat (map (block_bytes H) bs) @ rest)"
proof -
  have hdr: "length (enc_bootrd_header H bh) = sizeof_bootrd_header H" using ok(1) by (simp add: codec_ok_def headers_ok_def)
  have dec: "dec_bootrd_header R (enc_bootrd_header H bh) = Some bh" using ok(1) bh(1) by (simp add: codec_ok_def)
  have u: "unat (word_of_nat (bh_profile_offset bh) :: u32) = bh_profile_offset bh" using off(2) by (simp add: unat_of_nat)
  have n: "sint (word_of_nat (bh_profile_num bh) :: u32) = int (length bs)"
    using bh(3) num(1) by (simp add: signed_of_nat signed_take_bit_int_eq_self)
  obtain q where q: "fread (sizeof_bootrd_header H) \<lparr>f_data = enc_bootrd_header H bh @ front @ concat (map (block_bytes H) bs) @ rest, f_pos = 0\<rparr> =
      (enc_bootrd_header H bh, \<lparr>f_data = enc_bootrd_header H bh @ front @ concat (map (block_bytes H) bs) @ rest, f_pos = q\<rparr>)"
    using hdr by (simp add: fread_def Let_def)
  obtain p where "profile_loop H R index (length bs) 0 (word_of_nat (bh_profile_offset bh)) bh
      \<lparr>f_data = enc_bootrd_header H bh @ front @ concat (map (block_bytes H) bs) @ rest, f_pos = q\<rparr> [] =
    Inr ([] @ listing index (bh_current_profile bh) 0 (bh_profile_offset bh) bs,
      \<lparr>f_data = enc_bootrd_header H (bh\<lparr>bh_current_profile := chosen index (bh_current_profile bh) 0 (bh_profile_offset bh) bs\<rparr>) @
        front @ concat (map (block_bytes H) bs) @ rest, f_pos = p\<rparr>)"
    using profile_loop_blocks [OF ok, of bh front "word_of_nat (bh_profile_offset bh)" index 0 rest q "[]", unfolded u, OF off(1) [symmetric] off(2)] by blast
  then show ?thesis using num(2) bh(2,3) unfolding ch_bootrd_main_def q by (simp add: hdr dec n [unfolded bh(3)])
qed

section \<open>Offsets of the profiles\<close>

definition block_off :: "nat \<Rightarrow> block list \<Rightarrow> nat \<Rightarrow> nat" where
  "block_off off bs k = off + sum_list (map (\<lambda>b. ph_total_size (fst b)) (take k bs))"

lemma block_off_Cons [simp]: "block_off off (b # bs) (Suc k) = block_off (off + ph_total_size (fst b)) bs k" "block_off off bs 0 = off"
  by (simp_all add: block_off_def)

lemma length_listing [simp]: "length (listing index cur i off bs) = length bs"
  by (induction bs arbitrary: i off) auto

lemma listing_nth:
  "k < length bs \<Longrightarrow> listing index cur i off bs ! k =
     (if index < 0 then block_off off bs k = cur else index = int (i + k), i + k, ph_sname (fst (bs ! k)), block_off off bs k)"
proof (induction bs arbitrary: i off k)
  case (Cons b bs)
  then show ?case by (cases k) auto
qed simp

lemma chosen_nth: "k < length bs \<Longrightarrow> chosen (int (i + k)) cur i off bs = block_off off bs k"
proof (induction bs arbitrary: i off k)
  case (Cons b bs)
  then show ?case using Cons.IH [of "k - 1" "i + 1" "off + ph_total_size (fst b)"] by (cases k) auto
qed simp

lemma block_off_less:
  "\<forall>b \<in> set bs. 0 < ph_total_size (fst b) \<Longrightarrow> k < l \<Longrightarrow> l \<le> length bs \<Longrightarrow> block_off off bs k < block_off off bs l"
proof (induction bs arbitrary: k l off)
  case (Cons b bs)
  then obtain l' where l: "l = Suc l'" by (cases l) auto
  show ?case
  proof (cases k)
    case 0
    have "off + ph_total_size (fst b) \<le> block_off (off + ph_total_size (fst b)) bs l'" by (simp add: block_off_def)
    then show ?thesis using 0 l Cons.prems(1) by simp
  next
    case (Suc k')
    then show ?thesis using Cons l by simp
  qed
qed simp

text \<open>Looking at the image afterwards shows the same lines.\<close>

lemma listing_again:
  assumes "\<forall>b \<in> set bs. 0 < ph_total_size (fst b)" and "i < length bs"
  shows "listing (- 1) (block_off off bs i) 0 off bs = listing (int i) cur 0 off bs"
proof (rule nth_equalityI)
  fix k assume "k < length (listing (- 1) (block_off off bs i) 0 off bs)"
  then have k: "k < length bs" by simp
  have "block_off off bs k = block_off off bs i \<longleftrightarrow> i = k"
    using block_off_less [OF assms(1), of k i off] block_off_less [OF assms(1), of i k off] assms(2) k by (cases k i rule: linorder_cases) auto
  then show "listing (- 1) (block_off off bs i) 0 off bs ! k = listing (int i) cur 0 off bs ! k"
    using k by (simp add: listing_nth)
qed simp

lemma block_off_length:
  assumes "list_all (block_ok H) bs" and "headers_ok H"
  shows "block_off off bs k = off + length (concat (map (block_bytes H) (take k bs)))"
proof -
  have "length (block_bytes H b) = ph_total_size (fst b)" if "b \<in> set bs" for b
    using assms that by (auto simp: list_all_iff block_ok_def block_bytes_def headers_ok_def)
  then have sizes: "map (length \<circ> block_bytes H) (take k bs) = map (\<lambda>b. ph_total_size (fst b)) (take k bs)"
    by (auto dest: in_set_takeD)
  show ?thesis unfolding block_off_def sizes [symmetric] by (simp add: length_concat)
qed

lemma blocks_split:
  "k < length bs \<Longrightarrow> concat (map (block_bytes H) bs) =
     concat (map (block_bytes H) (take k bs)) @ block_bytes H (bs ! k) @ concat (map (block_bytes H) (drop (Suc k) bs))"
  using id_take_nth_drop [of k bs] by (metis concat.simps(2) concat_append list.simps(9) map_append)

lemma block_at:
  assumes "list_all (block_ok H) bs" and "headers_ok H" and "k < length bs" and "length front = off"
  shows "take (length (block_bytes H (bs ! k))) (drop (block_off off bs k) (front @ concat (map (block_bytes H) bs) @ rest)) = block_bytes H (bs ! k)"
  unfolding block_off_length [OF assms(1,2)] blocks_split [OF assms(3)] using assms(4) by simp

lemma blocks_length:
  assumes "codec_ok H R"
  shows "length bs \<le> length (concat (map (block_bytes H) bs))"
proof -
  have "1 \<le> length (block_bytes H b)" for b using assms by (simp add: block_bytes_def codec_ok_def headers_ok_def Suc_le_eq)
  then have "sum_list (map (\<lambda>_. 1) bs) \<le> sum_list (map (\<lambda>b. length (block_bytes H b)) bs)" by (intro sum_list_mono) simp
  then show ?thesis by (simp add: length_concat comp_def sum_list_triv)
qed

text \<open>Selecting profile \<open>i\<close> of an image, and looking at the image that results.\<close>

lemma ch_bootrd_selects:
  fixes rest :: "u8 list"
  assumes ok: "codec_ok H R" and bs: "list_all (block_ok H) bs" and h: "fits_bootrd_header h" "bh_version h = 1" "bh_profile_num h = length bs"
    and off: "bh_profile_offset h = length (enc_bootrd_header H h @ front)" "bh_profile_offset h + length (concat (map (block_bytes H) bs)) < BOOTRD_SIZE"
    and i: "i < length bs"
  defines "p \<equiv> block_off (bh_profile_offset h) bs i" and "out \<equiv> listing (int i) (bh_current_profile h) 0 (bh_profile_offset h) bs"
    and "tail \<equiv> front @ concat (map (block_bytes H) bs) @ rest"
  shows "fits_bootrd_header (h\<lparr>bh_current_profile := p\<rparr>)"
    and "ch_bootrd_main H R (int i) (enc_bootrd_header H h @ tail) = Inr (out, enc_bootrd_header H (h\<lparr>bh_current_profile := p\<rparr>) @ tail)"
    and "ch_bootrd_main H R (- 1) (enc_bootrd_header H (h\<lparr>bh_current_profile := p\<rparr>) @ tail) = Inr (out, enc_bootrd_header H (h\<lparr>bh_current_profile := p\<rparr>) @ tail)"
    and "take (length (block_bytes H (bs ! i))) (drop p (enc_bootrd_header H (h\<lparr>bh_current_profile := p\<rparr>) @ tail)) = block_bytes H (bs ! i)"
proof -
  let ?bytes = "concat (map (block_bytes H) bs)"
  define h' where "h' = h\<lparr>bh_current_profile := p\<rparr>"
  have hok: "headers_ok H" and hdr: "length (enc_bootrd_header H x) = sizeof_bootrd_header H" for x
    using ok by (simp_all add: codec_ok_def headers_ok_def)
  have pos: "0 < ph_total_size (fst b)" if "b \<in> set bs" for b
    using bs that ok by (auto simp: list_all_iff block_ok_def codec_ok_def)
  have "p \<le> bh_profile_offset h + length ?bytes"
    unfolding p_def block_off_length [OF bs hok] blocks_split [OF i] by simp
  then have p: "p < 2 ^ 25" "bh_profile_offset h + length ?bytes < 2 ^ 32" "length bs < 2 ^ 31"
    using off(2) blocks_length [OF ok, of bs] by (simp_all add: BOOTRD_SIZE_def)
  have h': "fits_bootrd_header h'" "bh_version h' = 1" "bh_profile_num h' = length bs" "bh_profile_offset h' = bh_profile_offset h" "bh_current_profile h' = p"
    using h p(1) by (simp_all add: h'_def fits_bootrd_header_def)
  then show "fits_bootrd_header (h\<lparr>bh_current_profile := p\<rparr>)" by (simp add: h'_def)
  show "ch_bootrd_main H R (int i) (enc_bootrd_header H h @ tail) = Inr (out, enc_bootrd_header H (h\<lparr>bh_current_profile := p\<rparr>) @ tail)"
    using ch_bootrd_main_blocks [OF ok bs h off(1) p(2,3), of "int i" rest] i chosen_nth [OF i, of 0 "bh_current_profile h" "bh_profile_offset h"]
    by (simp add: tail_def out_def p_def)
  have "listing (- 1) p 0 (bh_profile_offset h) bs = out" unfolding p_def out_def using listing_again pos i by blast
  moreover have "h'\<lparr>bh_current_profile := p\<rparr> = h'" by (simp add: h'_def)
  ultimately have "ch_bootrd_main H R (- 1) (enc_bootrd_header H h' @ tail) = Inr (out, enc_bootrd_header H h' @ tail)"
    using ch_bootrd_main_blocks [OF ok bs h'(1-3), of front "- 1" rest] off(1) p(2,3) hdr unfolding h'(4,5) tail_def by (simp add: chosen_past)
  then show "ch_bootrd_main H R (- 1) (enc_bootrd_header H (h\<lparr>bh_current_profile := p\<rparr>) @ tail) = Inr (out, enc_bootrd_header H (h\<lparr>bh_current_profile := p\<rparr>) @ tail)"
    unfolding h'_def .
  show "take (length (block_bytes H (bs ! i))) (drop p (enc_bootrd_header H (h\<lparr>bh_current_profile := p\<rparr>) @ tail)) = block_bytes H (bs ! i)"
    using block_at [OF bs hok i, of "enc_bootrd_header H h' @ front" "bh_profile_offset h" rest] off(1) hdr by (simp add: p_def tail_def h'_def)
qed

end
