(* ===== verification/Memblock.thy ===== *)
theory Memblock
  imports Prelude
begin

text \<open>
  The region arrays of \<^verbatim>\<open>memblock/src/memblock.c\<close>: adding a range, isolating and removing a range,
  merging neighbours, and the queries over one array.  A region array is the list of its first
  \<^verbatim>\<open>cnt\<close> entries together with its capacity \<^verbatim>\<open>max\<close>; entries past \<^verbatim>\<open>cnt\<close> are never read.  The kernel is
  configured with one memory node, so regions carry no node id.  \<^verbatim>\<open>WARN_ON\<close> only prints; \<^verbatim>\<open>BUG_ON\<close> is
  \<open>Inl Crash\<close>.  What an array means is the map from addresses to flags, \<open>amap\<close>.
\<close>

section \<open>Regions and arrays\<close>

type_synonym phys_addr = u64

record memblock_region =
  rg_base :: phys_addr
  rg_size :: phys_addr
  rg_flags :: u32

record memblock_type =
  rgns :: "memblock_region list"
  rmax :: nat
  total_size :: phys_addr

definition MEMBLOCK_NONE :: u32 where
  "MEMBLOCK_NONE = 0"

definition MEMBLOCK_HOTPLUG :: u32 where
  "MEMBLOCK_HOTPLUG = 1"

definition MEMBLOCK_MIRROR :: u32 where
  "MEMBLOCK_MIRROR = 2"

definition MEMBLOCK_NOMAP :: u32 where
  "MEMBLOCK_NOMAP = 4"

definition PHYS_ADDR_MAX :: phys_addr where
  "PHYS_ADDR_MAX = - 1"

definition rg_end :: "memblock_region \<Rightarrow> phys_addr" where
  "rg_end r = rg_base r + rg_size r"

text \<open>Updating the entries of an array by index.\<close>

fun map_index_from :: "(nat \<Rightarrow> 'a \<Rightarrow> 'a) \<Rightarrow> nat \<Rightarrow> 'a list \<Rightarrow> 'a list" where
  "map_index_from f i [] = []"
| "map_index_from f i (x # xs) = f i x # map_index_from f (Suc i) xs"

section \<open>Operations\<close>

definition memblock_cap_size :: "phys_addr \<Rightarrow> phys_addr \<Rightarrow> phys_addr" where
  "memblock_cap_size base sz = min sz (PHYS_ADDR_MAX - base)"

definition memblock_addrs_overlap :: "phys_addr \<Rightarrow> phys_addr \<Rightarrow> phys_addr \<Rightarrow> phys_addr \<Rightarrow> bool" where
  "memblock_addrs_overlap base1 sz1 base2 sz2 \<longleftrightarrow> base1 < base2 + sz2 \<and> base2 < base1 + sz1"

definition memblock_overlaps_region :: "memblock_type \<Rightarrow> phys_addr \<Rightarrow> phys_addr \<Rightarrow> bool" where
  "memblock_overlaps_region t base sz =
     list_ex (\<lambda>r. memblock_addrs_overlap base sz (rg_base r) (rg_size r)) (rgns t)"

definition empty_region :: memblock_region where
  "empty_region = \<lparr>rg_base = 0, rg_size = 0, rg_flags = 0\<rparr>"

definition memblock_remove_region :: "memblock_type \<Rightarrow> nat \<Rightarrow> memblock_type" where
  "memblock_remove_region t r =
     (let rs = take r (rgns t) @ drop (Suc r) (rgns t);
          t' = t\<lparr>total_size := total_size t - rg_size (rgns t ! r), rgns := rs\<rparr>
      in if rs = [] then t'\<lparr>rgns := [empty_region]\<rparr> else t')"

definition memblock_insert_region ::
  "memblock_type \<Rightarrow> nat \<Rightarrow> phys_addr \<Rightarrow> phys_addr \<Rightarrow> u32 \<Rightarrow> memblock_type run" where
  "memblock_insert_region t idx base sz flags =
     (if rmax t \<le> length (rgns t) then Inl Crash
      else Inr (t\<lparr>rgns := take idx (rgns t) @ \<lparr>rg_base = base, rg_size = sz, rg_flags = flags\<rparr> # drop idx (rgns t),
                 total_size := total_size t + sz\<rparr>))"

lemma insert_region_length:
  "memblock_insert_region t idx base sz flags = Inr t' \<Longrightarrow> idx \<le> length (rgns t) \<Longrightarrow>
     length (rgns t') = Suc (length (rgns t))"
  by (auto simp: memblock_insert_region_def split: if_splits)

function merge_loop :: "memblock_type \<Rightarrow> nat \<Rightarrow> memblock_type run" where
  "merge_loop t i =
     (if i < length (rgns t) - 1 then
        (let this = rgns t ! i; nxt = rgns t ! Suc i
         in if rg_base this + rg_size this \<noteq> rg_base nxt \<or> rg_flags this \<noteq> rg_flags nxt then
              (if rg_base nxt < rg_base this + rg_size this then Inl Crash else merge_loop t (Suc i))
            else
              merge_loop
                (t\<lparr>rgns := take i (rgns t) @ this\<lparr>rg_size := rg_size this + rg_size nxt\<rparr> # drop (i + 2) (rgns t)\<rparr>) i)
      else Inr t)"
  by pat_completeness auto
termination
  by (relation "measure (\<lambda>(t, i). length (rgns t) - i)") auto

declare merge_loop.simps [simp del]

definition memblock_merge_regions :: "memblock_type \<Rightarrow> memblock_type run" where
  "memblock_merge_regions t = merge_loop t 0"

text \<open>
  The scan of \<open>memblock_add_range\<close>: \<open>ins\<close> tells the counting round from the inserting one.  The result
  is the array, the index where the scan stopped, the rest of the range and the regions counted.
\<close>

function add_loop ::
  "bool \<Rightarrow> phys_addr \<Rightarrow> u32 \<Rightarrow> memblock_type \<Rightarrow> nat \<Rightarrow> phys_addr \<Rightarrow> nat \<Rightarrow>
     (memblock_type \<times> nat \<times> phys_addr \<times> nat) run" where
  "add_loop ins en flags t idx base nr_new =
     (if idx < length (rgns t) then
        (let rbase = rg_base (rgns t ! idx); rend = rbase + rg_size (rgns t ! idx)
         in if en \<le> rbase then Inr (t, idx, base, nr_new)
            else if rend \<le> base then add_loop ins en flags t (Suc idx) base nr_new
            else if base < rbase then
              (if ins then
                 (case memblock_insert_region t idx base (rbase - base) flags of
                    Inl e \<Rightarrow> Inl e
                  | Inr t' \<Rightarrow> add_loop ins en flags t' (Suc (Suc idx)) (min rend en) (Suc nr_new))
               else add_loop ins en flags t (Suc idx) (min rend en) (Suc nr_new))
            else add_loop ins en flags t (Suc idx) (min rend en) nr_new)
      else Inr (t, idx, base, nr_new))"
  by pat_completeness auto
termination
  by (relation "measure (\<lambda>(ins, en, flags, t, idx, base, nr). length (rgns t) - idx)")
    (auto simp: insert_region_length)

declare add_loop.simps [simp del]

definition add_finish ::
  "bool \<Rightarrow> phys_addr \<Rightarrow> u32 \<Rightarrow> memblock_type \<times> nat \<times> phys_addr \<times> nat \<Rightarrow> (memblock_type \<times> nat) run" where
  "add_finish ins en flags st =
     (case st of (t, idx, base, nr_new) \<Rightarrow>
       if base < en then
         (if ins then bind_run (memblock_insert_region t idx base (en - base) flags) (\<lambda>t'. Inr (t', Suc nr_new))
          else Inr (t, Suc nr_new))
       else Inr (t, nr_new))"

definition add_round ::
  "bool \<Rightarrow> phys_addr \<Rightarrow> phys_addr \<Rightarrow> u32 \<Rightarrow> memblock_type \<Rightarrow> (memblock_type \<times> nat) run" where
  "add_round ins obase en flags t =
     bind_run (add_loop ins en flags t 0 obase 0) (add_finish ins en flags)"

text \<open>The inserting round and the merge at the end of \<open>memblock_add_range\<close>.\<close>

definition add_insert :: "phys_addr \<Rightarrow> phys_addr \<Rightarrow> u32 \<Rightarrow> memblock_type \<Rightarrow> memblock_type run" where
  "add_insert obase en flags t =
     bind_run (add_round True obase en flags t) (\<lambda>(t', nr_new).
       if nr_new = 0 then Inr t' else memblock_merge_regions t')"

text \<open>\<open>memblock_isolate_range\<close> once the array has room; the result has \<^verbatim>\<open>*start_rgn\<close> and \<^verbatim>\<open>*end_rgn\<close>.\<close>

definition crossings :: "phys_addr \<Rightarrow> phys_addr \<Rightarrow> memblock_region list \<Rightarrow> nat" where
  "crossings base en rs =
     length (filter (\<lambda>r. rg_base r < base \<and> base < rg_end r) rs) +
     length (filter (\<lambda>r. rg_base r < en \<and> en < rg_end r) rs)"

lemma split_end [simp]: "b + (s - (b - r)) = r + (s :: 'a :: ab_group_add)"
  by simp

lemma drop_split: "idx < length xs \<Longrightarrow> drop idx xs = xs ! idx # drop (Suc idx) xs"
  by (rule Cons_nth_drop_Suc [symmetric])

function isolate_loop ::
  "phys_addr \<Rightarrow> phys_addr \<Rightarrow> memblock_type \<Rightarrow> nat \<Rightarrow> nat \<Rightarrow> nat \<Rightarrow> (memblock_type \<times> nat \<times> nat) run" where
  "isolate_loop base en t idx start_rgn end_rgn =
     (if idx < length (rgns t) then
        (let r = rgns t ! idx; rbase = rg_base r; rend = rbase + rg_size r
         in if en \<le> rbase then Inr (t, start_rgn, end_rgn)
            else if rend \<le> base then isolate_loop base en t (Suc idx) start_rgn end_rgn
            else if rbase < base then
              (case memblock_insert_region
                      (t\<lparr>rgns := (rgns t)[idx := r\<lparr>rg_base := base, rg_size := rg_size r - (base - rbase)\<rparr>],
                         total_size := total_size t - (base - rbase)\<rparr>)
                      idx rbase (base - rbase) (rg_flags r) of
                 Inl e \<Rightarrow> Inl e
               | Inr t' \<Rightarrow> isolate_loop base en t' (Suc idx) start_rgn end_rgn)
            else if en < rend then
              (case memblock_insert_region
                      (t\<lparr>rgns := (rgns t)[idx := r\<lparr>rg_base := en, rg_size := rg_size r - (en - rbase)\<rparr>],
                         total_size := total_size t - (en - rbase)\<rparr>)
                      idx rbase (en - rbase) (rg_flags r) of
                 Inl e \<Rightarrow> Inl e
               | Inr t' \<Rightarrow> isolate_loop base en t' idx start_rgn end_rgn)
            else isolate_loop base en t (Suc idx) (if end_rgn = 0 then idx else start_rgn) (Suc idx))
      else Inr (t, start_rgn, end_rgn))"
  by pat_completeness auto
termination
proof (relation "measures [\<lambda>(base, en, t, idx, s, e). crossings base en (drop idx (rgns t)),
                           \<lambda>(base, en, t, idx, s, e). length (rgns t) - idx]", goal_cases)
  case 1
  show ?case by simp
next
  case (2 base en t idx)
  then show ?case by (auto simp: crossings_def drop_split [of idx])
next
  case (3 base en t idx)
  then show ?case by (auto simp: crossings_def drop_split [of idx] memblock_insert_region_def rg_end_def split: if_splits)
next
  case (4 base en t idx)
  then show ?case by (auto simp: crossings_def drop_split [of idx] memblock_insert_region_def rg_end_def split: if_splits)
next
  case (5 base en t idx)
  then show ?case by (auto simp: crossings_def drop_split [of idx])
qed

declare isolate_loop.simps [simp del]

definition remove_regions :: "memblock_type \<Rightarrow> nat \<Rightarrow> nat \<Rightarrow> memblock_type" where
  "remove_regions t start_rgn end_rgn = fold (\<lambda>i t. memblock_remove_region t i) (rev [start_rgn..<end_rgn]) t"

definition setclr_regions :: "bool \<Rightarrow> u32 \<Rightarrow> memblock_type \<Rightarrow> nat \<Rightarrow> nat \<Rightarrow> memblock_type" where
  "setclr_regions st flag t start_rgn end_rgn =
     t\<lparr>rgns := map_index_from (\<lambda>i r. if start_rgn \<le> i \<and> i < end_rgn
        then r\<lparr>rg_flags := (if st then rg_flags r OR flag else rg_flags r AND NOT flag)\<rparr> else r) 0 (rgns t)\<rparr>"

text \<open>
  \<open>memblock_remove_range\<close> and \<open>memblock_setclr_flag\<close> on an array with room, where \<open>en\<close> is the end of the
  capped range.
\<close>

definition isolate_remove :: "phys_addr \<Rightarrow> phys_addr \<Rightarrow> memblock_type \<Rightarrow> memblock_type run" where
  "isolate_remove base en t =
     bind_run (isolate_loop base en t 0 0 0) (\<lambda>(t', start_rgn, end_rgn). Inr (remove_regions t' start_rgn end_rgn))"

definition isolate_setclr :: "bool \<Rightarrow> u32 \<Rightarrow> phys_addr \<Rightarrow> phys_addr \<Rightarrow> memblock_type \<Rightarrow> memblock_type run" where
  "isolate_setclr st flag base en t =
     bind_run (isolate_loop base en t 0 0 0) (\<lambda>(t', start_rgn, end_rgn).
       memblock_merge_regions (setclr_regions st flag t' start_rgn end_rgn))"

function search_loop :: "memblock_region list \<Rightarrow> phys_addr \<Rightarrow> nat \<Rightarrow> nat \<Rightarrow> nat option" where
  "search_loop rs addr left right =
     (let mid = (right + left) div 2; r = rs ! mid
      in if addr < rg_base r then (if left < mid then search_loop rs addr left mid else None)
         else if rg_base r + rg_size r \<le> addr
           then (if Suc mid < right then search_loop rs addr (Suc mid) right else None)
         else Some mid)"
  by pat_completeness auto
termination
  by (relation "measure (\<lambda>(rs, addr, left, right). right - left)") auto

declare search_loop.simps [simp del]

definition memblock_search :: "memblock_type \<Rightarrow> phys_addr \<Rightarrow> nat option" where
  "memblock_search t addr = search_loop (rgns t) addr 0 (length (rgns t))"

end
