(* ===== verification/Memblock_Refine.thy ===== *)
theory Memblock_Refine
  imports Memblock
begin

text \<open>
  What a region array means: the map \<open>amap\<close> from addresses to flags.  The index loops of
  \<open>memblock_add_range\<close>, \<open>memblock_merge_regions\<close> and \<open>memblock_isolate_range\<close> are related to recursions
  over the region list, and those to the map: adding a range fills the addresses that were not
  covered, removing one restricts the map, and both keep the array sorted, disjoint and consistent
  with its total size.
\<close>

section \<open>Meaning and invariant of a region list\<close>

fun amap :: "memblock_region list \<Rightarrow> phys_addr \<Rightarrow> u32 option" where
  "amap [] a = None"
| "amap (r # rs) a = (if rg_base r \<le> a \<and> a < rg_end r then Some (rg_flags r) else amap rs a)"

text \<open>Sorted, pairwise disjoint, non-empty regions from \<open>lb\<close> upwards, none of which wraps around.\<close>

fun wfl :: "phys_addr \<Rightarrow> memblock_region list \<Rightarrow> bool" where
  "wfl lb [] = True"
| "wfl lb (r # rs) = (lb \<le> rg_base r \<and> rg_base r < rg_end r \<and> wfl (rg_end r) rs)"

definition szs :: "memblock_region list \<Rightarrow> phys_addr" where
  "szs rs = sum_list (map rg_size rs)"

text \<open>No two neighbours could be merged.\<close>

fun minimal :: "memblock_region list \<Rightarrow> bool" where
  "minimal (r # s # rs) = ((rg_end r \<noteq> rg_base s \<or> rg_flags r \<noteq> rg_flags s) \<and> minimal (s # rs))"
| "minimal rs = True"

lemma szs_simps [simp]: "szs [] = 0" "szs (r # rs) = rg_size r + szs rs" "szs (rs @ rs') = szs rs + szs rs'"
  by (simp_all add: szs_def)

lemma wfl_mono: "wfl lb rs \<Longrightarrow> lb' \<le> lb \<Longrightarrow> wfl lb' rs"
  by (cases rs) auto

lemma amap_below: "wfl lb rs \<Longrightarrow> a < lb \<Longrightarrow> amap rs a = None"
proof (induction rs arbitrary: lb)
  case (Cons r rs)
  then have "a < rg_base r" and "a < rg_end r" by auto
  then show ?case using Cons.IH [of "rg_end r"] Cons.prems(1) by auto
qed simp

lemma amap_append: "amap (rs @ rs') a = (case amap rs a of Some f \<Rightarrow> Some f | None \<Rightarrow> amap rs' a)"
  by (induction rs) auto

section \<open>Merging\<close>

function merge_list :: "memblock_region list \<Rightarrow> memblock_region list" where
  "merge_list (r # s # rs) =
     (if rg_end r = rg_base s \<and> rg_flags r = rg_flags s
      then merge_list (r\<lparr>rg_size := rg_size r + rg_size s\<rparr> # rs) else r # merge_list (s # rs))"
| "merge_list [r] = [r]"
| "merge_list [] = []"
  by pat_completeness auto
termination
  by (relation "measure length") auto

lemma merged_end: "rg_end r = rg_base s \<Longrightarrow> rg_end (r\<lparr>rg_size := rg_size r + rg_size s\<rparr>) = rg_end s"
  by (simp add: rg_end_def algebra_simps)

lemma merge_list_ok:
  "wfl lb rs \<Longrightarrow>
     wfl lb (merge_list rs) \<and> amap (merge_list rs) = amap rs \<and> szs (merge_list rs) = szs rs \<and>
     length (merge_list rs) \<le> length rs"
proof (induction rs arbitrary: lb rule: merge_list.induct)
  case (1 r s rs)
  show ?case
  proof (cases "rg_end r = rg_base s \<and> rg_flags r = rg_flags s")
    case True
    let ?m = "r\<lparr>rg_size := rg_size r + rg_size s\<rparr>"
    have e: "rg_end ?m = rg_end s" using True by (intro merged_end) simp
    have w: "wfl lb (?m # rs)" using "1.prems" True e by (auto)
    have a: "amap (?m # rs) = amap (r # s # rs)"
    proof
      fix a
      have "rg_base r < rg_end r" "rg_base s < rg_end s" using "1.prems" by simp_all
      then show "amap (?m # rs) a = amap (r # s # rs) a" using True e by (auto simp: not_less)
    qed
    from "1.IH"(1) [OF True w] a True show ?thesis by (simp add: add.assoc)
  next
    case False
    have "wfl (rg_end r) (s # rs)" using "1.prems" by simp
    from "1.IH"(2) [OF False this] False "1.prems" show ?thesis by (auto simp: fun_eq_iff)
  qed
qed auto

lemma merge_list_head: "merge_list (r # rs) \<noteq> []"
  by (induction rs arbitrary: r) auto

lemma merge_list_nonempty: "rs \<noteq> [] \<Longrightarrow> merge_list rs \<noteq> []"
  using merge_list_head by (cases rs) auto

lemma merge_list_minimal: "minimal (merge_list rs)"
proof (induction rs rule: merge_list.induct)
  case (1 r s rs)
  have hd: "rg_base (hd (merge_list (s # rs))) = rg_base s \<and> rg_flags (hd (merge_list (s # rs))) = rg_flags s"
    for s rs
    by (induction rs arbitrary: s) auto
  show ?case
  proof (cases "rg_end r = rg_base s \<and> rg_flags r = rg_flags s")
    case False
    obtain x xs where x: "merge_list (s # rs) = x # xs" using merge_list_head by (metis list.exhaust)
    then have "rg_base x = rg_base s" "rg_flags x = rg_flags s" using hd [of s rs] by simp_all
    then show ?thesis using "1.IH"(2) False x by auto
  qed (use "1.IH"(1) in simp)
qed auto

lemma merge_loop_list:
  "rgns t = pre @ rs \<Longrightarrow> wfl lb rs \<Longrightarrow>
     merge_loop t (length pre) = Inr (t\<lparr>rgns := pre @ merge_list rs\<rparr>)"
proof (induction rs arbitrary: t pre lb rule: merge_list.induct)
  case (1 r s rs)
  have nth: "rgns t ! length pre = r" "rgns t ! Suc (length pre) = s" using "1.prems"(1) by (simp_all add: nth_append)
  have lt: "length pre < length (rgns t) - 1" using "1.prems"(1) by simp
  show ?case
  proof (cases "rg_end r = rg_base s \<and> rg_flags r = rg_flags s")
    case True
    let ?m = "r\<lparr>rg_size := rg_size r + rg_size s\<rparr>"
    let ?t = "t\<lparr>rgns := pre @ ?m # rs\<rparr>"
    have e: "rg_end ?m = rg_end s" using True by (intro merged_end) simp
    have w: "wfl lb (?m # rs)" using "1.prems"(2) True e by auto
    have "merge_loop t (length pre) = merge_loop ?t (length pre)"
      using lt nth True "1.prems"(1) by (subst merge_loop.simps) (simp add: rg_end_def)
    also have "\<dots> = Inr (?t\<lparr>rgns := pre @ merge_list (?m # rs)\<rparr>)"
      using "1.IH"(1) [OF True _ w] by simp
    finally show ?thesis using True by simp
  next
    case False
    have w: "wfl (rg_end r) (s # rs)" using "1.prems"(2) by simp
    have "\<not> rg_base s < rg_base r + rg_size r" using w by (simp add: rg_end_def not_less)
    then have "merge_loop t (length pre) = merge_loop t (Suc (length pre))"
      using lt nth False by (subst merge_loop.simps) (auto simp: rg_end_def)
    also have "\<dots> = merge_loop t (length (pre @ [r]))" by simp
    also have "\<dots> = Inr (t\<lparr>rgns := (pre @ [r]) @ merge_list (s # rs)\<rparr>)"
      by (rule "1.IH"(2) [OF False _ w]) (simp add: "1.prems"(1))
    finally show ?thesis using False by auto
  qed
next
  case (2 r)
  then show ?case by (subst merge_loop.simps) (cases t; simp)
next
  case 3
  then show ?case by (subst merge_loop.simps) (cases t; auto)
qed

section \<open>Adding a range\<close>

abbreviation mk_rgn :: "phys_addr \<Rightarrow> phys_addr \<Rightarrow> u32 \<Rightarrow> memblock_region" where
  "mk_rgn b e f \<equiv> \<lparr>rg_base = b, rg_size = e - b, rg_flags = f\<rparr>"

definition gap :: "phys_addr \<Rightarrow> phys_addr \<Rightarrow> u32 \<Rightarrow> memblock_region list" where
  "gap b e f = (if b < e then [mk_rgn b e f] else [])"

lemma mk_rgn_end [simp]: "rg_end (mk_rgn b e f) = e"
  by (simp add: rg_end_def)

lemma length_gap: "length (gap b e f) = (if b < e then 1 else 0)"
  by (simp add: gap_def)

fun ins_list :: "phys_addr \<Rightarrow> phys_addr \<Rightarrow> u32 \<Rightarrow> memblock_region list \<Rightarrow> memblock_region list" where
  "ins_list base en f [] = gap base en f"
| "ins_list base en f (r # rs) =
     (if en \<le> rg_base r then gap base en f @ r # rs
      else if rg_end r \<le> base then r # ins_list base en f rs
      else gap base (rg_base r) f @ r # ins_list (min (rg_end r) en) en f rs)"

fun new_count :: "phys_addr \<Rightarrow> phys_addr \<Rightarrow> memblock_region list \<Rightarrow> nat" where
  "new_count base en [] = (if base < en then 1 else 0)"
| "new_count base en (r # rs) =
     (if en \<le> rg_base r then (if base < en then 1 else 0)
      else if rg_end r \<le> base then new_count base en rs
      else (if base < rg_base r then 1 else 0) + new_count (min (rg_end r) en) en rs)"

lemma length_ins_list: "length (ins_list base en f rs) = length rs + new_count base en rs"
  by (induction rs arbitrary: base) (auto simp: length_gap)

lemma ins_list_none: "new_count base en rs = 0 \<Longrightarrow> ins_list base en f rs = rs"
  by (induction rs arbitrary: base) (auto simp: gap_def split: if_splits)

text \<open>The counting round counts, the inserting round inserts.\<close>

lemma add_loop_count:
  "rgns t = pre @ rs \<Longrightarrow>
     bind_run (add_loop False en f t (length pre) base nr) (add_finish False en f) = Inr (t, nr + new_count base en rs)"
proof (induction rs arbitrary: pre base nr)
  case Nil
  then show ?case by (subst add_loop.simps) (simp add: add_finish_def)
next
  case (Cons r rs)
  have nth: "rgns t ! length pre = r" using Cons.prems by (simp add: nth_append)
  have IH: "bind_run (add_loop False en f t (Suc (length pre)) base nr) (add_finish False en f) = Inr (t, nr + new_count base en rs)"
    for base nr using Cons.IH [of "pre @ [r]" base nr] Cons.prems by simp
  show ?case
    using Cons.prems nth by (subst add_loop.simps) (simp add: Let_def IH rg_end_def add_finish_def)
qed

lemma insert_at_prefix:
  assumes "rgns t = pre @ rs" and "length (rgns t) < rmax t"
  shows "memblock_insert_region t (length pre) b s f =
     Inr (t\<lparr>rgns := pre @ \<lparr>rg_base = b, rg_size = s, rg_flags = f\<rparr> # rs, total_size := total_size t + s\<rparr>)"
  using assms by (simp add: memblock_insert_region_def)

lemma add_loop_insert:
  "rgns t = pre @ rs \<Longrightarrow> length (rgns t) + new_count base en rs \<le> rmax t \<Longrightarrow>
     bind_run (add_loop True en f t (length pre) base nr) (add_finish True en f) =
       Inr (t\<lparr>rgns := pre @ ins_list base en f rs,
              total_size := total_size t + szs (ins_list base en f rs) - szs rs\<rparr>, nr + new_count base en rs)"
proof (induction rs arbitrary: t pre base nr)
  case Nil
  then show ?case
    by (subst add_loop.simps) (cases t; auto simp: add_finish_def gap_def memblock_insert_region_def split: if_splits)
next
  case (Cons r rs)
  have nth: "rgns t ! length pre = r" and lt: "length pre < length (rgns t)"
    using Cons.prems(1) by (simp_all add: nth_append)
  have step: "bind_run (add_loop True en f t (Suc (length pre)) base' nr) (add_finish True en f) =
       Inr (t\<lparr>rgns := pre @ r # ins_list base' en f rs,
              total_size := total_size t + szs (ins_list base' en f rs) - szs rs\<rparr>, nr + new_count base' en rs)"
    if "length (rgns t) + new_count base' en rs \<le> rmax t" for base'
    using Cons.IH [of t "pre @ [r]" base' nr] Cons.prems(1) that by simp
  consider "en \<le> rg_base r" | "\<not> en \<le> rg_base r" "rg_end r \<le> base"
    | "\<not> en \<le> rg_base r" "\<not> rg_end r \<le> base" "\<not> base < rg_base r"
    | "\<not> en \<le> rg_base r" "\<not> rg_end r \<le> base" "base < rg_base r"
    by blast
  then show ?case
  proof cases
    case 1
    then show ?thesis
      using Cons.prems nth lt
      by (subst add_loop.simps) (cases t; auto simp: add_finish_def gap_def memblock_insert_region_def split: if_splits)
  next
    case 2
    then show ?thesis using nth lt step [of base] Cons.prems(2)
      by (subst add_loop.simps) (simp add: Let_def rg_end_def)
  next
    case 3
    then show ?thesis using nth lt step [of "min (rg_end r) en"] Cons.prems(2)
      by (subst add_loop.simps) (simp add: Let_def rg_end_def gap_def)
  next
    case 4
    let ?t = "t\<lparr>rgns := pre @ mk_rgn base (rg_base r) f # r # rs, total_size := total_size t + (rg_base r - base)\<rparr>"
    have i: "memblock_insert_region t (length pre) base (rg_base r - base) f = Inr ?t"
      using Cons.prems 4 by (intro insert_at_prefix) auto
    have "bind_run (add_loop True en f ?t (length (pre @ [mk_rgn base (rg_base r) f, r])) (min (rg_end r) en) (Suc nr)) (add_finish True en f) =
       Inr (?t\<lparr>rgns := (pre @ [mk_rgn base (rg_base r) f, r]) @ ins_list (min (rg_end r) en) en f rs,
              total_size := total_size ?t + szs (ins_list (min (rg_end r) en) en f rs) - szs rs\<rparr>,
              Suc nr + new_count (min (rg_end r) en) en rs)"
      using Cons.prems 4 by (intro Cons.IH) auto
    then show ?thesis using nth lt i 4
      by (subst add_loop.simps) (simp add: Let_def rg_end_def gap_def algebra_simps)
  qed
qed

text \<open>The range is filled where nothing was mapped, and the rest of the map is unchanged.\<close>

definition fill :: "phys_addr \<Rightarrow> phys_addr \<Rightarrow> u32 \<Rightarrow> (phys_addr \<Rightarrow> u32 option) \<Rightarrow> phys_addr \<Rightarrow> u32 option" where
  "fill b e f M = (\<lambda>a. if M a = None \<and> b \<le> a \<and> a < e then Some f else M a)"

lemma amap_gap: "amap (gap b e f) a = (if b \<le> a \<and> a < e then Some f else None)"
  by (auto simp: gap_def rg_end_def)

lemma wfl_gap: "wfl e rs \<Longrightarrow> lb \<le> b \<Longrightarrow> lb \<le> e \<Longrightarrow> wfl lb (gap b e f @ rs)"
  by (auto simp: gap_def rg_end_def intro: wfl_mono)

lemma ins_list_wfl:
  "wfl lb rs \<Longrightarrow> lb \<le> base \<or> en \<le> base \<Longrightarrow> wfl lb (ins_list base en f rs)"
proof (induction rs arbitrary: lb base)
  case Nil
  then show ?case by (auto simp: gap_def rg_end_def)
next
  case (Cons r rs)
  have r: "lb \<le> rg_base r" "rg_base r < rg_end r" "wfl (rg_end r) rs" using Cons.prems(1) by simp_all
  have rec: "wfl (rg_end r) (ins_list (min (rg_end r) en) en f rs)"
    by (rule Cons.IH [OF r(3)]) (auto simp: min_def)
  consider "en \<le> rg_base r" | "\<not> en \<le> rg_base r" "rg_end r \<le> base"
    | "\<not> en \<le> rg_base r" "\<not> rg_end r \<le> base"
    by blast
  then show ?case
  proof cases
    case 1
    then show ?thesis using r Cons.prems(2) by (auto simp: gap_def rg_end_def)
  next
    case 2
    then show ?thesis using r Cons.IH [OF r(3)] by auto
  next
    case 3
    have "wfl (rg_base r) (r # ins_list (min (rg_end r) en) en f rs)" using r rec by simp
    then show ?thesis using 3 r Cons.prems(2) by (auto simp: gap_def rg_end_def)
  qed
qed

lemma ins_list_amap:
  "wfl lb rs \<Longrightarrow> amap (ins_list base en f rs) = fill base en f (amap rs)"
proof (induction rs arbitrary: lb base)
  case Nil
  then show ?case by (auto simp: fill_def amap_gap)
next
  case (Cons r rs)
  have r: "rg_base r < rg_end r" "wfl (rg_end r) rs" using Cons.prems by simp_all
  have low: "amap rs a = None" if "a < rg_end r" for a using amap_below [OF r(2) that] .
  note IH = Cons.IH [OF r(2)]
  show ?case
  proof
    fix a
    consider "en \<le> rg_base r" | "\<not> en \<le> rg_base r" "rg_end r \<le> base"
      | "\<not> en \<le> rg_base r" "\<not> rg_end r \<le> base"
      by blast
    then show "amap (ins_list base en f (r # rs)) a = fill base en f (amap (r # rs)) a"
    proof cases
      case 1
      have "amap (r # rs) a = None" if "a < en" using that 1 r(1) low [of a] by auto
      then show ?thesis using 1 by (auto simp: fill_def amap_append amap_gap)
    next
      case 2
      then show ?thesis using r(1) by (auto simp: IH fill_def)
    next
      case 3
      then show ?thesis using r(1) low [of a] by (auto simp: IH fill_def amap_append amap_gap min_def)
    qed
  qed
qed

section \<open>The invariant of an array\<close>

definition tinv :: "memblock_type \<Rightarrow> bool" where
  "tinv t \<longleftrightarrow>
     length (rgns t) \<le> rmax t \<and> total_size t = szs (rgns t) \<and>
     (rgns t = [empty_region] \<or> rgns t \<noteq> [] \<and> wfl 0 (rgns t))"

abbreviation tmap :: "memblock_type \<Rightarrow> phys_addr \<Rightarrow> u32 option" where
  "tmap t \<equiv> amap (rgns t)"

lemma wfl_not_empty: "wfl lb rs \<Longrightarrow> rs \<noteq> [empty_region]"
  by (auto simp: empty_region_def rg_end_def)

lemma tinv_nonempty: "tinv t \<Longrightarrow> rgns t \<noteq> []"
  by (auto simp: tinv_def)

lemma tinv_dummy: "tinv t \<Longrightarrow> rg_size (rgns t ! 0) = 0 \<longleftrightarrow> rgns t = [empty_region]"
  by (cases "rgns t") (auto simp: tinv_def empty_region_def rg_end_def)

lemma tmap_empty: "amap [empty_region] = Map.empty"
  by (auto simp: empty_region_def rg_end_def)

lemma add_insert_ok:
  assumes inv: "tinv t" and ne: "rgns t \<noteq> [empty_region]" and room: "length (rgns t) + new_count base en (rgns t) \<le> rmax t"
  obtains t' where "add_insert base en f t = Inr t'" and "tinv t'" and "rgns t' \<noteq> [empty_region]"
    and "tmap t' = fill base en f (tmap t)" and "rmax t' = rmax t"
    and "minimal (rgns t) \<Longrightarrow> minimal (rgns t')"
proof -
  have w: "wfl 0 (rgns t)" and tot: "total_size t = szs (rgns t)" using inv ne by (auto simp: tinv_def)
  let ?L = "ins_list base en f (rgns t)"
  have wL: "wfl 0 ?L" by (rule ins_list_wfl [OF w]) simp
  have mL: "amap ?L = fill base en f (tmap t)" by (rule ins_list_amap [OF w])
  have neL: "?L \<noteq> []"
    using length_ins_list [of base en f "rgns t"] tinv_nonempty [OF inv] by (cases "?L") auto
  have r: "add_round True base en f t = Inr (t\<lparr>rgns := ?L, total_size := szs ?L\<rparr>, new_count base en (rgns t))"
    using add_loop_insert [of t "[]" "rgns t" base en f 0] room by (simp add: add_round_def tot)
  show ?thesis
  proof (cases "new_count base en (rgns t) = 0")
    case True
    have "?L = rgns t" using True by (rule ins_list_none)
    then show ?thesis using that [of t] r True inv ne mL tot by (simp add: add_insert_def)
  next
    case False
    let ?t = "t\<lparr>rgns := merge_list ?L, total_size := szs ?L\<rparr>"
    have "merge_loop (t\<lparr>rgns := ?L, total_size := szs ?L\<rparr>) (length ([] :: memblock_region list)) = Inr ?t"
      using merge_loop_list [of "t\<lparr>rgns := ?L, total_size := szs ?L\<rparr>" "[]" ?L 0] wL by simp
    then have run: "add_insert base en f t = Inr ?t"
      using r False by (simp add: add_insert_def memblock_merge_regions_def)
    note ok = merge_list_ok [OF wL]
    have "merge_list ?L \<noteq> []" using neL merge_list_head by (metis list.exhaust)
    moreover have "length (merge_list ?L) \<le> rmax t" using ok room length_ins_list [of base en f "rgns t"] by simp
    ultimately have "tinv ?t" using ok by (simp add: tinv_def)
    then show ?thesis
      using that [OF run] ok mL wfl_not_empty [of 0 "merge_list ?L"] merge_list_minimal by simp
  qed
qed

section \<open>Isolating a range\<close>

definition below :: "phys_addr \<Rightarrow> memblock_region \<Rightarrow> memblock_region list" where
  "below b r = gap (rg_base r) (min (rg_end r) b) (rg_flags r)"

definition within :: "phys_addr \<Rightarrow> phys_addr \<Rightarrow> memblock_region \<Rightarrow> memblock_region list" where
  "within b e r = gap (max (rg_base r) b) (min (rg_end r) e) (rg_flags r)"

definition above :: "phys_addr \<Rightarrow> memblock_region \<Rightarrow> memblock_region list" where
  "above e r = gap (max (rg_base r) e) (rg_end r) (rg_flags r)"

definition belows :: "phys_addr \<Rightarrow> memblock_region list \<Rightarrow> memblock_region list" where
  "belows b rs = concat (map (below b) rs)"

definition withins :: "phys_addr \<Rightarrow> phys_addr \<Rightarrow> memblock_region list \<Rightarrow> memblock_region list" where
  "withins b e rs = concat (map (within b e) rs)"

definition aboves :: "phys_addr \<Rightarrow> memblock_region list \<Rightarrow> memblock_region list" where
  "aboves e rs = concat (map (above e) rs)"

lemma pieces_simps [simp]:
  "belows b [] = []" "belows b (r # rs) = below b r @ belows b rs"
  "withins b e [] = []" "withins b e (r # rs) = within b e r @ withins b e rs"
  "aboves e [] = []" "aboves e (r # rs) = above e r @ aboves e rs"
  by (simp_all add: belows_def withins_def aboves_def)

lemma mk_rgn_id [simp]: "mk_rgn (rg_base r) (rg_end r) (rg_flags r) = r"
  by (cases r) (simp add: rg_end_def)

lemma pieces:
  "rg_end r \<le> b \<Longrightarrow> rg_base r < rg_end r \<Longrightarrow> below b r = [r]"
  "b \<le> rg_base r \<Longrightarrow> below b r = []"
  "rg_end r \<le> b \<Longrightarrow> within b e r = []"
  "e \<le> rg_base r \<Longrightarrow> within b e r = []"
  "rg_end r \<le> e \<Longrightarrow> above e r = []"
  "e \<le> rg_base r \<Longrightarrow> rg_base r < rg_end r \<Longrightarrow> above e r = [r]"
  "b \<le> rg_base r \<Longrightarrow> rg_end r \<le> e \<Longrightarrow> rg_base r < rg_end r \<Longrightarrow> within b e r = [r]"
  by (auto simp: below_def within_def above_def gap_def min_def max_def)

lemma pieces_high:
  "wfl lb rs \<Longrightarrow> b \<le> lb \<Longrightarrow> belows b rs = []"
  "wfl lb rs \<Longrightarrow> e \<le> lb \<Longrightarrow> withins b e rs = [] \<and> aboves e rs = rs"
proof (induction rs arbitrary: lb)
  case (Cons r rs)
  {
    case 1
    then have "b \<le> rg_base r" "b \<le> rg_end r" by auto
    then show ?case using 1 Cons.IH(1) [of "rg_end r"] by (simp add: pieces)
  next
    case 2
    then have "e \<le> rg_base r" "e \<le> rg_end r" by auto
    then show ?case using 2 Cons.IH(2) [of "rg_end r"] by (simp add: pieces)
  }
qed simp_all

lemma isolate_stop:
  assumes "rgns t = pre @ rs" and "wfl lb rs" and "en \<le> lb"
  shows "isolate_loop base en t (length pre) st e = Inr (t, st, e)"
proof (cases rs)
  case Nil
  then show ?thesis using assms by (subst isolate_loop.simps) simp
next
  case (Cons r rs')
  then have "en \<le> rg_base r" using assms(2,3) by auto
  then show ?thesis using assms Cons by (subst isolate_loop.simps) (simp add: nth_append)
qed

text \<open>A region that starts inside the range: it is recorded, and cut at the end of the range.\<close>

lemma isolate_inside:
  assumes t: "rgns t = pre @ r # rs" and w: "wfl (rg_end r) rs" and r: "rg_base r < rg_end r"
    and b: "base \<le> rg_base r" and e: "rg_base r < en" and room: "en < rg_end r \<Longrightarrow> length (rgns t) < rmax t"
  shows "isolate_loop base en t (length pre) st en_rgn =
    (if en < rg_end r
     then Inr (t\<lparr>rgns := pre @ within base en r @ above en r @ rs\<rparr>,
               if en_rgn = 0 then length pre else st, Suc (length pre))
     else isolate_loop base en t (Suc (length pre)) (if en_rgn = 0 then length pre else st) (Suc (length pre)))"
proof -
  have nth: "rgns t ! length pre = r" and lt: "length pre < length (rgns t)" using t by (simp_all add: nth_append)
  have nb: "\<not> en \<le> rg_base r" "\<not> rg_base r + rg_size r \<le> base" "\<not> rg_base r < base"
    using b e r by (auto simp: rg_end_def)
  have nb2: "\<not> en \<le> base" using b e by auto
  show ?thesis
  proof (cases "en < rg_end r")
    case False
    then show ?thesis using nth lt nb by (subst isolate_loop.simps) (simp add: Let_def rg_end_def)
  next
    case True
    let ?lo = "mk_rgn (rg_base r) en (rg_flags r)"
      and ?hi = "r\<lparr>rg_base := en, rg_size := rg_size r - (en - rg_base r)\<rparr>"
    have hi: "mk_rgn en (rg_end r) (rg_flags r) = ?hi"
      by (cases r) (simp add: rg_end_def algebra_simps)
    have hi_end: "rg_end ?hi = rg_end r" by (simp add: rg_end_def)
    let ?t = "t\<lparr>rgns := pre @ ?lo # ?hi # rs\<rparr>"
    let ?u = "t\<lparr>rgns := (rgns t)[length pre := ?hi], total_size := total_size t - (en - rg_base r)\<rparr>"
    have i: "memblock_insert_region ?u (length pre) (rg_base r) (en - rg_base r) (rg_flags r) = Inr ?t"
      using t room [OF True] by (simp add: memblock_insert_region_def)
    have "isolate_loop base en t (length pre) st en_rgn = isolate_loop base en ?t (length pre) st en_rgn"
      using nth lt nb True i by (subst isolate_loop.simps) (simp add: Let_def rg_end_def)
    also have "\<dots> = isolate_loop base en ?t (Suc (length pre)) (if en_rgn = 0 then length pre else st) (Suc (length pre))"
      using nb nb2 by (subst isolate_loop.simps) (simp add: Let_def nth_append)
    also have "\<dots> = isolate_loop base en ?t (length (pre @ [?lo])) (if en_rgn = 0 then length pre else st) (Suc (length pre))"
      by simp
    also have "\<dots> = Inr (?t, if en_rgn = 0 then length pre else st, Suc (length pre))"
      using w True hi_end by (intro isolate_stop [where rs = "?hi # rs" and lb = en]) auto
    moreover have "within base en r = [?lo]" "above en r = [?hi]"
      using True b e hi by (auto simp: within_def above_def gap_def min_def max_def)
    ultimately show ?thesis using True by simp
  qed
qed

abbreviation parts :: "phys_addr \<Rightarrow> phys_addr \<Rightarrow> memblock_region list \<Rightarrow> memblock_region list" where
  "parts base en rs \<equiv> belows base rs @ withins base en rs @ aboves en rs"

lemma piece_lengths:
  assumes "rg_base r < rg_end r" and "b < e"
  shows "length (below b r) + length (within b e r) + length (above e r) =
    Suc ((if rg_base r < b \<and> b < rg_end r then 1 else 0) + (if rg_base r < e \<and> e < rg_end r then 1 else 0))"
  using assms by (auto simp: below_def within_def above_def gap_def min_def max_def)

lemma parts_length:
  assumes "wfl lb rs" and "b < e"
  shows "length rs \<le> length (parts b e rs)"
    and "length (parts b e rs) \<le> length rs + (if lb < b then 1 else 0) + (if lb < e then 1 else 0)"
proof -
  have "length rs \<le> length (parts b e rs) \<and>
      length (parts b e rs) \<le> length rs + (if lb < b then 1 else 0) + (if lb < e then 1 else 0)"
    using assms(1)
  proof (induction rs arbitrary: lb)
    case (Cons r rs)
    have r: "lb \<le> rg_base r" "rg_base r < rg_end r" "wfl (rg_end r) rs" using Cons.prems by simp_all
    have e: "length (parts b e (r # rs)) =
        length (below b r) + length (within b e r) + length (above e r) + length (parts b e rs)" by simp
    have x: "(if rg_base r < x \<and> x < rg_end r then 1 else 0) + (if rg_end r < x then 1 else 0) \<le> (if lb < x then 1 else (0 :: nat))"
      for x using r by auto
    show ?case
      unfolding e piece_lengths [OF r(2) assms(2)] list.size
      using Cons.IH [OF r(3)] x [of b] x [of e] by (intro conjI; linarith)
  qed simp
  then show "length rs \<le> length (parts b e rs)"
    and "length (parts b e rs) \<le> length rs + (if lb < b then 1 else 0) + (if lb < e then 1 else 0)"
    by blast+
qed

lemma isolate_loop_parts:
  assumes be: "base < en"
  shows "rgns t = pre @ rs \<Longrightarrow> wfl lb rs \<Longrightarrow> length pre + length (parts base en rs) \<le> rmax t \<Longrightarrow>
    isolate_loop base en t (length pre) st e =
      Inr (t\<lparr>rgns := pre @ parts base en rs\<rparr>,
           if withins base en rs = [] \<or> e \<noteq> 0 then st else length pre + length (belows base rs),
           if withins base en rs = [] then e else length pre + length (belows base rs) + length (withins base en rs))"
proof (induction rs arbitrary: t pre lb st e)
  case Nil
  then show ?case by (subst isolate_loop.simps) (cases t; simp)
next
  case (Cons r rs)
  have nth: "rgns t ! length pre = r" and lt: "length pre < length (rgns t)"
    using Cons.prems(1) by (simp_all add: nth_append)
  have r: "rg_base r < rg_end r" "wfl (rg_end r) rs" using Cons.prems(2) by simp_all
  have inside: "isolate_loop base en t' (length pre') st' e' =
      Inr (t'\<lparr>rgns := pre' @ within base en x @ withins base en rs @ above en x @ aboves en rs\<rparr>,
           if e' \<noteq> 0 then st' else length pre',
           length pre' + length (within base en x) + length (withins base en rs))"
    if t': "rgns t' = pre' @ x # rs" and x: "rg_end x = rg_end r" "base \<le> rg_base x" "rg_base x < en" "rg_base x < rg_end x"
      and room: "length pre' + length (within base en x @ withins base en rs @ above en x @ aboves en rs) \<le> rmax t'"
    for t' pre' x st' e'
  proof -
    have nb: "belows base rs = []" using x by (intro pieces_high(1) [OF r(2)]) auto
    note step = isolate_inside [OF t' _ x(4,2,3), of st' e']
    show ?thesis
    proof (cases "en < rg_end x")
      case True
      then have "withins base en rs = []" "aboves en rs = rs" using x(1) pieces_high(2) [OF r(2), of en] by auto
      moreover have "length (within base en x) = 1" "length (above en x) = 1"
        using x True be by (auto simp: within_def above_def gap_def min_def max_def)
      ultimately show ?thesis using step True t' room r(2) x(1) by simp
    next
      case False
      have rr: "within base en x = [x]" "above en x = []"
        using x False by (simp_all add: pieces not_less)
      have "rgns t' = (pre' @ [x]) @ rs" using t' by simp
      from Cons.IH [OF this r(2), of "if e' = 0 then length pre' else st'" "Suc (length pre')"]
        step False room nb rr r(2) x(1)
      show ?thesis by simp
    qed
  qed
  consider "en \<le> rg_base r" | "\<not> en \<le> rg_base r" "rg_end r \<le> base"
    | "rg_base r < en" "\<not> rg_end r \<le> base" "base \<le> rg_base r"
    | "\<not> en \<le> rg_base r" "base < rg_end r" "rg_base r < base"
    by (meson not_le)
  then show ?case
  proof cases
    case 1
    have "wfl (rg_base r) (r # rs)" using r by simp
    from isolate_stop [OF Cons.prems(1) this 1] pieces_high(1) [OF this, of base] pieces_high(2) [OF this 1] 1 be
    show ?thesis using Cons.prems(1) by (cases t) auto
  next
    case 2
    have "rgns t = (pre @ [r]) @ rs" using Cons.prems(1) by simp
    from Cons.IH [OF this r(2), of st e] 2 r(1) Cons.prems(3) nth lt be
    show ?thesis
      by (subst isolate_loop.simps) (auto simp: Let_def rg_end_def pieces)
  next
    case 3
    have "belows base (r # rs) = []"
      using 3 r by (intro pieces_high(1) [where lb = "rg_base r"]) auto
    then have nb: "below base r = []" "belows base rs = []" by simp_all
    have "within base en r \<noteq> []" using 3 r be by (auto simp: within_def gap_def)
    then show ?thesis
      using inside [OF Cons.prems(1) refl 3(3,1) r(1), of st e] Cons.prems(3) nb by simp
  next
    case 4
    let ?lo = "mk_rgn (rg_base r) base (rg_flags r)"
      and ?hi = "r\<lparr>rg_base := base, rg_size := rg_size r - (base - rg_base r)\<rparr>"
    have hi: "rg_end ?hi = rg_end r" "within base en ?hi = within base en r" "above en ?hi = above en r"
      using 4 be by (auto simp: rg_end_def within_def above_def max_def)
    have lo: "below base r = [?lo]" "belows base rs = []" "within base en r \<noteq> []"
      using 4 be pieces_high(1) [OF r(2), of base] by (auto simp: below_def within_def gap_def min_def max_def)
    have ng: "\<not> en \<le> rg_base r" "\<not> rg_base r + rg_size r \<le> base" using 4 by (simp_all add: rg_end_def not_le)
    let ?t = "t\<lparr>rgns := (pre @ [?lo]) @ ?hi # rs\<rparr>"
    let ?u = "t\<lparr>rgns := (rgns t)[length pre := ?hi], total_size := total_size t - (base - rg_base r)\<rparr>"
    have "length rs + 2 \<le> length (parts base en (r # rs))"
      using parts_length(1) [OF r(2) be] lo by (cases "within base en r") auto
    then have i: "memblock_insert_region ?u (length pre) (rg_base r) (base - rg_base r) (rg_flags r) = Inr ?t"
      using Cons.prems(1,3) by (simp add: memblock_insert_region_def)
    have "isolate_loop base en t (length pre) st e = isolate_loop base en ?t (length (pre @ [?lo])) st e"
      using nth lt 4(3) ng i by (subst isolate_loop.simps) (simp add: Let_def)
    also have "\<dots> = Inr (?t\<lparr>rgns := (pre @ [?lo]) @ within base en ?hi @ withins base en rs @ above en ?hi @ aboves en rs\<rparr>,
         if e \<noteq> 0 then st else length (pre @ [?lo]),
         length (pre @ [?lo]) + length (within base en ?hi) + length (withins base en rs))"
      by (rule inside) (use hi be 4 lo Cons.prems(3) in simp_all)
    finally show ?thesis using hi lo by simp
  qed
qed

section \<open>The parts of a range\<close>

lemma wfl_append:
  "wfl lb xs \<Longrightarrow> \<forall>x\<in>set xs. rg_end x \<le> m \<Longrightarrow> wfl m ys \<Longrightarrow> lb \<le> m \<Longrightarrow> wfl lb (xs @ ys)"
  by (induction xs arbitrary: lb) (auto intro: wfl_mono)

lemma wfl_gap_append:
  "wfl e ys \<Longrightarrow> lb \<le> b \<Longrightarrow> lb \<le> e \<Longrightarrow> wfl lb (gap b e f @ ys)"
  by (auto simp: gap_def rg_end_def intro: wfl_mono)

lemma set_gap: "x \<in> set (gap b e f) \<Longrightarrow> rg_base x = b \<and> rg_end x = e \<and> rg_flags x = f \<and> b < e"
  by (auto simp: gap_def rg_end_def split: if_splits)

lemma wfl_belows: "wfl lb rs \<Longrightarrow> wfl lb (belows b rs) \<and> (\<forall>x\<in>set (belows b rs). rg_end x \<le> b)"
proof (induction rs arbitrary: lb)
  case (Cons r rs)
  then have IH: "wfl (rg_end r) (belows b rs)" "\<forall>x\<in>set (belows b rs). rg_end x \<le> b" and r: "lb \<le> rg_base r" "rg_base r < rg_end r"
    by auto
  have "wfl lb (below b r @ belows b rs)"
  proof (cases "rg_base r < b")
    case True
    then show ?thesis unfolding below_def using IH r by (intro wfl_gap_append wfl_mono [OF IH(1)]) (auto simp: min_def)
  next
    case False
    then show ?thesis using IH r by (auto simp: pieces intro: wfl_mono)
  qed
  then show ?case using IH(2) by (auto simp: below_def dest!: set_gap)
qed simp

lemma wfl_withins:
  "wfl lb rs \<Longrightarrow> wfl (max lb b) (withins b e rs) \<and> (\<forall>x\<in>set (withins b e rs). rg_end x \<le> e)"
proof (induction rs arbitrary: lb)
  case (Cons r rs)
  then have IH: "wfl (max (rg_end r) b) (withins b e rs)" "\<forall>x\<in>set (withins b e rs). rg_end x \<le> e"
    and r: "lb \<le> rg_base r" "rg_base r < rg_end r"
    by auto
  have "wfl (max lb b) (within b e r @ withins b e rs)"
  proof (cases "within b e r = []")
    case True
    then show ?thesis using IH r by (auto intro!: wfl_mono [OF IH(1)] max.mono)
  next
    case False
    then show ?thesis
      unfolding within_def using IH r by (auto simp: gap_def rg_end_def le_max_iff_disj intro!: wfl_mono [OF IH(1)] split: if_splits)
  qed
  then show ?case using IH(2) by (auto simp: within_def dest!: set_gap)
qed simp

lemma wfl_aboves: "wfl lb rs \<Longrightarrow> wfl (max lb e) (aboves e rs)"
proof (induction rs arbitrary: lb)
  case (Cons r rs)
  then have IH: "wfl (max (rg_end r) e) (aboves e rs)" and r: "lb \<le> rg_base r" "rg_base r < rg_end r" by auto
  show ?case
  proof (cases "above e r = []")
    case True
    then show ?thesis using r by (auto intro!: wfl_mono [OF IH] max.mono)
  next
    case False
    then show ?thesis using r by (auto simp: above_def gap_def rg_end_def le_max_iff_disj intro!: wfl_mono [OF IH] split: if_splits)
  qed
qed simp

lemma amap_pieces:
  "amap (belows b rs) a = (if a < b then amap rs a else None)"
  "amap (withins b e rs) a = (if b \<le> a \<and> a < e then amap rs a else None)"
  "amap (aboves e rs) a = (if e \<le> a then amap rs a else None)"
  by (induction rs) (auto simp: amap_append amap_gap below_def within_def above_def)

lemma szs_parts: "wfl lb rs \<Longrightarrow> b < e \<Longrightarrow> szs (parts b e rs) = szs rs"
proof (induction rs arbitrary: lb)
  case (Cons r rs)
  have r: "rg_base r < rg_end r" "wfl (rg_end r) rs" using Cons.prems by simp_all
  have sz: "rg_size r = szs (below b r) + szs (within b e r) + szs (above e r)"
    using r(1) Cons.prems(2)
    by (auto simp: below_def within_def above_def gap_def min_def max_def rg_end_def algebra_simps split: if_splits)
  have IH: "szs rs = szs (parts b e rs)" using Cons.IH [OF r(2) Cons.prems(2)] by simp
  show ?case unfolding szs_simps(2) sz IH by (simp add: algebra_simps)
qed simp

section \<open>Removing a range and changing its flags\<close>

lemma isolate_ok:
  assumes inv: "tinv t" and be: "base < en" and room: "length (rgns t) + 2 \<le> rmax t"
  obtains A I C st e where "isolate_loop base en t 0 0 0 = Inr (t\<lparr>rgns := A @ I @ C\<rparr>, st, e)"
    and "st = length A \<and> e = length A + length I \<or> I = [] \<and> st = 0 \<and> e = 0"
    and "A @ I @ C = [empty_region] \<and> I = [] \<or>
         wfl 0 A \<and> (\<forall>x\<in>set A. rg_end x \<le> base) \<and> wfl base I \<and> (\<forall>x\<in>set I. rg_end x \<le> en) \<and> wfl en C"
    and "szs (A @ I @ C) = szs (rgns t)" and "length (A @ I @ C) \<le> rmax t" and "A @ I @ C \<noteq> []"
    and "amap A = (\<lambda>a. if a < base then tmap t a else None)"
    and "amap I = (\<lambda>a. if base \<le> a \<and> a < en then tmap t a else None)"
    and "amap C = (\<lambda>a. if en \<le> a then tmap t a else None)"
proof (cases "rgns t = [empty_region]")
  case True
  then have "isolate_loop base en t 0 0 0 = Inr (t, 0, 0)"
    using be by (simp add: isolate_loop.simps [of _ _ _ 0] isolate_loop.simps [of _ _ _ "Suc 0"] empty_region_def Let_def)
  then show ?thesis
    using True room by (intro that [of "[]" "[]" "[empty_region]" 0 0])
      (cases t; auto simp: tmap_empty fun_eq_iff)+
next
  case False
  have w: "wfl 0 (rgns t)" and ne: "rgns t \<noteq> []" using inv False by (auto simp: tinv_def)
  have len: "length (rgns t) \<le> length (parts base en (rgns t))" "length (parts base en (rgns t)) \<le> rmax t"
    using parts_length [OF w be] room by (auto split: if_splits)
  note run = isolate_loop_parts [OF be, of t "[]" "rgns t" 0 0 0]
  show ?thesis
  proof (rule that)
    show "isolate_loop base en t 0 0 0 =
      Inr (t\<lparr>rgns := belows base (rgns t) @ withins base en (rgns t) @ aboves en (rgns t)\<rparr>,
           if withins base en (rgns t) = [] then 0 else length (belows base (rgns t)),
           if withins base en (rgns t) = [] then 0 else length (belows base (rgns t)) + length (withins base en (rgns t)))"
      using run w len(2) by simp
    show "parts base en (rgns t) \<noteq> []" using len ne by (cases "parts base en (rgns t)") auto
    show "szs (parts base en (rgns t)) = szs (rgns t)" using w be by (rule szs_parts)
    show "parts base en (rgns t) = [empty_region] \<and> withins base en (rgns t) = [] \<or>
        wfl 0 (belows base (rgns t)) \<and> (\<forall>x\<in>set (belows base (rgns t)). rg_end x \<le> base) \<and>
        wfl base (withins base en (rgns t)) \<and> (\<forall>x\<in>set (withins base en (rgns t)). rg_end x \<le> en) \<and>
        wfl en (aboves en (rgns t))"
      using wfl_belows [OF w, of base] wfl_withins [OF w, of base en] wfl_aboves [OF w, of en]
      by (auto simp: max_def)
  qed (use len(2) in \<open>auto simp: amap_pieces fun_eq_iff\<close>)
qed

lemma remove_regions_mid:
  "rgns t = A @ I @ C \<Longrightarrow>
     remove_regions t (length A) (length A + length I) =
       (if I = [] then t
        else t\<lparr>rgns := (if A @ C = [] then [empty_region] else A @ C), total_size := total_size t - szs I\<rparr>)"
proof (induction I arbitrary: t C rule: rev_induct)
  case Nil
  then show ?case by (simp add: remove_regions_def)
next
  case (snoc x I)
  let ?n = "length A + length I"
  have step: "remove_regions t (length A) (length A + length (I @ [x])) =
      remove_regions (memblock_remove_region t ?n) (length A) ?n"
    by (simp add: remove_regions_def)
  have nth: "rgns t ! ?n = x" and td: "take ?n (rgns t) @ drop (Suc ?n) (rgns t) = A @ I @ C"
    using snoc.prems by (simp_all add: nth_append)
  have rm: "memblock_remove_region t ?n =
      t\<lparr>rgns := (if A @ I @ C = [] then [empty_region] else A @ I @ C), total_size := total_size t - rg_size x\<rparr>"
    unfolding memblock_remove_region_def Let_def td nth by simp
  show ?case
  proof (cases "A @ I @ C = []")
    case True
    then show ?thesis unfolding step rm by (simp add: remove_regions_def)
  next
    case False
    let ?u = "t\<lparr>rgns := A @ I @ C, total_size := total_size t - rg_size x\<rparr>"
    have u: "memblock_remove_region t ?n = ?u" using rm False by simp
    show ?thesis unfolding step u using snoc.IH [of ?u C] False by (auto simp: algebra_simps)
  qed
qed

text \<open>The map without the addresses of a range, and with changed flags on a range.\<close>

definition cut :: "phys_addr \<Rightarrow> phys_addr \<Rightarrow> (phys_addr \<Rightarrow> u32 option) \<Rightarrow> phys_addr \<Rightarrow> u32 option" where
  "cut b e M = (\<lambda>a. if b \<le> a \<and> a < e then None else M a)"

definition update :: "(u32 \<Rightarrow> u32) \<Rightarrow> phys_addr \<Rightarrow> phys_addr \<Rightarrow> (phys_addr \<Rightarrow> u32 option) \<Rightarrow> phys_addr \<Rightarrow> u32 option" where
  "update g b e M = (\<lambda>a. if b \<le> a \<and> a < e then map_option g (M a) else M a)"

lemma isolate_remove_ok:
  assumes inv: "tinv t" and be: "base < en" and room: "length (rgns t) + 2 \<le> rmax t"
  obtains t' where "isolate_remove base en t = Inr t'" and "tinv t'" and "tmap t' = cut base en (tmap t)" and "rmax t' = rmax t"
proof -
  obtain A I C st e where iso: "isolate_loop base en t 0 0 0 = Inr (t\<lparr>rgns := A @ I @ C\<rparr>, st, e)"
    and idx: "st = length A \<and> e = length A + length I \<or> I = [] \<and> st = 0 \<and> e = 0"
    and w: "A @ I @ C = [empty_region] \<and> I = [] \<or>
         wfl 0 A \<and> (\<forall>x\<in>set A. rg_end x \<le> base) \<and> wfl base I \<and> (\<forall>x\<in>set I. rg_end x \<le> en) \<and> wfl en C"
    and sz: "szs (A @ I @ C) = szs (rgns t)" and len: "length (A @ I @ C) \<le> rmax t" and ne: "A @ I @ C \<noteq> []"
    and m: "amap A = (\<lambda>a. if a < base then tmap t a else None)"
      "amap I = (\<lambda>a. if base \<le> a \<and> a < en then tmap t a else None)"
      "amap C = (\<lambda>a. if en \<le> a then tmap t a else None)"
    by (rule isolate_ok [OF inv be room])
  let ?t = "t\<lparr>rgns := (if A @ C = [] then [empty_region] else A @ C), total_size := total_size t - szs I\<rparr>"
  have "remove_regions (t\<lparr>rgns := A @ I @ C\<rparr>) st e = ?t"
    using idx remove_regions_mid [of "t\<lparr>rgns := A @ I @ C\<rparr>" A I C] ne by (auto simp: remove_regions_def)
  then have run: "isolate_remove base en t = Inr ?t" using iso by (simp add: isolate_remove_def)
  have tot: "total_size t - szs I = szs (A @ C)"
    using inv sz by (simp add: tinv_def flip: sz)
  have wAC: "A @ C = [empty_region] \<or> wfl 0 (A @ C)"
    using w be by (auto intro!: wfl_append [of 0 A base] intro: wfl_mono)
  have "1 \<le> rmax t" using len ne by (cases "A @ I @ C") auto
  then have "tinv ?t"
    using tot wAC len by (auto simp: tinv_def empty_region_def)
  moreover have "tmap ?t = cut base en (tmap t)"
  proof
    fix a
    have "amap (A @ C) a = cut base en (tmap t) a"
      unfolding amap_append m cut_def using be by (auto split: option.splits)
    moreover have "tmap ?t a = amap (A @ C) a" by (auto simp: tmap_empty)
    ultimately show "tmap ?t a = cut base en (tmap t) a" by simp
  qed
  ultimately show ?thesis using that [OF run] by simp
qed

lemma map_index_append:
  "map_index_from f i (xs @ ys) = map_index_from f i xs @ map_index_from f (i + length xs) ys"
  by (induction xs arbitrary: i) auto

lemma map_index_const:
  "(\<And>j x. i \<le> j \<Longrightarrow> j < i + length xs \<Longrightarrow> f j x = h x) \<Longrightarrow> map_index_from f i xs = map h xs"
  by (induction xs arbitrary: i) auto

definition flag_op :: "bool \<Rightarrow> u32 \<Rightarrow> u32 \<Rightarrow> u32" where
  "flag_op st flag f = (if st then f OR flag else f AND NOT flag)"

abbreviation reflag :: "bool \<Rightarrow> u32 \<Rightarrow> memblock_region \<Rightarrow> memblock_region" where
  "reflag st flag r \<equiv> r\<lparr>rg_flags := flag_op st flag (rg_flags r)\<rparr>"

lemma setclr_mid:
  assumes "st = length A \<and> e = length A + length I \<or> I = [] \<and> st = 0 \<and> e = 0"
  shows "setclr_regions b flag (t\<lparr>rgns := A @ I @ C\<rparr>) st e = t\<lparr>rgns := A @ map (reflag b flag) I @ C\<rparr>"
proof -
  let ?f = "\<lambda>i r. if st \<le> i \<and> i < e then r\<lparr>rg_flags := (if b then rg_flags r OR flag else rg_flags r AND NOT flag)\<rparr> else r"
  have "map_index_from ?f 0 A = map id A" and "map_index_from ?f (length A) I = map (reflag b flag) I"
    and "map_index_from ?f (length A + length I) C = map id C"
    using assms by (intro map_index_const; auto simp: flag_op_def)+
  then show ?thesis by (simp add: setclr_regions_def map_index_append)
qed

lemma reflag_list [simp]:
  "wfl lb (map (reflag st flag) rs) = wfl lb rs" "szs (map (reflag st flag) rs) = szs rs"
  "amap (map (reflag st flag) rs) a = map_option (flag_op st flag) (amap rs a)"
  by (induction rs arbitrary: lb) (auto simp: rg_end_def)

lemma isolate_setclr_ok:
  assumes inv: "tinv t" and be: "base < en" and room: "length (rgns t) + 2 \<le> rmax t"
  obtains t' where "isolate_setclr st flag base en t = Inr t'" and "tinv t'"
    and "tmap t' = update (flag_op st flag) base en (tmap t)" and "rmax t' = rmax t" and "minimal (rgns t')"
proof -
  obtain A I C s e where iso: "isolate_loop base en t 0 0 0 = Inr (t\<lparr>rgns := A @ I @ C\<rparr>, s, e)"
    and idx: "s = length A \<and> e = length A + length I \<or> I = [] \<and> s = 0 \<and> e = 0"
    and w: "A @ I @ C = [empty_region] \<and> I = [] \<or>
         wfl 0 A \<and> (\<forall>x\<in>set A. rg_end x \<le> base) \<and> wfl base I \<and> (\<forall>x\<in>set I. rg_end x \<le> en) \<and> wfl en C"
    and sz: "szs (A @ I @ C) = szs (rgns t)" and len: "length (A @ I @ C) \<le> rmax t" and ne: "A @ I @ C \<noteq> []"
    and m: "amap A = (\<lambda>a. if a < base then tmap t a else None)"
      "amap I = (\<lambda>a. if base \<le> a \<and> a < en then tmap t a else None)"
      "amap C = (\<lambda>a. if en \<le> a then tmap t a else None)"
    by (rule isolate_ok [OF inv be room])
  let ?L = "A @ map (reflag st flag) I @ C"
  have run: "isolate_setclr st flag base en t = merge_loop (t\<lparr>rgns := ?L\<rparr>) 0"
    using iso setclr_mid [OF idx] by (simp add: isolate_setclr_def memblock_merge_regions_def)
  have mL: "amap ?L = update (flag_op st flag) base en (tmap t)"
    unfolding amap_append reflag_list m update_def using be by (auto simp: fun_eq_iff split: option.splits)
  have szL: "total_size t = szs ?L" using inv sz by (simp add: tinv_def flip: sz)
  show ?thesis
  proof (cases "?L = [empty_region]")
    case True
    then have "merge_loop (t\<lparr>rgns := ?L\<rparr>) 0 = Inr (t\<lparr>rgns := ?L\<rparr>)"
      by (subst merge_loop.simps) simp
    moreover have "1 \<le> rmax t" using len ne by (cases "A @ I @ C") auto
    ultimately show ?thesis
      using that [of "t\<lparr>rgns := ?L\<rparr>"] run mL szL True by (simp add: tinv_def)
  next
    case False
    then have "\<not> (A @ I @ C = [empty_region] \<and> I = [])" by auto
    with w have w': "wfl 0 A" "\<forall>x\<in>set A. rg_end x \<le> base" "wfl base I" "\<forall>x\<in>set I. rg_end x \<le> en" "wfl en C" by blast+
    have "\<forall>x\<in>set (map (reflag st flag) I). rg_end x \<le> en" using w'(4) by (simp add: rg_end_def)
    then have "wfl base (map (reflag st flag) I @ C)"
      by (rule wfl_append [rotated]) (use w'(3,5) be in simp_all)
    then have wL: "wfl 0 ?L" by (rule wfl_append [OF w'(1,2)]) simp
    note ok = merge_list_ok [OF wL]
    have "?L \<noteq> []" using ne by simp
    then have ne': "merge_list ?L \<noteq> []" by (rule merge_list_nonempty)
    have mrg: "merge_loop (t\<lparr>rgns := ?L\<rparr>) 0 = Inr (t\<lparr>rgns := merge_list ?L\<rparr>)"
      using merge_loop_list [of "t\<lparr>rgns := ?L\<rparr>" "[]" ?L 0, OF _ wL] by (simp del: merge_list.simps)
    have "tinv (t\<lparr>rgns := merge_list ?L\<rparr>)"
      using ok ne' szL len by (simp add: tinv_def del: merge_list.simps)
    then show ?thesis
      using that [of "t\<lparr>rgns := merge_list ?L\<rparr>"] run mrg ok mL merge_list_minimal by (simp del: merge_list.simps)
  qed
qed

section \<open>Searching\<close>

lemma wfl_nth_order:
  "wfl lb rs \<Longrightarrow> i < j \<Longrightarrow> j < length rs \<Longrightarrow> rg_end (rs ! i) \<le> rg_base (rs ! j)"
proof (induction rs arbitrary: lb i j)
  case (Cons r rs)
  show ?case
  proof (cases i)
    case 0
    have "rg_end r \<le> rg_base (rs ! k)" if "k < length rs" for k
      using that Cons.prems(1)
    proof (induction k)
      case 0
      then show ?case by (cases rs) auto
    next
      case (Suc k)
      then have "rg_end (rs ! k) \<le> rg_base (rs ! Suc k)" using Cons.IH [of "rg_end r" k "Suc k"] by simp
      moreover have "rg_base (rs ! k) < rg_end (rs ! k)"
      proof -
        have "wfl lb' rs' \<Longrightarrow> k < length rs' \<Longrightarrow> rg_base (rs' ! k) < rg_end (rs' ! k)" for lb' rs' k
          by (induction rs' arbitrary: lb' k) (auto simp: nth_Cons split: nat.splits)
        then show ?thesis using Suc.prems by auto
      qed
      ultimately show ?case using Suc by auto
    qed
    then show ?thesis using 0 Cons.prems(2,3) by (cases j) auto
  next
    case (Suc i')
    then show ?thesis using Cons.IH [of "rg_end r" i' "j - 1"] Cons.prems by (cases j) auto
  qed
qed simp

lemma amap_set:
  "wfl lb rs \<Longrightarrow> amap rs a = Some f \<longleftrightarrow> (\<exists>r\<in>set rs. rg_base r \<le> a \<and> a < rg_end r \<and> rg_flags r = f)"
proof (induction rs arbitrary: lb)
  case (Cons r rs)
  have w: "wfl (rg_end r) rs" using Cons.prems by simp
  have low: "amap rs a = None" if "a < rg_end r" using amap_below [OF w that] .
  show ?case using Cons.IH [OF w] low by (cases "a < rg_end r") auto
qed simp

lemma wfl_nth_less: "wfl lb rs \<Longrightarrow> k < length rs \<Longrightarrow> rg_base (rs ! k) < rg_end (rs ! k)"
  by (induction rs arbitrary: lb k) (auto simp: nth_Cons split: nat.splits)

lemma search_loop_spec:
  "wfl lb rs \<Longrightarrow> right \<le> length rs \<Longrightarrow> left < right \<Longrightarrow>
    (\<forall>i<length rs. rg_base (rs ! i) \<le> a \<and> a < rg_end (rs ! i) \<longrightarrow> left \<le> i \<and> i < right) \<Longrightarrow>
    (case search_loop rs a left right of
       Some i \<Rightarrow> i < length rs \<and> rg_base (rs ! i) \<le> a \<and> a < rg_end (rs ! i)
     | None \<Rightarrow> \<forall>i<length rs. \<not> (rg_base (rs ! i) \<le> a \<and> a < rg_end (rs ! i)))"
proof (induction rs a left right rule: search_loop.induct)
  case (1 rs a left right)
  define mid where "mid = (right + left) div 2"
  have mid: "left \<le> mid" "mid < right" "mid < length rs" using "1.prems"(2,3) by (auto simp: mid_def)
  note IH = "1.IH" [OF mid_def refl]
  have up: "rg_end (rs ! mid) \<le> rg_base (rs ! i)" if "mid < i" "i < length rs" for i
    using wfl_nth_order [OF "1.prems"(1) that] .
  have down: "rg_end (rs ! i) \<le> rg_base (rs ! mid)" if "i < mid" for i
    using wfl_nth_order [OF "1.prems"(1) that mid(3)] .
  have pos: "rg_base (rs ! mid) < rg_end (rs ! mid)" using wfl_nth_less [OF "1.prems"(1) mid(3)] .
  consider "a < rg_base (rs ! mid)" | "\<not> a < rg_base (rs ! mid)" "rg_end (rs ! mid) \<le> a"
    | "\<not> a < rg_base (rs ! mid)" "\<not> rg_end (rs ! mid) \<le> a" by blast
  then show ?case
  proof cases
    case 1
    have h: "\<forall>i<length rs. rg_base (rs ! i) \<le> a \<and> a < rg_end (rs ! i) \<longrightarrow> left \<le> i \<and> i < mid"
    proof (intro allI impI)
      fix i assume i: "i < length rs" "rg_base (rs ! i) \<le> a \<and> a < rg_end (rs ! i)"
      have "\<not> mid < i" using up [of i] i pos 1 by auto
      moreover have "i \<noteq> mid" using i 1 by auto
      ultimately show "left \<le> i \<and> i < mid" using "1.prems"(4) i by auto
    qed
    show ?thesis
    proof (cases "left < mid")
      case True
      then show ?thesis
        using IH(1) [OF 1 True "1.prems"(1) _ True h] mid(3) 1
        by (subst search_loop.simps) (simp add: Let_def flip: mid_def)
    next
      case False
      then show ?thesis using 1 h by (subst search_loop.simps) (auto simp: Let_def simp flip: mid_def)
    qed
  next
    case 2
    have h: "\<forall>i<length rs. rg_base (rs ! i) \<le> a \<and> a < rg_end (rs ! i) \<longrightarrow> Suc mid \<le> i \<and> i < right"
    proof (intro allI impI)
      fix i assume i: "i < length rs" "rg_base (rs ! i) \<le> a \<and> a < rg_end (rs ! i)"
      have "\<not> i < mid" using down [of i] i pos 2 by auto
      moreover have "i \<noteq> mid" using i 2 by auto
      ultimately show "Suc mid \<le> i \<and> i < right" using "1.prems"(4) i by auto
    qed
    have e: "rg_base (rs ! mid) + rg_size (rs ! mid) \<le> a" using 2 by (simp add: rg_end_def)
    show ?thesis
    proof (cases "Suc mid < right")
      case True
      then show ?thesis
        using IH(2) [OF 2(1) e True "1.prems"(1,2) True h] 2 e
        by (subst search_loop.simps) (simp add: Let_def flip: mid_def)
    next
      case False
      then show ?thesis using 2 e h by (subst search_loop.simps) (auto simp: Let_def simp flip: mid_def)
    qed
  next
    case 3
    then have "\<not> rg_base (rs ! mid) + rg_size (rs ! mid) \<le> a" by (simp add: rg_end_def)
    then have "search_loop rs a left right = Some mid"
      using 3(1) by (subst search_loop.simps) (simp add: Let_def flip: mid_def)
    then show ?thesis using 3 mid(3) by (simp add: not_le not_less)
  qed
qed

lemma memblock_search_ok:
  assumes "tinv t"
  shows "case memblock_search t a of
      Some i \<Rightarrow> i < length (rgns t) \<and> rg_base (rgns t ! i) \<le> a \<and> a < rg_end (rgns t ! i) \<and> tmap t a = Some (rg_flags (rgns t ! i))
    | None \<Rightarrow> tmap t a = None"
proof (cases "rgns t = [empty_region]")
  case True
  then show ?thesis
    by (simp add: memblock_search_def search_loop.simps [of _ _ 0 "Suc 0"] empty_region_def rg_end_def)
next
  case False
  then have w: "wfl 0 (rgns t)" and ne: "0 < length (rgns t)" using assms by (auto simp: tinv_def)
  note s = search_loop_spec [OF w order_refl ne, of a]
  show ?thesis
  proof (cases "memblock_search t a")
    case None
    then have "\<not> (rg_base r \<le> a \<and> a < rg_end r)" if "r \<in> set (rgns t)" for r
      using s that by (auto simp: memblock_search_def in_set_conv_nth)
    then have "tmap t a = None" using amap_set [OF w, of a] by (cases "tmap t a") auto
    then show ?thesis using None by simp
  next
    case (Some i)
    then have i: "i < length (rgns t)" "rg_base (rgns t ! i) \<le> a" "a < rg_end (rgns t ! i)"
      using s by (auto simp: memblock_search_def)
    then have "tmap t a = Some (rg_flags (rgns t ! i))" using amap_set [OF w] nth_mem by blast
    then show ?thesis using Some i by simp
  qed
qed

end
