(* ===== verification/Memblock_Find.thy ===== *)
theory Memblock_Find imports Memblock_Refine begin

text \<open>
  Walking the free memory of \<^verbatim>\<open>memblock/src/memblock.c\<close>: \<open>__next_mem_range\<close>, \<open>__next_mem_range_rev\<close>,
  \<open>should_skip_region\<close> and the two searches for a free area.  The iterators step through the pairs of
  a memory region and a gap between reserved regions; their \<^verbatim>\<open>u64\<close> cursor packs two indices, which the
  model keeps as a pair, and \<open>None\<close> is \<^verbatim>\<open>ULLONG_MAX\<close>.  The lists of ranges that \<^verbatim>\<open>for_each_free_mem_range\<close>
  and its reverse visit cover exactly the usable memory that is not reserved.
\<close>

section \<open>Operations\<close>

definition NUMA_NO_NODE :: int where
  "NUMA_NO_NODE = - 1"

definition MAX_NUMNODES :: int where
  "MAX_NUMNODES = 1"

text \<open>The deprecated \<^verbatim>\<open>MAX_NUMNODES\<close> selects every node, after a warning.\<close>

definition any_node :: "int \<Rightarrow> int" where
  "any_node nid = (if nid = MAX_NUMNODES then NUMA_NO_NODE else nid)"

definition memblock_is_mirror :: "memblock_region \<Rightarrow> bool" where
  "memblock_is_mirror m \<longleftrightarrow> rg_flags m AND MEMBLOCK_MIRROR \<noteq> 0"

definition memblock_is_nomap :: "memblock_region \<Rightarrow> bool" where
  "memblock_is_nomap m \<longleftrightarrow> rg_flags m AND MEMBLOCK_NOMAP \<noteq> 0"

text \<open>Every region is on node 0, and \<open>movable_node_is_enabled\<close> is false in this configuration.\<close>

definition should_skip_region :: "memblock_region \<Rightarrow> int \<Rightarrow> u32 \<Rightarrow> bool" where
  "should_skip_region m nid flags \<longleftrightarrow>
     (nid \<noteq> NUMA_NO_NODE \<and> nid \<noteq> 0) \<or>
     (flags AND MEMBLOCK_MIRROR \<noteq> 0 \<and> \<not> memblock_is_mirror m) \<or>
     (flags AND MEMBLOCK_NOMAP = 0 \<and> memblock_is_nomap m)"

text \<open>The area before the reserved region with index \<open>b\<close>.\<close>

definition gap_start :: "memblock_region list \<Rightarrow> nat \<Rightarrow> phys_addr" where
  "gap_start rb b = (if b = 0 then 0 else rg_base (rb ! (b - 1)) + rg_size (rb ! (b - 1)))"

definition gap_end :: "memblock_region list \<Rightarrow> nat \<Rightarrow> phys_addr" where
  "gap_end rb b = (if b < length rb then rg_base (rb ! b) else PHYS_ADDR_MAX)"

function scan_gaps ::
  "memblock_region list \<Rightarrow> phys_addr \<Rightarrow> phys_addr \<Rightarrow> nat \<Rightarrow> nat \<times> (phys_addr \<times> phys_addr) option" where
  "scan_gaps rb m_start m_end b =
     (if b < length rb + 1 then
        (if m_end \<le> gap_start rb b then (b, None)
         else if m_start < gap_end rb b then (b, Some (gap_start rb b, gap_end rb b))
         else scan_gaps rb m_start m_end (Suc b))
      else (b, None))"
  by pat_completeness auto
termination
  by (relation "measure (\<lambda>(rb, s, e, b). length rb + 1 - b)") auto

declare scan_gaps.simps [simp del]

function next_mem_range ::
  "int \<Rightarrow> u32 \<Rightarrow> memblock_region list \<Rightarrow> memblock_region list option \<Rightarrow> nat \<Rightarrow> nat \<Rightarrow>
     (phys_addr \<times> phys_addr \<times> nat \<times> nat) option" where
  "next_mem_range nid flags ra rb a b =
     (if a < length ra then
        (let m = ra ! a; m_start = rg_base m; m_end = rg_base m + rg_size m
         in if should_skip_region m (any_node nid) flags
            then next_mem_range nid flags ra rb (Suc a) b
            else case rb of
              None \<Rightarrow> Some (m_start, m_end, Suc a, b)
            | Some rs \<Rightarrow>
               (case scan_gaps rs m_start m_end b of
                  (b', None) \<Rightarrow> next_mem_range nid flags ra rb (Suc a) b'
                | (b', Some (r_start, r_end)) \<Rightarrow>
                    (if m_end \<le> r_end then Some (max m_start r_start, min m_end r_end, Suc a, b')
                     else Some (max m_start r_start, min m_end r_end, a, Suc b'))))
      else None)"
  by pat_completeness auto
termination
  by (relation "measure (\<lambda>(nid, flags, ra, rb, a, b). length ra - a)") auto

declare next_mem_range.simps [simp del]

lemma scan_gaps_index: "scan_gaps rb s e b = (b', r) \<Longrightarrow> b \<le> b' \<and> (r \<noteq> None \<longrightarrow> b' \<le> length rb)"
proof (induction rb s e b arbitrary: b' r rule: scan_gaps.induct)
  case (1 rb s e b)
  show ?case
    using "1.prems" "1.IH" by (subst (asm) scan_gaps.simps) (fastforce split: if_splits)
qed

lemma next_mem_range_advances:
  "next_mem_range nid flags ra (Some rb) a b = Some (s, e, a', b') \<Longrightarrow>
     a \<le> a' \<and> b \<le> b' \<and> a + b < a' + b' \<and> a' \<le> length ra \<and> b' \<le> Suc (length rb)"
proof (induction "length ra - a" arbitrary: a b rule: less_induct)
  case less
  show ?case
  proof (cases "a < length ra")
    case False
    then show ?thesis using less.prems by (subst (asm) next_mem_range.simps) simp
  next
    case True
    let ?m = "ra ! a"
    obtain b1 g where sc: "scan_gaps rb (rg_base ?m) (rg_base ?m + rg_size ?m) b = (b1, g)" by fastforce
    note ix = scan_gaps_index [OF sc]
    have IH: "Suc a \<le> a' \<and> b2 \<le> b' \<and> a' \<le> length ra \<and> b' \<le> Suc (length rb)"
      if "next_mem_range nid flags ra (Some rb) (Suc a) b2 = Some (s, e, a', b')" for b2
      using less.hyps [OF _ that] True by auto
    show ?thesis
      using less.prems IH [of b] IH [of b1] True sc ix
      by (subst (asm) next_mem_range.simps) (auto simp: Let_def split: option.splits if_splits)
  qed
qed

text \<open>The ranges that \<^verbatim>\<open>for_each_mem_range\<close> visits from a cursor on.\<close>

function mem_ranges ::
  "int \<Rightarrow> u32 \<Rightarrow> memblock_region list \<Rightarrow> memblock_region list \<Rightarrow> nat \<Rightarrow> nat \<Rightarrow> (phys_addr \<times> phys_addr) list" where
  "mem_ranges nid flags ra rb a b =
     (case next_mem_range nid flags ra (Some rb) a b of
        None \<Rightarrow> []
      | Some (s, e, a', b') \<Rightarrow> (s, e) # mem_ranges nid flags ra rb a' b')"
  by pat_completeness auto
termination
  by (relation "measure (\<lambda>(nid, flags, ra, rb, a, b). (length ra + length rb + 1) - (a + b))")
    (auto dest!: next_mem_range_advances)

declare mem_ranges.simps [simp del]

function scan_gaps_rev ::
  "memblock_region list \<Rightarrow> phys_addr \<Rightarrow> phys_addr \<Rightarrow> int \<Rightarrow> int \<times> (phys_addr \<times> phys_addr) option" where
  "scan_gaps_rev rb m_start m_end b =
     (if 0 \<le> b then
        (if gap_end rb (nat b) \<le> m_start then (b, None)
         else if gap_start rb (nat b) < m_end then (b, Some (gap_start rb (nat b), gap_end rb (nat b)))
         else scan_gaps_rev rb m_start m_end (b - 1))
      else (b, None))"
  by pat_completeness auto
termination
  by (relation "measure (\<lambda>(rb, s, e, b). nat (b + 1))") auto

declare scan_gaps_rev.simps [simp del]

function rev_range_loop ::
  "int \<Rightarrow> u32 \<Rightarrow> memblock_region list \<Rightarrow> memblock_region list option \<Rightarrow> int \<Rightarrow> int \<Rightarrow>
     (phys_addr \<times> phys_addr \<times> int \<times> int) option" where
  "rev_range_loop nid flags ra rb a b =
     (if 0 \<le> a then
        (let m = ra ! nat a; m_start = rg_base m; m_end = rg_base m + rg_size m
         in if should_skip_region m (any_node nid) flags
            then rev_range_loop nid flags ra rb (a - 1) b
            else case rb of
              None \<Rightarrow> Some (m_start, m_end, a - 1, b)
            | Some rs \<Rightarrow>
               (case scan_gaps_rev rs m_start m_end b of
                  (b', None) \<Rightarrow> rev_range_loop nid flags ra rb (a - 1) b'
                | (b', Some (r_start, r_end)) \<Rightarrow>
                    (if r_start \<le> m_start then Some (max m_start r_start, min m_end r_end, a - 1, b')
                     else Some (max m_start r_start, min m_end r_end, a, b' - 1))))
      else None)"
  by pat_completeness auto
termination
  by (relation "measure (\<lambda>(nid, flags, ra, rb, a, b). nat (a + 1))") auto

declare rev_range_loop.simps [simp del]

definition next_mem_range_rev ::
  "int \<Rightarrow> u32 \<Rightarrow> memblock_region list \<Rightarrow> memblock_region list option \<Rightarrow> (int \<times> int) option \<Rightarrow>
     (phys_addr \<times> phys_addr \<times> int \<times> int) option" where
  "next_mem_range_rev nid flags ra rb idx =
     (case idx of
        None \<Rightarrow> rev_range_loop nid flags ra rb (int (length ra) - 1)
                  (case rb of None \<Rightarrow> 0 | Some rs \<Rightarrow> int (length rs))
      | Some (a, b) \<Rightarrow> rev_range_loop nid flags ra rb a b)"

lemma scan_gaps_rev_index: "scan_gaps_rev rb s e b = (b', r) \<Longrightarrow> b' \<le> b \<and> (r \<noteq> None \<longrightarrow> 0 \<le> b')"
proof (induction rb s e b arbitrary: b' r rule: scan_gaps_rev.induct)
  case (1 rb s e b)
  show ?case
    using "1.prems" "1.IH" by (subst (asm) scan_gaps_rev.simps) (fastforce split: if_splits)
qed

lemma rev_range_loop_goes_down:
  "rev_range_loop nid flags ra (Some rb) a b = Some (s, e, a', b') \<Longrightarrow>
     a' \<le> a \<and> b' \<le> b \<and> a' + b' < a + b \<and> - 1 \<le> a' \<and> - 1 \<le> b'"
proof (induction "nat (a + 1)" arbitrary: a b rule: less_induct)
  case less
  show ?case
  proof (cases "0 \<le> a")
    case False
    then show ?thesis using less.prems by (subst (asm) rev_range_loop.simps) simp
  next
    case True
    let ?m = "ra ! nat a"
    obtain b1 g where sc: "scan_gaps_rev rb (rg_base ?m) (rg_base ?m + rg_size ?m) b = (b1, g)" by fastforce
    note ix = scan_gaps_rev_index [OF sc]
    have IH: "a' \<le> a - 1 \<and> b' \<le> b2 \<and> - 1 \<le> a' \<and> - 1 \<le> b'"
      if "rev_range_loop nid flags ra (Some rb) (a - 1) b2 = Some (s, e, a', b')" for b2
      using less.hyps [OF _ that] True by auto
    show ?thesis
      using less.prems IH [of b] IH [of b1] True sc ix
      by (subst (asm) rev_range_loop.simps) (auto simp: Let_def split: option.splits if_splits)
  qed
qed

text \<open>The ranges that \<^verbatim>\<open>for_each_mem_range_rev\<close> visits from a cursor on.\<close>

function rev_ranges ::
  "int \<Rightarrow> u32 \<Rightarrow> memblock_region list \<Rightarrow> memblock_region list \<Rightarrow> (int \<times> int) option \<Rightarrow>
     (phys_addr \<times> phys_addr) list" where
  "rev_ranges nid flags ra rb idx =
     (case next_mem_range_rev nid flags ra (Some rb) idx of
        None \<Rightarrow> []
      | Some (s, e, a', b') \<Rightarrow> (s, e) # rev_ranges nid flags ra rb (Some (a', b')))"
  by pat_completeness auto
termination
proof (relation "measure (\<lambda>(nid, flags, ra, rb, idx).
    case idx of None \<Rightarrow> length ra + length rb + 2 | Some (a, b) \<Rightarrow> nat (a + b + 2))", goal_cases)
  case 1
  show ?case by simp
next
  case (2 nid flags ra rb idx)
  then show ?case
    by (cases idx) (auto simp: next_mem_range_rev_def dest!: rev_range_loop_goes_down)
qed

declare rev_ranges.simps [simp del]

definition clamp :: "phys_addr \<Rightarrow> phys_addr \<Rightarrow> phys_addr \<Rightarrow> phys_addr" where
  "clamp v lo hi = min (max v lo) hi"

definition round_up :: "phys_addr \<Rightarrow> phys_addr \<Rightarrow> phys_addr" where
  "round_up x y = ((x - 1) OR (y - 1)) + 1"

definition round_down :: "phys_addr \<Rightarrow> phys_addr \<Rightarrow> phys_addr" where
  "round_down x y = x AND NOT (y - 1)"

fun find_up :: "phys_addr \<Rightarrow> phys_addr \<Rightarrow> phys_addr \<Rightarrow> phys_addr \<Rightarrow> (phys_addr \<times> phys_addr) list \<Rightarrow> phys_addr" where
  "find_up start en sz align [] = 0"
| "find_up start en sz align ((s, e) # ranges) =
     (let this_start = clamp s start en; this_end = clamp e start en; cand = round_up this_start align
      in if cand < this_end \<and> sz \<le> this_end - cand then cand else find_up start en sz align ranges)"

fun find_down :: "phys_addr \<Rightarrow> phys_addr \<Rightarrow> phys_addr \<Rightarrow> phys_addr \<Rightarrow> (phys_addr \<times> phys_addr) list \<Rightarrow> phys_addr" where
  "find_down start en sz align [] = 0"
| "find_down start en sz align ((s, e) # ranges) =
     (let this_start = clamp s start en; this_end = clamp e start en
      in if this_end < sz then find_down start en sz align ranges
         else
           (let cand = round_down (this_end - sz) align
            in if this_start \<le> cand then cand else find_down start en sz align ranges))"

definition memblock_find_range_bottom_up ::
  "memblock_region list \<Rightarrow> memblock_region list \<Rightarrow> phys_addr \<Rightarrow> phys_addr \<Rightarrow> phys_addr \<Rightarrow> phys_addr \<Rightarrow> int \<Rightarrow> u32 \<Rightarrow>
     phys_addr" where
  "memblock_find_range_bottom_up ra rb start en sz align nid flags =
     find_up start en sz align (mem_ranges nid flags ra rb 0 0)"

definition memblock_find_range_top_down ::
  "memblock_region list \<Rightarrow> memblock_region list \<Rightarrow> phys_addr \<Rightarrow> phys_addr \<Rightarrow> phys_addr \<Rightarrow> phys_addr \<Rightarrow> int \<Rightarrow> u32 \<Rightarrow>
     phys_addr" where
  "memblock_find_range_top_down ra rb start en sz align nid flags =
     find_down start en sz align (rev_ranges nid flags ra rb None)"

section \<open>The ranges cover the free memory\<close>

text \<open>Rows of intervals that follow each other.\<close>

definition rows :: "(nat \<Rightarrow> phys_addr) \<Rightarrow> (nat \<Rightarrow> phys_addr) \<Rightarrow> nat \<Rightarrow> bool" where
  "rows lo hi n \<longleftrightarrow> (\<forall>i<n. lo i \<le> hi i) \<and> (\<forall>i j. i < j \<longrightarrow> j < n \<longrightarrow> hi i \<le> lo j)"

definition listed :: "memblock_region list \<Rightarrow> bool" where
  "listed rs \<longleftrightarrow> rs = [empty_region] \<or> rs \<noteq> [] \<and> wfl 0 rs"

lemma listed_rows:
  assumes "listed rs"
  shows "rows (\<lambda>i. rg_base (rs ! i)) (\<lambda>i. rg_end (rs ! i)) (length rs)"
  using assms unfolding listed_def
proof
  assume "rs = [empty_region]"
  then show ?thesis by (simp add: rows_def empty_region_def rg_end_def)
next
  assume w: "rs \<noteq> [] \<and> wfl 0 rs"
  then show ?thesis using wfl_nth_order wfl_nth_less unfolding rows_def by (metis order.strict_implies_order)
qed

lemma gap_start_Suc: "gap_start rb (Suc b) = rg_end (rb ! b)"
  by (simp add: gap_start_def rg_end_def)

lemma PHYS_ADDR_MAX_ge [simp]: "a \<le> PHYS_ADDR_MAX"
  by (simp add: PHYS_ADDR_MAX_def)

lemma gap_rows:
  assumes "listed rb"
  shows "rows (gap_start rb) (gap_end rb) (Suc (length rb))"
proof -
  note r = listed_rows [OF assms, unfolded rows_def]
  have lo: "gap_start rb i \<le> gap_end rb i" if "i < Suc (length rb)" for i
  proof (cases i)
    case 0
    then show ?thesis by (simp add: gap_start_def)
  next
    case (Suc k)
    then have "rg_end (rb ! k) \<le> rg_base (rb ! i)" if "i < length rb" using r that by auto
    then show ?thesis using Suc by (auto simp: gap_start_Suc gap_end_def)
  qed
  moreover have "gap_end rb i \<le> gap_start rb j" if ij: "i < j" "j < Suc (length rb)" for i j
  proof -
    obtain k where k: "j = Suc k" using ij by (cases j) auto
    have "rg_base (rb ! i) \<le> rg_end (rb ! i)" using r ij by auto
    moreover have "rg_end (rb ! i) \<le> rg_base (rb ! k)" "rg_base (rb ! k) \<le> rg_end (rb ! k)" if "i \<noteq> k"
      using r that ij k by auto
    ultimately have "rg_base (rb ! i) \<le> rg_end (rb ! k)" by (cases "i = k") auto
    then show ?thesis using ij k by (simp add: gap_start_Suc gap_end_def)
  qed
  ultimately show ?thesis by (simp add: rows_def)
qed

definition cell :: "(memblock_region \<Rightarrow> bool) \<Rightarrow> memblock_region list \<Rightarrow> memblock_region list \<Rightarrow> nat \<Rightarrow> nat \<Rightarrow> phys_addr set" where
  "cell sk ra rb i j =
     {x. i < length ra \<and> j < Suc (length rb) \<and> \<not> sk (ra ! i) \<and> rg_base (ra ! i) \<le> x \<and> x < rg_end (ra ! i) \<and>
         gap_start rb j \<le> x \<and> x < gap_end rb j}"

definition cover :: "(memblock_region \<Rightarrow> bool) \<Rightarrow> memblock_region list \<Rightarrow> memblock_region list \<Rightarrow> nat set \<Rightarrow> nat set \<Rightarrow> phys_addr set" where
  "cover sk ra rb I J = (\<Union>i\<in>I. \<Union>j\<in>J. cell sk ra rb i j)"

lemma cover_Un:
  "cover sk ra rb (I \<union> I') J = cover sk ra rb I J \<union> cover sk ra rb I' J"
  "cover sk ra rb I (J \<union> J') = cover sk ra rb I J \<union> cover sk ra rb I J'"
  by (auto simp: cover_def)

lemma cover_emptyI: "(\<And>i j. i \<in> I \<Longrightarrow> j \<in> J \<Longrightarrow> cell sk ra rb i j = {}) \<Longrightarrow> cover sk ra rb I J = {}"
  by (auto simp: cover_def)

lemma cover_skip: "length ra \<le> i \<or> sk (ra ! i) \<Longrightarrow> cover sk ra rb {i} J = {}"
  by (auto simp: cover_def cell_def)

text \<open>A region and a gap that do not meet, and what follows for later regions and gaps.\<close>

lemma cell_empty:
  assumes "listed ra" and "listed rb"
  shows "i' \<le> i \<Longrightarrow> gap_end rb j \<le> rg_base (ra ! i') \<Longrightarrow> cell sk ra rb i j = {}"
    and "i \<le> i' \<Longrightarrow> i' < length ra \<Longrightarrow> rg_end (ra ! i') \<le> gap_start rb j \<Longrightarrow> cell sk ra rb i j = {}"
    and "j' \<le> j \<Longrightarrow> rg_end (ra ! i) \<le> gap_start rb j' \<Longrightarrow> cell sk ra rb i j = {}"
    and "j \<le> j' \<Longrightarrow> j' < Suc (length rb) \<Longrightarrow> gap_end rb j' \<le> rg_base (ra ! i) \<Longrightarrow> cell sk ra rb i j = {}"
proof -
  note R = listed_rows [OF assms(1), unfolded rows_def] and G = gap_rows [OF assms(2), unfolded rows_def]
  have base: "rg_base (ra ! k) \<le> rg_base (ra ! l)" if "k \<le> l" "l < length ra" for k l
    using R that by (cases "k = l") (auto intro: order_trans [of _ "rg_end (ra ! k)"])
  have up: "rg_end (ra ! k) \<le> rg_end (ra ! l)" if "k \<le> l" "l < length ra" for k l
    using R that by (cases "k = l") (auto intro: order_trans [of _ "rg_base (ra ! l)"])
  have gs: "gap_start rb k \<le> gap_start rb l" if "k \<le> l" "l < Suc (length rb)" for k l
    using G that by (cases "k = l") (auto intro: order_trans [of _ "gap_end rb k"])
  have ge: "gap_end rb k \<le> gap_end rb l" if "k \<le> l" "l < Suc (length rb)" for k l
    using G that by (cases "k = l") (auto intro: order_trans [of _ "gap_start rb l"])
  show "i' \<le> i \<Longrightarrow> gap_end rb j \<le> rg_base (ra ! i') \<Longrightarrow> cell sk ra rb i j = {}"
    using base [of i' i] by (fastforce simp: cell_def)
  show "i \<le> i' \<Longrightarrow> i' < length ra \<Longrightarrow> rg_end (ra ! i') \<le> gap_start rb j \<Longrightarrow> cell sk ra rb i j = {}"
    using up [of i i'] by (fastforce simp: cell_def)
  show "j' \<le> j \<Longrightarrow> rg_end (ra ! i) \<le> gap_start rb j' \<Longrightarrow> cell sk ra rb i j = {}"
    using gs [of j' j] by (fastforce simp: cell_def)
  show "j \<le> j' \<Longrightarrow> j' < Suc (length rb) \<Longrightarrow> gap_end rb j' \<le> rg_base (ra ! i) \<Longrightarrow> cell sk ra rb i j = {}"
    using ge [of j j'] by (fastforce simp: cell_def)
qed

lemma cell_range:
  assumes "i < length ra" and "j < Suc (length rb)" and "\<not> sk (ra ! i)"
  shows "cell sk ra rb i j = {max (rg_base (ra ! i)) (gap_start rb j)..<min (rg_end (ra ! i)) (gap_end rb j)}"
  using assms by (auto simp: cell_def)

lemma scan_gaps_spec:
  assumes "scan_gaps rb s e b = (b', r)"
  shows "\<forall>j. b \<le> j \<and> j < b' \<longrightarrow> gap_end rb j \<le> s"
    and "r = None \<Longrightarrow> length rb < b' \<or> e \<le> gap_start rb b'"
    and "r = Some (gs, ge) \<Longrightarrow> b' \<le> length rb \<and> gs = gap_start rb b' \<and> ge = gap_end rb b' \<and> gs < e \<and> s < ge"
proof -
  have "(\<forall>j. b \<le> j \<and> j < b' \<longrightarrow> gap_end rb j \<le> s) \<and>
      (case r of None \<Rightarrow> length rb < b' \<or> e \<le> gap_start rb b'
       | Some (gs, ge) \<Rightarrow> b' \<le> length rb \<and> gs = gap_start rb b' \<and> ge = gap_end rb b' \<and> gs < e \<and> s < ge)"
    using assms
  proof (induction rb s e b rule: scan_gaps.induct)
    case (1 rb s e b)
    have "b = j \<or> Suc b \<le> j" if "b \<le> j" for j using that by auto
    then show ?case
      using "1.prems" "1.IH" by (subst (asm) scan_gaps.simps) (auto split: if_splits simp: not_le not_less)
  qed
  then show "\<forall>j. b \<le> j \<and> j < b' \<longrightarrow> gap_end rb j \<le> s"
    and "r = None \<Longrightarrow> length rb < b' \<or> e \<le> gap_start rb b'"
    and "r = Some (gs, ge) \<Longrightarrow> b' \<le> length rb \<and> gs = gap_start rb b' \<and> ge = gap_end rb b' \<and> gs < e \<and> s < ge"
    by auto
qed

abbreviation skips :: "int \<Rightarrow> u32 \<Rightarrow> memblock_region \<Rightarrow> bool" where
  "skips nid flags m \<equiv> should_skip_region m (any_node nid) flags"

lemma atLeast_Suc_split: "{n..} = {n} \<union> {Suc n..}"
  by auto

lemma next_mem_range_cover:
  assumes la: "listed ra" and lb: "listed rb"
  shows "case next_mem_range nid flags ra (Some rb) a b of
      None \<Rightarrow> cover (skips nid flags) ra rb {a..} {b..} = {}
    | Some (s, e, a', b') \<Rightarrow>
        cover (skips nid flags) ra rb {a..} {b..} = {s..<e} \<union> cover (skips nid flags) ra rb {a'..} {b'..}"
proof (induction "length ra - a" arbitrary: a b rule: less_induct)
  case less
  let ?C = "cover (skips nid flags) ra rb"
  show ?case
  proof (cases "a < length ra")
    case False
    then have "?C {a..} {b..} = {}" by (intro cover_emptyI) (auto simp: cell_def)
    then show ?thesis using False by (subst next_mem_range.simps) simp
  next
    case True
    let ?m = "ra ! a"
    have IH: "case next_mem_range nid flags ra (Some rb) (Suc a) b2 of
        None \<Rightarrow> ?C {Suc a..} {b2..} = {}
      | Some (s, e, a', b') \<Rightarrow> ?C {Suc a..} {b2..} = {s..<e} \<union> ?C {a'..} {b'..}" for b2
      using less [of "Suc a" b2] True by simp
    have rowa: "?C {a..} J = ?C {a} J \<union> ?C {Suc a..} J" for J
      unfolding atLeast_Suc_split [of a] by (rule cover_Un)
    show ?thesis
    proof (cases "skips nid flags ?m")
      case T: True
      then have eq: "?C {a..} {b..} = ?C {Suc a..} {b..}" using rowa cover_skip [of ra a "skips nid flags"] by simp
      show ?thesis unfolding eq using IH [of b] True T by (subst next_mem_range.simps) (simp add: Let_def)
    next
      case F: False
      obtain b1 g where sc: "scan_gaps rb (rg_base ?m) (rg_end ?m) b = (b1, g)" by fastforce
      have b1: "b \<le> b1" using scan_gaps_index [OF sc] by simp
      have "?C {a..} {b..<b1} = {}"
        using scan_gaps_spec(1) [OF sc] by (intro cover_emptyI cell_empty(1) [OF la lb, of a]) auto
      moreover have "{b..} = {b..<b1} \<union> {b1..}" using b1 by auto
      ultimately have col: "?C {a..} {b..} = ?C {a..} {b1..}" using cover_Un(2) by simp
      show ?thesis
      proof (cases g)
        case None
        have "?C {a} {b1..} = {}"
        proof (cases "length rb < b1")
          case False
          then have "rg_end ?m \<le> gap_start rb b1" using scan_gaps_spec(2) [OF sc None] by simp
          then show ?thesis by (intro cover_emptyI cell_empty(3) [OF la lb, of b1]) simp_all
        qed (auto simp: cover_def cell_def)
        then have eq: "?C {a..} {b..} = ?C {Suc a..} {b1..}" using col rowa by simp
        show ?thesis
          unfolding eq using IH [of b1] True F None sc by (subst next_mem_range.simps) (simp add: Let_def rg_end_def)
      next
        case (Some p)
        obtain gs ge where p: "g = Some (gs, ge)" using Some by (cases p) auto
        note g = scan_gaps_spec(3) [OF sc p]
        have cb: "?C {a} {b1} = {max (rg_base ?m) gs..<min (rg_end ?m) ge}"
          using cell_range [of a ra b1 rb "skips nid flags"] True F g by (simp add: cover_def)
        have colb: "?C I {b1..} = ?C I {b1} \<union> ?C I {Suc b1..}" for I
          unfolding atLeast_Suc_split [of b1] by (rule cover_Un)
        show ?thesis
        proof (cases "rg_end ?m \<le> ge")
          case le: True
          have "?C {a} {Suc b1..} = {}"
          proof (intro cover_emptyI)
            fix i j assume "i \<in> {a}" "j \<in> {Suc b1..}"
            then have "b1 < j" "i = a" by auto
            moreover have "ge \<le> gap_start rb j" if "j < Suc (length rb)"
              using gap_rows [OF lb] that g \<open>b1 < j\<close> by (auto simp: rows_def)
            ultimately show "cell (skips nid flags) ra rb i j = {}" using le by (fastforce simp: cell_def)
          qed
          then have "?C {a..} {b..} = {max (rg_base ?m) gs..<min (rg_end ?m) ge} \<union> ?C {Suc a..} {b1..}"
            using col rowa colb cb by auto
          then show ?thesis
            using True F p sc le by (subst next_mem_range.simps) (simp add: Let_def rg_end_def)
        next
          case gt: False
          have "?C {Suc a..} {b1} = {}"
          proof (intro cover_emptyI)
            fix i j assume "i \<in> {Suc a..}" "j \<in> {b1}"
            then have "a < i" "j = b1" by auto
            moreover have "rg_end ?m \<le> rg_base (ra ! i)" if "i < length ra"
              using listed_rows [OF la] that \<open>a < i\<close> by (auto simp: rows_def)
            ultimately show "cell (skips nid flags) ra rb i j = {}" using gt g by (fastforce simp: cell_def)
          qed
          then have "?C {a..} {b..} = {max (rg_base ?m) gs..<min (rg_end ?m) ge} \<union> ?C {a..} {Suc b1..}"
            using col rowa [of "{b1}"] colb [of "{a..}"] cb by auto
          then show ?thesis
            using True F p sc gt by (subst next_mem_range.simps) (simp add: Let_def rg_end_def)
        qed
      qed
    qed
  qed
qed

lemma mem_ranges_cover:
  "listed ra \<Longrightarrow> listed rb \<Longrightarrow> (\<Union>(s, e)\<in>set (mem_ranges nid flags ra rb a b). {s..<e}) = cover (skips nid flags) ra rb {a..} {b..}"
proof (induction nid flags ra rb a b rule: mem_ranges.induct)
  case (1 nid flags ra rb a b)
  show ?case
  proof (cases "next_mem_range nid flags ra (Some rb) a b")
    case None
    then show ?thesis
      using next_mem_range_cover [OF "1.prems", of nid flags a b] by (subst mem_ranges.simps) simp
  next
    case (Some p)
    then obtain s e a' b' where p: "next_mem_range nid flags ra (Some rb) a b = Some (s, e, a', b')"
      by (cases p) auto
    note IH = "1.IH" [OF p refl refl refl "1.prems"]
    have "cover (skips nid flags) ra rb {a..} {b..} = {s..<e} \<union> cover (skips nid flags) ra rb {a'..} {b'..}"
      using next_mem_range_cover [OF "1.prems", of nid flags a b] p by simp
    then show ?thesis using p IH by (subst mem_ranges.simps) simp
  qed
qed


lemma scan_gaps_rev_spec:
  assumes "scan_gaps_rev rb s e b = (b', r)"
  shows "\<forall>j. b' < int j \<and> int j \<le> b \<longrightarrow> e \<le> gap_start rb j"
    and "r = None \<Longrightarrow> b' < 0 \<or> gap_end rb (nat b') \<le> s"
    and "r = Some (gs, ge) \<Longrightarrow> 0 \<le> b' \<and> gs = gap_start rb (nat b') \<and> ge = gap_end rb (nat b') \<and> gs < e \<and> s < ge"
proof -
  have "(\<forall>j. b' < int j \<and> int j \<le> b \<longrightarrow> e \<le> gap_start rb j) \<and>
      (case r of None \<Rightarrow> b' < 0 \<or> gap_end rb (nat b') \<le> s
       | Some (gs, ge) \<Rightarrow> 0 \<le> b' \<and> gs = gap_start rb (nat b') \<and> ge = gap_end rb (nat b') \<and> gs < e \<and> s < ge)"
    using assms
  proof (induction rb s e b rule: scan_gaps_rev.induct)
    case (1 rb s e b)
    have "nat b = j \<or> int j \<le> b - 1" if "int j \<le> b" for j using that by auto
    then show ?case
      using "1.prems" "1.IH" by (subst (asm) scan_gaps_rev.simps) (fastforce split: if_splits simp: not_le not_less)
  qed
  then show "\<forall>j. b' < int j \<and> int j \<le> b \<longrightarrow> e \<le> gap_start rb j"
    and "r = None \<Longrightarrow> b' < 0 \<or> gap_end rb (nat b') \<le> s"
    and "r = Some (gs, ge) \<Longrightarrow> 0 \<le> b' \<and> gs = gap_start rb (nat b') \<and> ge = gap_end rb (nat b') \<and> gs < e \<and> s < ge"
    by auto
qed

definition idx_upto :: "int \<Rightarrow> nat set" where
  "idx_upto a = {i. int i \<le> a}"

lemma idx_upto_split: "0 \<le> a \<Longrightarrow> idx_upto a = {nat a} \<union> idx_upto (a - 1)"
  by (auto simp: idx_upto_def)

lemma rev_range_loop_cover:
  assumes la: "listed ra" and lb: "listed rb"
  shows "a < int (length ra) \<Longrightarrow> b \<le> int (length rb) \<Longrightarrow> case rev_range_loop nid flags ra (Some rb) a b of
      None \<Rightarrow> cover (skips nid flags) ra rb (idx_upto a) (idx_upto b) = {}
    | Some (s, e, a', b') \<Rightarrow>
        cover (skips nid flags) ra rb (idx_upto a) (idx_upto b) = {s..<e} \<union> cover (skips nid flags) ra rb (idx_upto a') (idx_upto b')"
proof (induction "nat (a + 1)" arbitrary: a b rule: less_induct)
  case less
  let ?C = "cover (skips nid flags) ra rb"
  show ?case
  proof (cases "0 \<le> a")
    case False
    then have "?C (idx_upto a) (idx_upto b) = {}" by (intro cover_emptyI) (auto simp: idx_upto_def)
    then show ?thesis using False by (subst rev_range_loop.simps) simp
  next
    case True
    let ?a = "nat a"
    let ?m = "ra ! ?a"
    have a: "?a < length ra" using True less.prems(1) by simp
    have IH: "case rev_range_loop nid flags ra (Some rb) (a - 1) b2 of
        None \<Rightarrow> ?C (idx_upto (a - 1)) (idx_upto b2) = {}
      | Some (s, e, a', b') \<Rightarrow> ?C (idx_upto (a - 1)) (idx_upto b2) = {s..<e} \<union> ?C (idx_upto a') (idx_upto b')" if "b2 \<le> int (length rb)" for b2
      using less.hyps [of "a - 1" b2] less.prems(1) that True by simp
    have rowa: "?C (idx_upto a) J = ?C {?a} J \<union> ?C (idx_upto (a - 1)) J" for J
      unfolding idx_upto_split [OF True] by (rule cover_Un)
    show ?thesis
    proof (cases "skips nid flags ?m")
      case T: True
      then have eq: "?C (idx_upto a) (idx_upto b) = ?C (idx_upto (a - 1)) (idx_upto b)" using rowa cover_skip [of ra ?a "skips nid flags"] by simp
      show ?thesis unfolding eq using IH [OF less.prems(2)] True T by (subst rev_range_loop.simps) (simp add: Let_def)
    next
      case F: False
      obtain b1 g where sc: "scan_gaps_rev rb (rg_base ?m) (rg_end ?m) b = (b1, g)" by fastforce
      have b1: "b1 \<le> b" "b1 \<le> int (length rb)" using scan_gaps_rev_index [OF sc] less.prems(2) by simp_all
      have "?C (idx_upto a) {j. b1 < int j \<and> int j \<le> b} = {}"
        using scan_gaps_rev_spec(1) [OF sc] a by (intro cover_emptyI cell_empty(2) [OF la lb, of _ ?a]) (auto simp: idx_upto_def)
      moreover have "idx_upto b = {j. b1 < int j \<and> int j \<le> b} \<union> idx_upto b1" using b1 by (auto simp: idx_upto_def)
      ultimately have col: "?C (idx_upto a) (idx_upto b) = ?C (idx_upto a) (idx_upto b1)" using cover_Un(2) by simp
      show ?thesis
      proof (cases g)
        case None
        have "?C {?a} (idx_upto b1) = {}"
        proof (cases "b1 < 0")
          case False
          then have "gap_end rb (nat b1) \<le> rg_base ?m" using scan_gaps_rev_spec(2) [OF sc None] by simp
          then show ?thesis using b1 by (intro cover_emptyI cell_empty(4) [OF la lb, of _ "nat b1"]) (auto simp: idx_upto_def)
        qed (auto simp: cover_def idx_upto_def)
        then have eq: "?C (idx_upto a) (idx_upto b) = ?C (idx_upto (a - 1)) (idx_upto b1)" using col rowa by simp
        show ?thesis
          unfolding eq using IH [OF b1(2)] True F None sc by (subst rev_range_loop.simps) (simp add: Let_def rg_end_def)
      next
        case (Some p)
        obtain gs ge where p: "g = Some (gs, ge)" using Some by (cases p) auto
        note g = scan_gaps_rev_spec(3) [OF sc p]
        let ?b = "nat b1"
        have cb: "?C {?a} {?b} = {max (rg_base ?m) gs..<min (rg_end ?m) ge}"
          using cell_range [of ?a ra ?b rb "skips nid flags"] a F g b1 by (simp add: cover_def)
        have colb: "?C I (idx_upto b1) = ?C I {?b} \<union> ?C I (idx_upto (b1 - 1))" for I
          unfolding idx_upto_split [OF conjunct1 [OF g]] by (rule cover_Un)
        show ?thesis
        proof (cases "gs \<le> rg_base ?m")
          case le: True
          have "?C {?a} (idx_upto (b1 - 1)) = {}"
          proof (intro cover_emptyI)
            fix i j assume "i \<in> {?a}" "j \<in> idx_upto (b1 - 1)"
            then have "j < ?b" "i = ?a" by (auto simp: idx_upto_def)
            moreover have "gap_end rb j \<le> gs"
              using gap_rows [OF lb] g \<open>j < ?b\<close> b1 by (auto simp: rows_def)
            ultimately show "cell (skips nid flags) ra rb i j = {}" using le by (fastforce simp: cell_def)
          qed
          then have "?C (idx_upto a) (idx_upto b) = {max (rg_base ?m) gs..<min (rg_end ?m) ge} \<union> ?C (idx_upto (a - 1)) (idx_upto b1)"
            using col rowa colb cb by auto
          then show ?thesis
            using True F p sc le by (subst rev_range_loop.simps) (simp add: Let_def rg_end_def)
        next
          case gt: False
          have "?C (idx_upto (a - 1)) {?b} = {}"
          proof (intro cover_emptyI)
            fix i j assume "i \<in> idx_upto (a - 1)" "j \<in> {?b}"
            then have "i < ?a" "j = ?b" by (auto simp: idx_upto_def)
            moreover have "rg_end (ra ! i) \<le> rg_base ?m"
              using listed_rows [OF la] a \<open>i < ?a\<close> by (auto simp: rows_def)
            ultimately show "cell (skips nid flags) ra rb i j = {}" using gt g by (fastforce simp: cell_def)
          qed
          then have "?C (idx_upto a) (idx_upto b) = {max (rg_base ?m) gs..<min (rg_end ?m) ge} \<union> ?C (idx_upto a) (idx_upto (b1 - 1))"
            using col rowa [of "{?b}"] colb [of "idx_upto a"] cb by auto
          then show ?thesis
            using True F p sc gt by (subst rev_range_loop.simps) (simp add: Let_def rg_end_def)
        qed
      qed
    qed
  qed
qed


lemma rev_ranges_cover_from:
  "listed ra \<Longrightarrow> listed rb \<Longrightarrow> idx = Some (a, b) \<Longrightarrow> a < int (length ra) \<Longrightarrow> b \<le> int (length rb) \<Longrightarrow>
     (\<Union>(s, e)\<in>set (rev_ranges nid flags ra rb idx). {s..<e}) = cover (skips nid flags) ra rb (idx_upto a) (idx_upto b)"
proof (induction nid flags ra rb idx arbitrary: a b rule: rev_ranges.induct)
  case (1 nid flags ra rb idx)
  note c = rev_range_loop_cover [OF "1.prems"(1,2,4,5), of nid flags]
  have n: "next_mem_range_rev nid flags ra (Some rb) idx = rev_range_loop nid flags ra (Some rb) a b"
    using "1.prems"(3) by (simp add: next_mem_range_rev_def)
  show ?case
  proof (cases "rev_range_loop nid flags ra (Some rb) a b")
    case None
    then show ?thesis using c n by (subst rev_ranges.simps) simp
  next
    case (Some p)
    then obtain s e a' b' where p: "rev_range_loop nid flags ra (Some rb) a b = Some (s, e, a', b')"
      by (cases p) auto
    have "a' < int (length ra)" "b' \<le> int (length rb)"
      using rev_range_loop_goes_down [OF p] "1.prems"(4,5) by auto
    note IH = "1.IH" [OF p [folded n] refl refl refl "1.prems"(1,2) refl this]
    have "cover (skips nid flags) ra rb (idx_upto a) (idx_upto b) =
        {s..<e} \<union> cover (skips nid flags) ra rb (idx_upto a') (idx_upto b')"
      using c p by simp
    then show ?thesis using p n IH by (subst rev_ranges.simps) simp
  qed
qed

text \<open>The addresses an allocation may use: in memory that is not skipped, and not reserved.\<close>

definition free_addrs :: "int \<Rightarrow> u32 \<Rightarrow> memblock_region list \<Rightarrow> memblock_region list \<Rightarrow> phys_addr set" where
  "free_addrs nid flags ra rb =
     {x. (\<exists>m\<in>set ra. \<not> skips nid flags m \<and> rg_base m \<le> x \<and> x < rg_end m) \<and> amap rb x = None \<and> x < PHYS_ADDR_MAX}"

lemma listed_amap:
  assumes "listed rs"
  shows "amap rs x = None \<longleftrightarrow> (\<forall>i<length rs. \<not> (rg_base (rs ! i) \<le> x \<and> x < rg_end (rs ! i)))"
  using assms unfolding listed_def
proof
  assume "rs = [empty_region]"
  then show ?thesis by (simp add: empty_region_def rg_end_def)
next
  assume w: "rs \<noteq> [] \<and> wfl 0 rs"
  have "amap rs x = None \<longleftrightarrow> (\<forall>r\<in>set rs. \<not> (rg_base r \<le> x \<and> x < rg_end r))"
    using amap_set [of 0 rs x] w by (cases "amap rs x") auto
  then show ?thesis by (simp only: all_set_conv_all_nth)
qed

lemma gaps_are_unreserved:
  assumes "listed rb"
  shows "(\<exists>j<Suc (length rb). gap_start rb j \<le> x \<and> x < gap_end rb j) \<longleftrightarrow> amap rb x = None \<and> x < PHYS_ADDR_MAX"
proof
  note R = listed_rows [OF assms, unfolded rows_def] and G = gap_rows [OF assms, unfolded rows_def]
  assume "\<exists>j<Suc (length rb). gap_start rb j \<le> x \<and> x < gap_end rb j"
  then obtain j where j: "j < Suc (length rb)" "gap_start rb j \<le> x" "x < gap_end rb j" by blast
  have "\<not> (rg_base (rb ! i) \<le> x \<and> x < rg_end (rb ! i))" if "i < length rb" for i
  proof (cases "i < j")
    case True
    have "gap_start rb (Suc i) \<le> gap_start rb j"
      using G True j(1) by (cases "Suc i = j") (auto intro: order_trans [of _ "gap_end rb (Suc i)"])
    then show ?thesis using j(2) by (auto simp: gap_start_Suc)
  next
    case False
    have "rg_base (rb ! j) \<le> rg_base (rb ! i)"
      using R False that by (cases "j = i") (auto intro: order_trans [of _ "rg_end (rb ! j)"])
    then show ?thesis using False that j(3) by (auto simp: gap_end_def)
  qed
  then show "amap rb x = None \<and> x < PHYS_ADDR_MAX"
    using listed_amap [OF assms] less_le_trans [OF j(3)] by auto
next
  assume free: "amap rb x = None \<and> x < PHYS_ADDR_MAX"
  define j where "j = (LEAST k. x < gap_end rb k)"
  have last: "x < gap_end rb (length rb)" using free by (simp add: gap_end_def)
  have j: "x < gap_end rb j" unfolding j_def by (rule LeastI) (rule last)
  have le: "j \<le> length rb" unfolding j_def by (rule Least_le) (rule last)
  have "gap_start rb j \<le> x"
  proof (cases j)
    case 0
    then show ?thesis by (simp add: gap_start_def)
  next
    case (Suc k)
    have "\<not> x < gap_end rb k" using not_less_Least [of k "\<lambda>k. x < gap_end rb k"] Suc by (simp add: j_def)
    then have "rg_base (rb ! k) \<le> x" using Suc le by (simp add: gap_end_def split: if_splits)
    then have "\<not> x < rg_end (rb ! k)" using free listed_amap [OF assms] Suc le by auto
    then show ?thesis using Suc by (simp add: gap_start_Suc)
  qed
  then show "\<exists>j<Suc (length rb). gap_start rb j \<le> x \<and> x < gap_end rb j"
    using j le by (intro exI [of _ j]) simp
qed

lemma cover_all:
  assumes "listed rb"
  shows "cover (skips nid flags) ra rb UNIV UNIV = free_addrs nid flags ra rb"
proof -
  have "cover (skips nid flags) ra rb UNIV UNIV =
    {x. (\<exists>i<length ra. \<not> skips nid flags (ra ! i) \<and> rg_base (ra ! i) \<le> x \<and> x < rg_end (ra ! i)) \<and>
        (\<exists>j<Suc (length rb). gap_start rb j \<le> x \<and> x < gap_end rb j)}"
    by (auto simp: cover_def cell_def)
  moreover have "(\<exists>m\<in>set ra. P m) \<longleftrightarrow> (\<exists>i<length ra. P (ra ! i))" for P
    by (auto simp: set_conv_nth)
  ultimately show ?thesis
    unfolding gaps_are_unreserved [OF assms] free_addrs_def by simp
qed


lemma mem_ranges_free:
  assumes "listed ra" and "listed rb"
  shows "(\<Union>(s, e)\<in>set (mem_ranges nid flags ra rb 0 0). {s..<e}) = free_addrs nid flags ra rb"
  using mem_ranges_cover [OF assms, of nid flags 0 0] cover_all [OF assms(2), of nid flags ra] by (simp add: atLeast_0)

lemma rev_ranges_free:
  assumes "listed ra" and "listed rb"
  shows "(\<Union>(s, e)\<in>set (rev_ranges nid flags ra rb None). {s..<e}) = free_addrs nid flags ra rb"
proof -
  let ?a = "int (length ra) - 1" and ?b = "int (length rb)"
  have "rev_ranges nid flags ra rb None = rev_ranges nid flags ra rb (Some (?a, ?b))"
    by (subst (1 2) rev_ranges.simps) (simp add: next_mem_range_rev_def)
  moreover have "cover (skips nid flags) ra rb (idx_upto ?a) (idx_upto ?b) = cover (skips nid flags) ra rb UNIV UNIV"
    by (auto simp: cover_def cell_def idx_upto_def less_Suc_eq_le)
  ultimately show ?thesis
    using rev_ranges_cover_from [OF assms refl, of ?a ?b nid flags] cover_all [OF assms(2), of nid flags ra] by simp
qed

section \<open>The searches\<close>

definition is_aligned :: "phys_addr \<Rightarrow> phys_addr \<Rightarrow> bool" where
  "is_aligned x align \<longleftrightarrow> x AND (align - 1) = 0"

text \<open>A block of \<open>sz\<close> bytes at \<open>c\<close> inside the bounds \<open>lo\<close> and \<open>hi\<close>, without wrap-around.\<close>

definition room :: "phys_addr \<Rightarrow> phys_addr \<Rightarrow> phys_addr \<Rightarrow> phys_addr \<Rightarrow> bool" where
  "room lo hi sz c \<longleftrightarrow> lo \<le> c \<and> c \<le> hi \<and> sz \<le> hi - c"

lemma pow2_mask: "(2 :: 'a::len word) ^ k - 1 = mask k"
  by (simp add: mask_eq_decr_exp)

lemma is_aligned_dvd: "is_aligned x (2 ^ k) \<longleftrightarrow> 2 ^ k dvd unat x"
proof -
  have "is_aligned x (2 ^ k) \<longleftrightarrow> unat (take_bit k x) = 0"
    by (simp add: is_aligned_def pow2_mask unat_eq_zero flip: take_bit_eq_mask)
  then show ?thesis by (simp only: unsigned_take_bit_eq take_bit_eq_mod [of k "unat x"] dvd_eq_mod_eq_0)
qed

lemma unat_round_down: "unat (round_down x (2 ^ k)) = 2 ^ k * (unat x div 2 ^ k)"
  unfolding round_down_def pow2_mask by (rule unat_and_not_mask)

lemma round_down_aligned: "is_aligned (round_down x (2 ^ k)) (2 ^ k)"
  by (simp add: is_aligned_dvd unat_round_down)

lemma round_down_le: "round_down x (2 ^ k) \<le> x"
  by (simp add: word_le_nat_alt unat_round_down)

lemma round_down_greatest:
  assumes "is_aligned d (2 ^ k)" and "d \<le> x"
  shows "d \<le> round_down x (2 ^ k)"
proof -
  obtain q where q: "unat d = 2 ^ k * q" using assms(1) by (auto simp: is_aligned_dvd)
  then have "q \<le> unat x div 2 ^ k"
    using div_le_mono [OF assms(2) [unfolded word_le_nat_alt], of "2 ^ k"] by simp
  then show ?thesis using q by (simp add: word_le_nat_alt unat_round_down)
qed

lemma or_mask_eq: "(x :: 'a::len word) OR mask n = (x AND NOT (mask n)) + mask n"
proof -
  have "x OR mask n = (x AND NOT (mask n)) OR mask n" by (rule bit_eqI) (auto simp: bit_simps)
  also have "\<dots> = (x AND NOT (mask n)) + mask n"
    by (rule disjunctive_add_eq_or [symmetric]) (rule bit_eqI, auto simp: bit_simps)
  finally show ?thesis .
qed

lemma round_up_eq: "round_up x (2 ^ k) = round_down (x - 1) (2 ^ k) + 2 ^ k"
  unfolding round_up_def round_down_def pow2_mask or_mask_eq by (simp add: mask_eq_decr_exp)

lemma unat_pow2: "k < 64 \<Longrightarrow> unat ((2 :: phys_addr) ^ k) = 2 ^ k"
  using power_strict_increasing [of k 64 "2 :: nat"] unsigned_of_nat [of "2 ^ k", where 'b = 64 and 'a = nat]
  by (simp add: take_bit_nat_eq_self)

lemma round_up_dest:
  assumes "k < 64" and "round_up x (2 ^ k) \<noteq> 0"
  shows "unat (round_up x (2 ^ k)) = 2 ^ k * (unat (x - 1) div 2 ^ k) + 2 ^ k"
proof -
  define q where "q = unat (x - 1) div 2 ^ k"
  have split: "(2 :: nat) ^ LENGTH(64) = 2 ^ k * 2 ^ (64 - k)" using assms(1) by (simp only: power_add [symmetric]) simp
  have "unat (x - 1) < 2 ^ LENGTH(64)" by (rule unsigned_less)
  then have "q < 2 ^ (64 - k)" unfolding q_def split by (intro less_mult_imp_div_less) (simp only: mult.commute)
  then have le: "2 ^ k * Suc q \<le> 2 ^ LENGTH(64)" unfolding split by (intro mult_le_mono2) simp
  have eq: "unat (round_up x (2 ^ k)) = (2 ^ k * Suc q) mod 2 ^ LENGTH(64)"
    unfolding round_up_eq unat_word_ariths unat_round_down unat_pow2 [OF assms(1)] q_def
    by (simp only: mult_Suc_right add.commute)
  have "2 ^ k * Suc q \<noteq> 2 ^ LENGTH(64)"
  proof
    assume "2 ^ k * Suc q = 2 ^ LENGTH(64)"
    then have "unat (round_up x (2 ^ k)) = 0" unfolding eq by (simp only: mod_self)
    then show False using assms(2) by (simp only: unat_eq_zero)
  qed
  then have "2 ^ k * Suc q < 2 ^ LENGTH(64)" using le by (rule le_neq_implies_less [rotated])
  then show ?thesis unfolding eq q_def [symmetric] by (simp only: mod_less mult_Suc_right add.commute)
qed

lemma round_up_aligned: "k < 64 \<Longrightarrow> is_aligned (round_up x (2 ^ k)) (2 ^ k)"
  by (cases "round_up x (2 ^ k) = 0") (simp_all add: is_aligned_dvd round_up_dest)

lemma round_up_ge:
  assumes "k < 64" and "round_up x (2 ^ k) \<noteq> 0"
  shows "x \<le> round_up x (2 ^ k)"
proof (cases "x = 0")
  case False
  then have "unat (x - 1) = unat x - 1" by (simp add: unat_minus_one)
  moreover have "unat (x - 1) < 2 ^ k * (unat (x - 1) div 2 ^ k) + 2 ^ k"
    by (metis dividend_less_times_div zero_less_numeral zero_less_power add.commute)
  ultimately show ?thesis
    using round_up_dest [OF assms] False by (simp add: word_le_nat_alt)
qed simp

lemma round_up_least:
  assumes "k < 64" and "is_aligned d (2 ^ k)" and "x \<le> d"
  shows "round_up x (2 ^ k) \<le> d"
proof (cases "round_up x (2 ^ k) = 0 \<or> x = 0")
  case True
  have "round_up 0 (2 ^ k) = 0" by (simp add: round_up_def)
  then show ?thesis using True by auto
next
  case False
  then have x: "unat (x - 1) = unat x - 1" "0 < unat x" by (simp_all add: unat_minus_one unat_gt_0)
  obtain q where q: "unat d = 2 ^ k * q" using assms(2) by (auto simp: is_aligned_dvd)
  have "unat x - 1 < 2 ^ k * q" using q assms(3) x(2) by (simp add: word_le_nat_alt)
  then have "unat (x - 1) div 2 ^ k < q" using x(1) by (simp add: less_mult_imp_div_less mult.commute)
  then have "2 ^ k * (unat (x - 1) div 2 ^ k + 1) \<le> 2 ^ k * q" by (intro mult_le_mono2) simp
  then show ?thesis using round_up_dest [OF assms(1)] False q by (simp add: word_le_nat_alt)
qed

lemma room_clamp:
  assumes "start \<le> en" and "0 < sz"
  shows "room (clamp s start en) (clamp e start en) sz c \<longleftrightarrow> room (max s start) (min e en) sz c"
proof
  have pos: "c < h" if "c \<le> h" "sz \<le> h - c" for h
    using that assms(2) by (metis order.not_eq_order_implies_strict right_minus_eq leD)
  {
    assume r: "room (clamp s start en) (clamp e start en) sz c"
    then have c: "c < min (max e start) en" "min (max s start) en \<le> c"
      using pos [of "clamp e start en"] by (simp_all add: room_def clamp_def)
    then have "c < en" "max s start \<le> c" by (auto simp: min_le_iff_disj)
    then have "start < e" using c(1) by (auto simp: less_max_iff_disj max_def split: if_splits)
    then show "room (max s start) (min e en) sz c"
      using r \<open>max s start \<le> c\<close> by (simp add: room_def clamp_def max_absorb1)
  }
  {
    assume r: "room (max s start) (min e en) sz c"
    then have c: "c < min e en" "max s start \<le> c" using pos [of "min e en"] by (simp_all add: room_def)
    then have "start < e" "start \<le> c" by auto
    then show "room (clamp s start en) (clamp e start en) sz c"
      using r c by (auto simp: room_def clamp_def max_absorb1 min_le_iff_disj)
  }
qed

lemma find_down_finds:
  assumes "start \<le> en" and "0 < sz" and "find_down start en sz (2 ^ k) ranges \<noteq> 0"
  shows "\<exists>(s, e)\<in>set ranges. room (max s start) (min e en) sz (find_down start en sz (2 ^ k) ranges)"
    and "is_aligned (find_down start en sz (2 ^ k) ranges) (2 ^ k)"
  using assms(3)
proof (atomize (full), induction ranges)
  case (Cons r ranges)
  obtain s e where r: "r = (s, e)" by fastforce
  let ?e = "clamp e start en" and ?c = "round_down (clamp e start en - sz) (2 ^ k)"
  show ?case
  proof (cases "\<not> ?e < sz \<and> clamp s start en \<le> ?c")
    case True
    have le: "?c \<le> ?e - sz" by (rule round_down_le)
    then have "unat ?c \<le> unat ?e - unat sz" using True by (simp add: word_le_nat_alt unat_sub not_less)
    moreover have "unat sz \<le> unat ?e" using True by (simp add: word_le_nat_alt not_less)
    ultimately have "unat ?c \<le> unat ?e" "unat sz \<le> unat ?e - unat ?c" by linarith+
    then have "room (clamp s start en) ?e sz ?c"
      using True by (simp add: room_def word_le_nat_alt unat_sub)
    then have "room (max s start) (min e en) sz ?c" using room_clamp [OF assms(1,2)] by blast
    then show ?thesis using True r round_down_aligned by (simp add: Let_def)
  next
    case False
    then have "find_down start en sz (2 ^ k) (r # ranges) = find_down start en sz (2 ^ k) ranges"
      using r by (auto simp: Let_def)
    then show ?thesis using Cons by auto
  qed
qed simp

lemma find_down_fails:
  assumes "start \<le> en" and "0 < sz" and "0 < start" and "find_down start en sz (2 ^ k) ranges = 0"
    and "(s, e) \<in> set ranges" and "is_aligned c (2 ^ k)"
  shows "\<not> room (max s start) (min e en) sz c"
  using assms(4,5)
proof (induction ranges)
  case (Cons r ranges)
  obtain s' e' where r: "r = (s', e')" by fastforce
  let ?e = "clamp e' start en" and ?c = "round_down (clamp e' start en - sz) (2 ^ k)"
  have pos: "0 < clamp s' start en" using assms(1,3) by (auto simp: clamp_def less_max_iff_disj)
  have fail: "?e < sz \<or> \<not> clamp s' start en \<le> ?c" and rest: "find_down start en sz (2 ^ k) ranges = 0"
    using Cons.prems(1) r pos by (auto simp: Let_def split: if_splits)
  have "\<not> room (clamp s' start en) ?e sz c"
  proof
    assume rm: "room (clamp s' start en) ?e sz c"
    then have c: "unat c \<le> unat ?e" "unat sz \<le> unat ?e - unat c" "clamp s' start en \<le> c"
      by (auto simp: room_def word_le_nat_alt unat_sub)
    then have "sz \<le> ?e" by (simp add: word_le_nat_alt)
    then have "c \<le> ?e - sz" using c by (simp add: word_le_nat_alt unat_sub)
    then have "c \<le> ?c" by (rule round_down_greatest [OF assms(6)])
    then show False using fail c(3) \<open>sz \<le> ?e\<close> by auto
  qed
  then show ?case using Cons.IH [OF rest] Cons.prems(2) r room_clamp [OF assms(1,2)] by auto
qed simp

lemma find_up_finds:
  assumes "start \<le> en" and "0 < sz" and "k < 64" and "find_up start en sz (2 ^ k) ranges \<noteq> 0"
  shows "\<exists>(s, e)\<in>set ranges. room (max s start) (min e en) sz (find_up start en sz (2 ^ k) ranges)"
    and "is_aligned (find_up start en sz (2 ^ k) ranges) (2 ^ k)"
  using assms(4)
proof (atomize (full), induction ranges)
  case (Cons r ranges)
  obtain s e where r: "r = (s, e)" by fastforce
  let ?e = "clamp e start en" and ?c = "round_up (clamp s start en) (2 ^ k)"
  show ?case
  proof (cases "?c < ?e \<and> sz \<le> ?e - ?c")
    case True
    then have eq: "find_up start en sz (2 ^ k) (r # ranges) = ?c" using r by (simp add: Let_def)
    then have "clamp s start en \<le> ?c" using Cons.prems by (intro round_up_ge [OF assms(3)]) simp
    then have "room (clamp s start en) ?e sz ?c" using True less_imp_le by (auto simp: room_def)
    then have "room (max s start) (min e en) sz ?c" using room_clamp [OF assms(1,2)] by blast
    then show ?thesis using eq r round_up_aligned [OF assms(3)] by simp
  next
    case False
    then have "find_up start en sz (2 ^ k) (r # ranges) = find_up start en sz (2 ^ k) ranges"
      using r by (auto simp: Let_def)
    then show ?thesis using Cons by auto
  qed
qed simp

end
