(* ===== verification/Memblock_Alloc.thy ===== *)
theory Memblock_Alloc imports Memblock_Find begin

text \<open>
  The allocator of \<^verbatim>\<open>memblock/src/memblock.c\<close>: the global \<^verbatim>\<open>memblock\<close> with its static companions, growing
  a full region array, adding, removing, reserving, freeing and marking ranges, and the allocation
  functions.  Growing the reserved array reserves its new home in that same array, so these functions
  call each other; they take fuel, and \<open>None\<close> means that it ran out.  \<open>Some (Inl Crash)\<close> is a \<^verbatim>\<open>BUG_ON\<close>.
  What lies outside the file is in the record \<open>env\<close>: the end of the kernel image, whether the slab
  allocator is up and what it returns, the offset of the linear mapping, and whether the command line
  leaves the poisoning of fresh memory on.
\<close>

section \<open>State\<close>

record memblock =
  bottom_up :: bool
  current_limit :: phys_addr
  memory :: memblock_type
  reserved :: memblock_type
  system_has_some_mirror :: bool
  memblock_can_resize :: bool
  memblock_memory_in_slab :: bool
  memblock_reserved_in_slab :: bool
  memory_array :: "phys_addr option"
  reserved_array :: "phys_addr option"
  ram :: "u64 \<Rightarrow> u8"

record env =
  kernel_end :: phys_addr
  slab_is_available :: bool
  kmalloc :: "phys_addr \<Rightarrow> phys_addr"
  va_pa_offset :: u64
  page_init_poisoning :: bool

datatype which = Memory | Reserved

definition get_type :: "which \<Rightarrow> memblock \<Rightarrow> memblock_type" where
  "get_type w mb = (case w of Memory \<Rightarrow> memory mb | Reserved \<Rightarrow> reserved mb)"

definition set_type :: "which \<Rightarrow> memblock_type \<Rightarrow> memblock \<Rightarrow> memblock" where
  "set_type w t mb = (case w of Memory \<Rightarrow> mb\<lparr>memory := t\<rparr> | Reserved \<Rightarrow> mb\<lparr>reserved := t\<rparr>)"

definition empty_type :: memblock_type where
  "empty_type = \<lparr>rgns = [empty_region], rmax = 128, total_size = 0\<rparr>"

definition memblock_init :: "(u64 \<Rightarrow> u8) \<Rightarrow> memblock" where
  "memblock_init bytes =
     \<lparr>bottom_up = False, current_limit = PHYS_ADDR_MAX, memory = empty_type, reserved = empty_type,
      system_has_some_mirror = False, memblock_can_resize = False,
      memblock_memory_in_slab = False, memblock_reserved_in_slab = False,
      memory_array = None, reserved_array = None, ram = bytes\<rparr>"

definition ENOMEM :: int where
  "ENOMEM = 12"

definition PAGE_SIZE :: phys_addr where
  "PAGE_SIZE = 4096"

definition SMP_CACHE_BYTES :: phys_addr where
  "SMP_CACHE_BYTES = 64"

definition MEMBLOCK_ALLOC_ACCESSIBLE :: phys_addr where
  "MEMBLOCK_ALLOC_ACCESSIBLE = 0"

definition MEMBLOCK_ALLOC_KASAN :: phys_addr where
  "MEMBLOCK_ALLOC_KASAN = 1"

definition PAGE_ALIGN :: "phys_addr \<Rightarrow> phys_addr" where
  "PAGE_ALIGN x = (x + (PAGE_SIZE - 1)) AND NOT (PAGE_SIZE - 1)"

definition sizeof_region :: phys_addr where
  "sizeof_region = 24"

section \<open>Finding free memory\<close>

definition choose_memblock_flags :: "memblock \<Rightarrow> u32" where
  "choose_memblock_flags mb = (if system_has_some_mirror mb then MEMBLOCK_MIRROR else MEMBLOCK_NONE)"

definition memblock_find_in_range_node ::
  "env \<Rightarrow> memblock \<Rightarrow> phys_addr \<Rightarrow> phys_addr \<Rightarrow> phys_addr \<Rightarrow> phys_addr \<Rightarrow> int \<Rightarrow> u32 \<Rightarrow> phys_addr" where
  "memblock_find_in_range_node env mb sz align start en nid flags =
     (let ra = rgns (memory mb); rb = rgns (reserved mb);
          en1 = (if en = MEMBLOCK_ALLOC_ACCESSIBLE \<or> en = MEMBLOCK_ALLOC_KASAN then current_limit mb else en);
          start1 = max start PAGE_SIZE;
          en2 = max start1 en1;
          low = (if bottom_up mb \<and> kernel_end env < en2
                 then memblock_find_range_bottom_up ra rb (max start1 (kernel_end env)) en2 sz align nid flags
                 else 0)
      in if low \<noteq> 0 then low
         else memblock_find_range_top_down ra rb start1 en2 sz align nid flags)"

definition memblock_find_in_range ::
  "env \<Rightarrow> memblock \<Rightarrow> phys_addr \<Rightarrow> phys_addr \<Rightarrow> phys_addr \<Rightarrow> phys_addr \<Rightarrow> phys_addr" where
  "memblock_find_in_range env mb start en sz align =
     (let flags = choose_memblock_flags mb;
          ret = memblock_find_in_range_node env mb sz align start en NUMA_NO_NODE flags
      in if ret = 0 \<and> flags AND MEMBLOCK_MIRROR \<noteq> 0
         then memblock_find_in_range_node env mb sz align start en NUMA_NO_NODE (flags AND NOT MEMBLOCK_MIRROR)
         else ret)"

section \<open>Changing the arrays\<close>

definition bind_fuel :: "'a run option \<Rightarrow> ('a \<Rightarrow> 'b run option) \<Rightarrow> 'b run option" where
  "bind_fuel r f = (case r of None \<Rightarrow> None | Some (Inl e) \<Rightarrow> Some (Inl e) | Some (Inr a) \<Rightarrow> f a)"

text \<open>The address for the new array in \<open>memblock_double_array\<close>; 0 when there is none.\<close>

definition new_array_addr :: "env \<Rightarrow> which \<Rightarrow> phys_addr \<Rightarrow> phys_addr \<Rightarrow> phys_addr \<Rightarrow> memblock \<Rightarrow> phys_addr" where
  "new_array_addr env w area_start area_size new_size mb =
     (if slab_is_available env then kmalloc env new_size
      else
        let ns = (if w \<noteq> Reserved then 0 else area_start);
            nz = (if w \<noteq> Reserved then 0 else area_size);
            addr = memblock_find_in_range env mb (ns + nz) (current_limit mb) (PAGE_ALIGN new_size) PAGE_SIZE
        in if addr = 0 \<and> nz \<noteq> 0
           then memblock_find_in_range env mb 0 (min ns (current_limit mb)) (PAGE_ALIGN new_size) PAGE_SIZE
           else addr)"

text \<open>The array with its new home and capacity; what it holds is unchanged.\<close>

definition move_array :: "which \<Rightarrow> phys_addr \<Rightarrow> memblock \<Rightarrow> memblock" where
  "move_array w addr mb =
     (let t = get_type w mb; mb1 = set_type w (t\<lparr>rmax := 2 * rmax t\<rparr>) mb
      in case w of Memory \<Rightarrow> mb1\<lparr>memory_array := Some addr\<rparr> | Reserved \<Rightarrow> mb1\<lparr>reserved_array := Some addr\<rparr>)"

definition array_home :: "which \<Rightarrow> memblock \<Rightarrow> phys_addr option" where
  "array_home w mb = (case w of Memory \<Rightarrow> memory_array mb | Reserved \<Rightarrow> reserved_array mb)"

definition in_slab :: "which \<Rightarrow> memblock \<Rightarrow> bool" where
  "in_slab w mb = (case w of Memory \<Rightarrow> memblock_memory_in_slab mb | Reserved \<Rightarrow> memblock_reserved_in_slab mb)"

definition set_in_slab :: "which \<Rightarrow> bool \<Rightarrow> memblock \<Rightarrow> memblock" where
  "set_in_slab w b mb =
     (case w of Memory \<Rightarrow> mb\<lparr>memblock_memory_in_slab := b\<rparr> | Reserved \<Rightarrow> mb\<lparr>memblock_reserved_in_slab := b\<rparr>)"

definition first_region :: "phys_addr \<Rightarrow> phys_addr \<Rightarrow> u32 \<Rightarrow> memblock_type \<Rightarrow> memblock_type" where
  "first_region base sz flags t =
     t\<lparr>rgns := (rgns t)[0 := \<lparr>rg_base = base, rg_size = sz, rg_flags = flags\<rparr>], total_size := sz\<rparr>"

text \<open>
  The functions that call each other are written with their calls as requests: \<open>call\<close> answers a request
  with the return value and the new state, and \<open>memblock_exec\<close> ties the knot.  \<open>MakeRoom\<close> is the loop
  that doubles an array until \<open>k\<close> more regions fit, in \<open>memblock_add_range\<close> and \<open>memblock_isolate_range\<close>.
\<close>

datatype request =
  AddRange which phys_addr phys_addr u32
| RemoveRange which phys_addr phys_addr
| SetclrFlag phys_addr phys_addr bool u32
| MakeRoom which nat phys_addr phys_addr
| DoubleArray which phys_addr phys_addr

type_synonym answer = "(int \<times> memblock) run option"

definition memblock_add_range ::
  "(request \<Rightarrow> memblock \<Rightarrow> answer) \<Rightarrow> which \<Rightarrow> phys_addr \<Rightarrow> phys_addr \<Rightarrow> u32 \<Rightarrow> memblock \<Rightarrow> answer" where
  "memblock_add_range call w base size0 flags mb =
     (let sz = memblock_cap_size base size0; en = base + sz; t = get_type w mb
      in if sz = 0 then Some (Inr (0, mb))
         else if rg_size (rgns t ! 0) = 0 then Some (Inr (0, set_type w (first_region base sz flags t) mb))
         else bind_fuel (Some (add_round False base en flags t)) (\<lambda>(_, nr_new).
           if nr_new = 0 then Some (Inr (0, mb))
           else bind_fuel (call (MakeRoom w nr_new base sz) mb) (\<lambda>(ret, mb1).
             if ret < 0 then Some (Inr (- ENOMEM, mb1))
             else bind_fuel (Some (add_insert base en flags (get_type w mb1))) (\<lambda>t'.
               Some (Inr (0, set_type w t' mb1))))))"

definition memblock_make_room ::
  "(request \<Rightarrow> memblock \<Rightarrow> answer) \<Rightarrow> which \<Rightarrow> nat \<Rightarrow> phys_addr \<Rightarrow> phys_addr \<Rightarrow> memblock \<Rightarrow> answer" where
  "memblock_make_room call w k base sz mb =
     (if rmax (get_type w mb) < length (rgns (get_type w mb)) + k then
        bind_fuel (call (DoubleArray w base sz) mb) (\<lambda>(ret, mb1).
          if ret < 0 then Some (Inr (ret, mb1)) else call (MakeRoom w k base sz) mb1)
      else Some (Inr (0, mb)))"

text \<open>\<open>memblock_isolate_range\<close> followed by what its caller does with the isolated regions.\<close>

definition memblock_isolate_range ::
  "(request \<Rightarrow> memblock \<Rightarrow> answer) \<Rightarrow> which \<Rightarrow> phys_addr \<Rightarrow> phys_addr \<Rightarrow>
     (memblock_type \<Rightarrow> nat \<Rightarrow> nat \<Rightarrow> memblock_type run) \<Rightarrow> memblock \<Rightarrow> answer" where
  "memblock_isolate_range call w base size0 use mb =
     (let sz = memblock_cap_size base size0; en = base + sz
      in if sz = 0 then
           bind_fuel (Some (use (get_type w mb) 0 0)) (\<lambda>t'. Some (Inr (0, set_type w t' mb)))
         else bind_fuel (call (MakeRoom w 2 base sz) mb) (\<lambda>(ret, mb1).
           if ret < 0 then Some (Inr (- ENOMEM, mb1))
           else bind_fuel
             (Some (bind_run (isolate_loop base en (get_type w mb1) 0 0 0) (\<lambda>(t', start_rgn, end_rgn).
                use t' start_rgn end_rgn)))
             (\<lambda>t'. Some (Inr (0, set_type w t' mb1)))))"

definition memblock_remove_range ::
  "(request \<Rightarrow> memblock \<Rightarrow> answer) \<Rightarrow> which \<Rightarrow> phys_addr \<Rightarrow> phys_addr \<Rightarrow> memblock \<Rightarrow> answer" where
  "memblock_remove_range call w base sz mb =
     memblock_isolate_range call w base sz (\<lambda>t s e. Inr (remove_regions t s e)) mb"

definition memblock_setclr_flag ::
  "(request \<Rightarrow> memblock \<Rightarrow> answer) \<Rightarrow> phys_addr \<Rightarrow> phys_addr \<Rightarrow> bool \<Rightarrow> u32 \<Rightarrow> memblock \<Rightarrow> answer" where
  "memblock_setclr_flag call base sz st flag mb =
     memblock_isolate_range call Memory base sz
       (\<lambda>t s e. memblock_merge_regions (setclr_regions st flag t s e)) mb"

definition memblock_double_array ::
  "(request \<Rightarrow> memblock \<Rightarrow> answer) \<Rightarrow> env \<Rightarrow> which \<Rightarrow> phys_addr \<Rightarrow> phys_addr \<Rightarrow> memblock \<Rightarrow> answer" where
  "memblock_double_array call env w area_start area_size mb =
     (if \<not> memblock_can_resize mb then Some (Inr (- 1, mb))
      else
        let old_size = of_nat (rmax (get_type w mb)) * sizeof_region;
            new_size = push_bit 1 old_size;
            addr = new_array_addr env w area_start area_size new_size mb
        in if addr = 0 then Some (Inr (- 1, mb))
           else
             let old_array = array_home w mb; mb1 = move_array w addr mb
             in bind_fuel
                  (if in_slab w mb then Some (Inr (0, mb1))
                   else case old_array of
                     None \<Rightarrow> Some (Inr (0, mb1))
                   | Some old \<Rightarrow> call (RemoveRange Reserved old (PAGE_ALIGN old_size)) mb1)
                  (\<lambda>(_, mb2).
                    bind_fuel
                      (if slab_is_available env then Some (Inr (0, mb2))
                       else call (AddRange Reserved addr (PAGE_ALIGN new_size) 0) mb2)
                      (\<lambda>(ret, mb3).
                        if ret \<noteq> 0 then Some (Inl Crash)
                        else Some (Inr (0, set_in_slab w (slab_is_available env) mb3)))))"

definition memblock_serve :: "env \<Rightarrow> (request \<Rightarrow> memblock \<Rightarrow> answer) \<Rightarrow> request \<Rightarrow> memblock \<Rightarrow> answer" where
  "memblock_serve env call rq mb =
     (case rq of
        AddRange w base sz flags \<Rightarrow> memblock_add_range call w base sz flags mb
      | RemoveRange w base sz \<Rightarrow> memblock_remove_range call w base sz mb
      | SetclrFlag base sz st flag \<Rightarrow> memblock_setclr_flag call base sz st flag mb
      | MakeRoom w k base sz \<Rightarrow> memblock_make_room call w k base sz mb
      | DoubleArray w base sz \<Rightarrow> memblock_double_array call env w base sz mb)"

primrec memblock_exec :: "nat \<Rightarrow> env \<Rightarrow> request \<Rightarrow> memblock \<Rightarrow> answer" where
  "memblock_exec 0 env = (\<lambda>rq mb. None)"
| "memblock_exec (Suc n) env = memblock_serve env (memblock_exec n env)"

section \<open>The interface\<close>

definition memblock_add :: "nat \<Rightarrow> env \<Rightarrow> phys_addr \<Rightarrow> phys_addr \<Rightarrow> memblock \<Rightarrow> answer" where
  "memblock_add n env base sz = memblock_exec n env (AddRange Memory base sz 0)"

definition memblock_remove :: "nat \<Rightarrow> env \<Rightarrow> phys_addr \<Rightarrow> phys_addr \<Rightarrow> memblock \<Rightarrow> answer" where
  "memblock_remove n env base sz = memblock_exec n env (RemoveRange Memory base sz)"

definition memblock_free :: "nat \<Rightarrow> env \<Rightarrow> phys_addr \<Rightarrow> phys_addr \<Rightarrow> memblock \<Rightarrow> answer" where
  "memblock_free n env base sz = memblock_exec n env (RemoveRange Reserved base sz)"

definition memblock_reserve :: "nat \<Rightarrow> env \<Rightarrow> phys_addr \<Rightarrow> phys_addr \<Rightarrow> memblock \<Rightarrow> answer" where
  "memblock_reserve n env base sz = memblock_exec n env (AddRange Reserved base sz 0)"

definition memblock_mark_hotplug :: "nat \<Rightarrow> env \<Rightarrow> phys_addr \<Rightarrow> phys_addr \<Rightarrow> memblock \<Rightarrow> answer" where
  "memblock_mark_hotplug n env base sz = memblock_exec n env (SetclrFlag base sz True MEMBLOCK_HOTPLUG)"

definition memblock_clear_hotplug :: "nat \<Rightarrow> env \<Rightarrow> phys_addr \<Rightarrow> phys_addr \<Rightarrow> memblock \<Rightarrow> answer" where
  "memblock_clear_hotplug n env base sz = memblock_exec n env (SetclrFlag base sz False MEMBLOCK_HOTPLUG)"

text \<open>\<open>memblock_set_node\<close> does nothing with a single node.\<close>

definition memblock_set_node :: "phys_addr \<Rightarrow> phys_addr \<Rightarrow> which \<Rightarrow> int \<Rightarrow> memblock \<Rightarrow> int \<times> memblock" where
  "memblock_set_node base sz w nid mb = (0, mb)"

definition memblock_allow_resize :: "memblock \<Rightarrow> memblock" where
  "memblock_allow_resize mb = mb\<lparr>memblock_can_resize := True\<rparr>"

definition memblock_set_bottom_up :: "bool \<Rightarrow> memblock \<Rightarrow> memblock" where
  "memblock_set_bottom_up enable mb = mb\<lparr>bottom_up := enable\<rparr>"

text \<open>One pass of \<open>memblock_alloc_range_nid\<close> from \<^verbatim>\<open>again\<close> on; the address 0 is failure.\<close>

definition reserve_found ::
  "nat \<Rightarrow> env \<Rightarrow> phys_addr \<Rightarrow> phys_addr \<Rightarrow> memblock \<Rightarrow> (phys_addr \<times> memblock) run option" where
  "reserve_found n env sz found mb =
     (if found = 0 then Some (Inr (0, mb))
      else bind_fuel (memblock_reserve n env found sz mb) (\<lambda>(ret, mb1).
        Some (Inr (if ret = 0 then found else 0, mb1))))"

definition alloc_pass ::
  "nat \<Rightarrow> env \<Rightarrow> phys_addr \<Rightarrow> phys_addr \<Rightarrow> phys_addr \<Rightarrow> phys_addr \<Rightarrow> int \<Rightarrow> bool \<Rightarrow> u32 \<Rightarrow> memblock \<Rightarrow>
     (phys_addr \<times> memblock) run option" where
  "alloc_pass n env sz align start en nid exact_nid flags mb =
     bind_fuel (reserve_found n env sz (memblock_find_in_range_node env mb sz align start en nid flags) mb)
       (\<lambda>(found, mb1).
         if found \<noteq> 0 then Some (Inr (found, mb1))
         else if nid \<noteq> NUMA_NO_NODE \<and> \<not> exact_nid then
           reserve_found n env sz (memblock_find_in_range_node env mb1 sz align start en NUMA_NO_NODE flags) mb1
         else Some (Inr (0, mb1)))"

definition memblock_alloc_range_nid ::
  "nat \<Rightarrow> env \<Rightarrow> phys_addr \<Rightarrow> phys_addr \<Rightarrow> phys_addr \<Rightarrow> phys_addr \<Rightarrow> int \<Rightarrow> bool \<Rightarrow> memblock \<Rightarrow>
     (phys_addr \<times> memblock) run option" where
  "memblock_alloc_range_nid n env sz align0 start en nid0 exact_nid mb =
     (let flags = choose_memblock_flags mb; nid = any_node nid0;
          align = (if align0 = 0 then SMP_CACHE_BYTES else align0)
      in bind_fuel (alloc_pass n env sz align start en nid exact_nid flags mb) (\<lambda>(found, mb1).
           if found \<noteq> 0 then Some (Inr (found, mb1))
           else if flags AND MEMBLOCK_MIRROR \<noteq> 0 then
             alloc_pass n env sz align start en nid exact_nid (flags AND NOT MEMBLOCK_MIRROR) mb1
           else Some (Inr (0, mb1))))"

definition memblock_phys_alloc_range ::
  "nat \<Rightarrow> env \<Rightarrow> phys_addr \<Rightarrow> phys_addr \<Rightarrow> phys_addr \<Rightarrow> phys_addr \<Rightarrow> memblock \<Rightarrow> (phys_addr \<times> memblock) run option" where
  "memblock_phys_alloc_range n env sz align start en =
     memblock_alloc_range_nid n env sz align start en NUMA_NO_NODE False"

definition memblock_phys_alloc_try_nid ::
  "nat \<Rightarrow> env \<Rightarrow> phys_addr \<Rightarrow> phys_addr \<Rightarrow> int \<Rightarrow> memblock \<Rightarrow> (phys_addr \<times> memblock) run option" where
  "memblock_phys_alloc_try_nid n env sz align nid =
     memblock_alloc_range_nid n env sz align 0 MEMBLOCK_ALLOC_ACCESSIBLE nid False"

text \<open>The virtual address, 0 for \<^verbatim>\<open>NULL\<close>.\<close>

definition memblock_alloc_internal ::
  "nat \<Rightarrow> env \<Rightarrow> phys_addr \<Rightarrow> phys_addr \<Rightarrow> phys_addr \<Rightarrow> phys_addr \<Rightarrow> int \<Rightarrow> bool \<Rightarrow> memblock \<Rightarrow>
     (u64 \<times> memblock) run option" where
  "memblock_alloc_internal n env sz align min_addr max_addr0 nid exact_nid mb =
     (if slab_is_available env then Some (Inr (kmalloc env sz, mb))
      else
        let max_addr = min max_addr0 (current_limit mb)
        in bind_fuel (memblock_alloc_range_nid n env sz align min_addr max_addr nid exact_nid mb) (\<lambda>(alloc, mb1).
             bind_fuel
               (if alloc = 0 \<and> min_addr \<noteq> 0
                then memblock_alloc_range_nid n env sz align 0 max_addr nid exact_nid mb1
                else Some (Inr (alloc, mb1)))
               (\<lambda>(alloc', mb2). Some (Inr (if alloc' = 0 then 0 else alloc' + va_pa_offset env, mb2)))))"

definition memset_bytes :: "(u64 \<Rightarrow> u8) \<Rightarrow> u64 \<Rightarrow> u8 \<Rightarrow> u64 \<Rightarrow> u64 \<Rightarrow> u8" where
  "memset_bytes bytes p c sz = (\<lambda>a. if a - p < sz then c else bytes a)"

definition page_init_poison :: "env \<Rightarrow> u64 \<Rightarrow> u64 \<Rightarrow> memblock \<Rightarrow> memblock" where
  "page_init_poison env p sz mb = (if page_init_poisoning env then mb\<lparr>ram := memset_bytes (ram mb) p (- 1) sz\<rparr> else mb)"

definition memblock_alloc_try_nid_raw ::
  "nat \<Rightarrow> env \<Rightarrow> phys_addr \<Rightarrow> phys_addr \<Rightarrow> phys_addr \<Rightarrow> phys_addr \<Rightarrow> int \<Rightarrow> memblock \<Rightarrow> (u64 \<times> memblock) run option" where
  "memblock_alloc_try_nid_raw n env sz align min_addr max_addr nid mb =
     bind_fuel (memblock_alloc_internal n env sz align min_addr max_addr nid False mb) (\<lambda>(p, mb1).
       Some (Inr (p, if p \<noteq> 0 \<and> 0 < sz then page_init_poison env p sz mb1 else mb1)))"

definition memblock_alloc_try_nid ::
  "nat \<Rightarrow> env \<Rightarrow> phys_addr \<Rightarrow> phys_addr \<Rightarrow> phys_addr \<Rightarrow> phys_addr \<Rightarrow> int \<Rightarrow> memblock \<Rightarrow> (u64 \<times> memblock) run option" where
  "memblock_alloc_try_nid n env sz align min_addr max_addr nid mb =
     bind_fuel (memblock_alloc_internal n env sz align min_addr max_addr nid False mb) (\<lambda>(p, mb1).
       Some (Inr (p, if p \<noteq> 0 then mb1\<lparr>ram := memset_bytes (ram mb1) p 0 sz\<rparr> else mb1)))"


section \<open>Queries, iteration and teardown\<close>

text \<open>The cursor is \<^verbatim>\<open>*idx\<close>; at the end of the iteration it becomes \<^verbatim>\<open>ULLONG_MAX\<close> and nothing is stored.\<close>

definition next_reserved_mem_region :: "memblock \<Rightarrow> u64 \<Rightarrow> (phys_addr \<times> phys_addr) option \<times> u64" where
  "next_reserved_mem_region mb idx =
     (if idx < of_nat (length (rgns (reserved mb))) then
        (let r = rgns (reserved mb) ! unat idx
         in (Some (rg_base r, rg_base r + rg_size r - 1), idx + 1))
      else (None, - 1))"

definition PFN_UP :: "phys_addr \<Rightarrow> u64" where
  "PFN_UP x = drop_bit 12 (x + PAGE_SIZE - 1)"

definition PFN_DOWN :: "phys_addr \<Rightarrow> u64" where
  "PFN_DOWN x = drop_bit 12 x"

text \<open>From the region after \<open>idx\<close> on: the first that holds a whole page, with its index.\<close>

function pfn_range_loop :: "memblock_region list \<Rightarrow> int \<Rightarrow> nat \<Rightarrow> (nat \<times> u64 \<times> u64) option" where
  "pfn_range_loop rs nid i =
     (if i < length rs then
        (let r = rs ! i
         in if PFN_DOWN (rg_base r + rg_size r) \<le> PFN_UP (rg_base r) then pfn_range_loop rs nid (Suc i)
            else if nid = MAX_NUMNODES \<or> nid = 0
              then Some (i, PFN_UP (rg_base r), PFN_DOWN (rg_base r + rg_size r))
            else pfn_range_loop rs nid (Suc i))
      else None)"
  by pat_completeness auto
termination
  by (relation "measure (\<lambda>(rs, nid, i). length rs - i)") auto

declare pfn_range_loop.simps [simp del]

definition next_mem_pfn_range :: "memblock \<Rightarrow> int \<Rightarrow> int \<Rightarrow> int \<times> (u64 \<times> u64 \<times> int) option" where
  "next_mem_pfn_range mb idx nid =
     (case pfn_range_loop (rgns (memory mb)) nid (nat (idx + 1)) of
        None \<Rightarrow> (- 1, None)
      | Some (i, s, e) \<Rightarrow> (int i, Some (s, e, 0)))"

definition memblock_start_of_DRAM :: "memblock \<Rightarrow> phys_addr" where
  "memblock_start_of_DRAM mb = rg_base (rgns (memory mb) ! 0)"

definition memblock_end_of_DRAM :: "memblock \<Rightarrow> phys_addr" where
  "memblock_end_of_DRAM mb =
     (let r = rgns (memory mb) ! (length (rgns (memory mb)) - 1) in rg_base r + rg_size r)"

definition memblock_is_region_memory :: "memblock \<Rightarrow> phys_addr \<Rightarrow> phys_addr \<Rightarrow> bool" where
  "memblock_is_region_memory mb base sz =
     (let en = base + memblock_cap_size base sz
      in case memblock_search (memory mb) base of
           None \<Rightarrow> False
         | Some idx \<Rightarrow>
             en \<le> rg_base (rgns (memory mb) ! idx) + rg_size (rgns (memory mb) ! idx))"

definition memblock_is_region_reserved :: "memblock \<Rightarrow> phys_addr \<Rightarrow> phys_addr \<Rightarrow> bool" where
  "memblock_is_region_reserved mb base sz =
     memblock_overlaps_region (reserved mb) base (memblock_cap_size base sz)"

text \<open>The page frames handed to the buddy allocator, in order.\<close>

function free_late_loop :: "u64 \<Rightarrow> u64 \<Rightarrow> u64 list" where
  "free_late_loop cursor en = (if cursor < en then cursor # free_late_loop (cursor + 1) en else [])"
  by pat_completeness auto
termination
proof (relation "measure (\<lambda>(cursor, en). unat en - unat cursor)", goal_cases)
  case 1
  show ?case by simp
next
  case (2 cursor en)
  have "unat en < 2 ^ LENGTH(64)" by (rule unsigned_less)
  then have "unat (cursor + 1) = unat cursor + 1"
    using 2 by (subst unat_plus_small) (simp_all add: word_less_nat_alt)
  then show ?case using 2 by (simp add: word_less_nat_alt)
qed

declare free_late_loop.simps [simp del]

definition memblock_free_late :: "phys_addr \<Rightarrow> phys_addr \<Rightarrow> u64 list" where
  "memblock_free_late base sz = free_late_loop (PFN_UP base) (PFN_DOWN (base + sz))"

definition memblock_discard :: "memblock \<Rightarrow> u64 list" where
  "memblock_discard mb =
     (case reserved_array mb of None \<Rightarrow> []
      | Some addr \<Rightarrow> memblock_free_late addr (PAGE_ALIGN (sizeof_region * of_nat (rmax (reserved mb))))) @
     (case memory_array mb of None \<Rightarrow> []
      | Some addr \<Rightarrow> memblock_free_late addr (PAGE_ALIGN (sizeof_region * of_nat (rmax (memory mb)))))"

end
