(* ===== verification/Memblock_Safety.thy ===== *)
theory Memblock_Safety imports Memblock_Alloc begin

text \<open>
  What the allocator of \<open>Memblock_Alloc\<close> guarantees.  The contract of the mutually recursive requests is
  the locale \<open>memblock_calls\<close>, kept by every amount of fuel; the locale \<open>block_allocator\<close> derives from the
  promise of one allocation what a sequence of allocations gets.
\<close>

section \<open>Every request keeps the arrays well formed and has its effect on the memory map\<close>

definition minv :: "memblock \<Rightarrow> bool" where
  "minv mb \<longleftrightarrow> tinv (memory mb) \<and> tinv (reserved mb)"

lemma type_simps [simp]:
  "get_type w (set_type w t mb) = t"
  "get_type Memory (set_type Reserved t mb) = get_type Memory mb"
  "get_type Reserved (set_type Memory t mb) = get_type Reserved mb"
  "memory (set_type w t mb) = (if w = Memory then t else memory mb)"
  "reserved (set_type w t mb) = (if w = Reserved then t else reserved mb)"
  "set_type w (get_type w mb) mb = mb"
  by (cases w; simp add: get_type_def set_type_def)+

lemma minv_get: "minv mb \<Longrightarrow> tinv (get_type w mb)"
  by (cases w) (simp_all add: minv_def get_type_def)

lemma minv_set: "minv mb \<Longrightarrow> tinv t \<Longrightarrow> minv (set_type w t mb)"
  by (cases w) (simp_all add: minv_def set_type_def)

lemma bind_fuel_Inr: "bind_fuel r f = Some (Inr b) \<longleftrightarrow> (\<exists>a. r = Some (Inr a) \<and> f a = Some (Inr b))"
  by (auto simp: bind_fuel_def split: option.splits sum.splits)

lemma bind_fuel_simps [simp]:
  "bind_fuel None f = None" "bind_fuel (Some (Inl e)) f = Some (Inl e)" "bind_fuel (Some (Inr a)) f = f a"
  by (simp_all add: bind_fuel_def)

lemma cap_size_less:
  assumes "memblock_cap_size base sz \<noteq> 0"
  shows "base < base + memblock_cap_size base sz"
proof -
  let ?c = "memblock_cap_size base sz"
  have "?c \<le> PHYS_ADDR_MAX - base" by (simp add: memblock_cap_size_def)
  then have "unat ?c \<le> unat PHYS_ADDR_MAX - unat base"
    using unat_sub [OF PHYS_ADDR_MAX_ge, of base] by (simp add: word_le_nat_alt)
  moreover have "unat PHYS_ADDR_MAX < 2 ^ LENGTH(64)" by (rule unsigned_less)
  moreover have "unat base \<le> unat PHYS_ADDR_MAX" using PHYS_ADDR_MAX_ge [of base] by (simp only: word_le_nat_alt)
  ultimately have "unat (base + ?c) = unat base + unat ?c" by (intro unat_plus_small) linarith
  moreover have "0 < unat ?c" using assms by (simp add: unat_gt_0)
  ultimately show ?thesis by (simp add: word_less_nat_alt)
qed

lemma add_round_count: "add_round False base en f t = Inr (t, new_count base en (rgns t))"
  using add_loop_count [of t "[]" "rgns t" en f base 0] by (simp add: add_round_def)

text \<open>When the inserting round returns, the array had the room.\<close>

lemma add_loop_room:
  "add_loop True en f t idx base nr = Inr (t', idx', base', nr') \<Longrightarrow> length (rgns t) \<le> rmax t \<Longrightarrow> idx \<le> length (rgns t) \<Longrightarrow>
     length (rgns t') \<le> rmax t \<and> rmax t' = rmax t \<and>
     length (rgns t') + (if base' < en then 1 else 0) = length (rgns t) + new_count base en (drop idx (rgns t))"
proof (induction True en f t idx base nr arbitrary: t' idx' base' nr' rule: add_loop.induct)
  case (1 en f t idx base nr)
  show ?case
  proof (cases "idx < length (rgns t)")
    case False
    then show ?thesis using "1.prems" by (subst (asm) add_loop.simps) auto
  next
    case True
    note d = drop_split [OF True]
    let ?r = "rgns t ! idx"
    consider (brk) "en \<le> rg_base ?r" | (skip) "\<not> en \<le> rg_base ?r" "rg_end ?r \<le> base"
      | (ins) "\<not> en \<le> rg_base ?r" "\<not> rg_end ?r \<le> base" "base < rg_base ?r"
      | (over) "\<not> en \<le> rg_base ?r" "\<not> rg_end ?r \<le> base" "\<not> base < rg_base ?r" by blast
    then show ?thesis
    proof cases
      case brk
      then show ?thesis using "1.prems" True d by (subst (asm) add_loop.simps) (auto simp: rg_end_def)
    next
      case skip
      then show ?thesis using "1.prems" "1.hyps"(1) [OF True refl refl] True d
        by (subst (asm) add_loop.simps) (auto simp: rg_end_def Let_def)
    next
      case ins
      let ?t = "t\<lparr>rgns := take idx (rgns t) @ \<lparr>rg_base = base, rg_size = rg_base ?r - base, rg_flags = f\<rparr> # drop idx (rgns t),
                 total_size := total_size t + (rg_base ?r - base)\<rparr>"
      have ne: "\<not> rmax t \<le> length (rgns t)"
        and rec: "add_loop True en f ?t (Suc (Suc idx)) (min (rg_end ?r) en) (Suc nr) = Inr (t', idx', base', nr')"
        using "1.prems"(1) ins True unfolding add_loop.simps [of True en f t idx base nr] memblock_insert_region_def
        by (simp_all add: Let_def rg_end_def split: if_splits)
      have "drop (Suc (Suc idx)) (rgns ?t) = drop (Suc idx) (rgns t)" using True by (simp add: Suc_diff_le)
      moreover have "length (rgns ?t) = Suc (length (rgns t))" using True by simp
      ultimately show ?thesis
        using "1.hyps"(2) [OF True refl refl, of ?t t' idx' base' nr'] rec ne ins True d
        by (simp add: rg_end_def memblock_insert_region_def)
    next
      case over
      then show ?thesis using "1.prems" "1.hyps"(4) [OF True refl refl] True d
        by (subst (asm) add_loop.simps) (auto simp: rg_end_def Let_def)
    qed
  qed
qed

lemma add_insert_room:
  assumes "add_insert base en f t = Inr t'" and "length (rgns t) \<le> rmax t"
  shows "length (rgns t) + new_count base en (rgns t) \<le> rmax t"
proof -
  obtain t1 i b k where l: "add_loop True en f t 0 base 0 = Inr (t1, i, b, k)"
    and fin: "\<exists>x. add_finish True en f (t1, i, b, k) = Inr x"
    using assms(1) unfolding add_insert_def add_round_def by (auto simp: bind_run_eq_Inr)
  have "b < en \<Longrightarrow> length (rgns t1) < rmax t1"
    using fin by (auto simp: add_finish_def memblock_insert_region_def split: if_splits)
  then show ?thesis using add_loop_room [OF l assms(2)] by (auto split: if_splits)
qed

text \<open>What a request does to the memory map when it succeeds.\<close>

fun mem_effect :: "request \<Rightarrow> (phys_addr \<Rightarrow> u32 option) \<Rightarrow> phys_addr \<Rightarrow> u32 option" where
  "mem_effect (AddRange Memory base sz f) = fill base (base + memblock_cap_size base sz) f"
| "mem_effect (RemoveRange Memory base sz) = cut base (base + memblock_cap_size base sz)"
| "mem_effect (SetclrFlag base sz st flag) = update (flag_op st flag) base (base + memblock_cap_size base sz)"
| "mem_effect _ = id"

text \<open>And what it promises of the reserved map and of the room it was asked for.\<close>

fun promise :: "request \<Rightarrow> memblock \<Rightarrow> bool" where
  "promise (AddRange Reserved base sz f) mb =
     (\<forall>a. base \<le> a \<and> a < base + memblock_cap_size base sz \<longrightarrow> tmap (reserved mb) a \<noteq> None)"
| "promise (RemoveRange Reserved base sz) mb =
     (\<forall>a. base \<le> a \<and> a < base + memblock_cap_size base sz \<longrightarrow> tmap (reserved mb) a = None)"
| "promise (MakeRoom w k base sz) mb = (length (rgns (get_type w mb)) + k \<le> rmax (get_type w mb))"
| "promise _ mb = True"

lemma empty_effects [simp]: "fill b b f M = M" "cut b b M = M" "update g b b M = M"
  by (rule ext, auto simp: fill_def cut_def update_def)+

lemma fill_mapped: "b \<le> a \<Longrightarrow> a < e \<Longrightarrow> fill b e f M a \<noteq> None"
  by (simp add: fill_def)

lemma cut_unmapped: "b \<le> a \<Longrightarrow> a < e \<Longrightarrow> cut b e M a = None"
  by (simp add: cut_def)

lemma fill_covered: "tinv t \<Longrightarrow> rgns t \<noteq> [empty_region] \<Longrightarrow> new_count base en (rgns t) = 0 \<Longrightarrow> fill base en f (tmap t) = tmap t"
  using ins_list_amap [of 0 "rgns t" base en f] ins_list_none [of base en "rgns t" f] by (auto simp: tinv_def)

lemma first_region_ok:
  assumes "tinv t" and "rgns t = [empty_region]" and "base < base + sz"
  shows "tinv (first_region base sz f t)" and "tmap (first_region base sz f t) = fill base (base + sz) f (tmap t)"
  using assms by (auto simp: tinv_def first_region_def rg_end_def fill_def tmap_empty)

lemma tinv_empty_map: "tinv t \<Longrightarrow> tmap t = Map.empty \<longleftrightarrow> rgns t = [empty_region]"
proof (cases "rgns t")
  case (Cons r rs)
  assume inv: "tinv t"
  have "tmap t (rg_base r) \<noteq> None" if "rg_base r < rg_end r" using Cons that by simp
  then have "tmap t \<noteq> Map.empty" if "rg_base r < rg_end r" using that by auto
  then show ?thesis using Cons tmap_empty inv unfolding tinv_def by (metis list.inject wfl.simps(2))
qed (simp add: tinv_def)

text \<open>
  Freeing the old home of a grown array must not empty the reserved map, or the special case for the
  empty array would be missed.  That holds as long as one address \<open>p\<close>, say of the kernel image, stays
  reserved: no array is placed over it, since arrays are placed in free memory, so only a request to
  free it could release it.
\<close>

definition array_size :: "which \<Rightarrow> memblock \<Rightarrow> phys_addr" where
  "array_size w mb = PAGE_ALIGN (of_nat (rmax (get_type w mb)) * sizeof_region)"

definition in_block :: "phys_addr \<Rightarrow> phys_addr \<Rightarrow> phys_addr \<Rightarrow> bool" where
  "in_block p base sz \<longleftrightarrow> base \<le> p \<and> p < base + memblock_cap_size base sz"

definition pinned :: "phys_addr \<Rightarrow> memblock \<Rightarrow> bool" where
  "pinned p mb \<longleftrightarrow>
     tmap (reserved mb) p \<noteq> None \<and>
     (\<forall>w old. array_home w mb = Some old \<longrightarrow> \<not> in_block p old (array_size w mb))"

fun spares :: "phys_addr \<Rightarrow> request \<Rightarrow> bool" where
  "spares p (RemoveRange Reserved base sz) = (\<not> in_block p base sz)"
| "spares p _ = True"

definition post :: "phys_addr \<Rightarrow> request \<Rightarrow> int \<Rightarrow> memblock \<Rightarrow> memblock \<Rightarrow> bool" where
  "post p rq ret mb mb' \<longleftrightarrow>
     minv mb' \<and> pinned p mb' \<and> ret \<le> 0 \<and> (ret = 0 \<longrightarrow> promise rq mb') \<and>
     tmap (memory mb') = (if ret = 0 then mem_effect rq else id) (tmap (memory mb))"

lemma set_type_simps [simp]:
  "array_home v (set_type w t mb) = array_home v mb"
  "memblock_can_resize (set_type w t mb) = memblock_can_resize mb"
  by (simp_all add: set_type_def array_home_def split: which.splits)

lemma pinned_set:
  assumes "pinned p mb" and "rmax t = rmax (get_type w mb)" and "w = Reserved \<Longrightarrow> tmap t p \<noteq> None"
  shows "pinned p (set_type w t mb)"
proof -
  have "array_size v (set_type w t mb) = array_size v mb" for v
    using assms(2) by (cases v; cases w) (simp_all add: array_size_def)
  moreover have "tmap (reserved (set_type w t mb)) p \<noteq> None"
    using assms(1,3) by (cases w) (auto simp: pinned_def)
  ultimately show ?thesis using assms(1) unfolding pinned_def by simp
qed

lemma get_type_eqs [simp]: "get_type Memory mb = memory mb" "get_type Reserved mb = reserved mb"
  by (simp_all add: get_type_def)

lemma post_add:
  assumes "minv mb1" and "pinned p mb1" and "tmap (memory mb1) = tmap (memory mb)" and "tinv t"
    and "tmap t = fill base (base + memblock_cap_size base sz) f (tmap (get_type w mb1))"
    and "rmax t = rmax (get_type w mb1)"
  shows "post p (AddRange w base sz f) 0 mb (set_type w t mb1)"
proof -
  have "pinned p (set_type w t mb1)"
    using assms(5) by (intro pinned_set [OF assms(2,6)]) (use assms(2) in \<open>auto simp: pinned_def fill_def\<close>)
  then show ?thesis
    using assms minv_set [OF assms(1,4), of w] fill_mapped by (cases w) (auto simp: post_def)
qed

lemma post_remove:
  assumes "minv mb1" and "pinned p mb1" and "tmap (memory mb1) = tmap (memory mb)" and "tinv t"
    and "tmap t = cut base (base + memblock_cap_size base sz) (tmap (get_type w mb1))"
    and "rmax t = rmax (get_type w mb1)" and "spares p (RemoveRange w base sz)"
  shows "post p (RemoveRange w base sz) 0 mb (set_type w t mb1)"
proof -
  have "pinned p (set_type w t mb1)"
    using assms(5,7)
    by (intro pinned_set [OF assms(2,6)]) (use assms(2) in \<open>auto simp: pinned_def cut_def in_block_def\<close>)
  then show ?thesis
    using assms minv_set [OF assms(1,4), of w] cut_unmapped by (cases w) (auto simp: post_def)
qed

lemma post_setclr:
  assumes "minv mb1" and "pinned p mb1" and "tmap (memory mb1) = tmap (memory mb)" and "tinv t"
    and "tmap t = update (flag_op st flag) base (base + memblock_cap_size base sz) (tmap (memory mb1))"
    and "rmax t = rmax (memory mb1)"
  shows "post p (SetclrFlag base sz st flag) 0 mb (set_type Memory t mb1)"
  using assms minv_set [OF assms(1,4), of Memory] pinned_set [OF assms(2), of t Memory] by (auto simp: post_def)

lemma ENOMEM_simps [simp]: "- ENOMEM < 0" "- ENOMEM \<noteq> 0" "- ENOMEM \<le> 0" "ENOMEM \<noteq> 0" "0 \<le> ENOMEM"
  by (simp_all add: ENOMEM_def)

section \<open>Found memory is free\<close>

lemma room_block:
  assumes "room lo hi sz c"
  shows "{c..<c + sz} \<subseteq> {lo..<hi}" and "c \<le> c + sz" and "c + sz \<le> hi"
proof -
  have c: "unat c \<le> unat hi" "unat sz \<le> unat hi - unat c" "lo \<le> c"
    using assms by (auto simp: room_def word_le_nat_alt unat_sub)
  have "unat hi < 2 ^ LENGTH(64)" by (rule unsigned_less)
  then have "unat (c + sz) = unat c + unat sz" using c by (intro unat_plus_small) linarith
  then show e: "c \<le> c + sz" "c + sz \<le> hi" using c by (simp_all add: word_le_nat_alt)
  show "{c..<c + sz} \<subseteq> {lo..<hi}" using c(3) e by (auto intro: less_le_trans order_trans)
qed

lemma room_mono: "room lo hi sz c \<Longrightarrow> lo' \<le> lo \<Longrightarrow> hi \<le> hi' \<Longrightarrow> room lo' hi' sz c"
proof -
  assume r: "room lo hi sz c" and le: "lo' \<le> lo" "hi \<le> hi'"
  then have c: "unat c \<le> unat hi" "unat sz \<le> unat hi - unat c" "lo \<le> c" "unat hi \<le> unat hi'"
    by (auto simp: room_def word_le_nat_alt unat_sub)
  then have "unat c \<le> unat hi'" "unat sz \<le> unat hi' - unat c" by linarith+
  then show ?thesis using c(3) le(1) by (simp add: room_def word_le_nat_alt unat_sub)
qed

lemma tinv_listed: "tinv t \<Longrightarrow> listed (rgns t)"
  by (auto simp: tinv_def listed_def)

lemma range_room:
  assumes "\<exists>(s, e)\<in>set ranges. room (max s start) (min e en) sz c" and "(\<Union>(s, e)\<in>set ranges. {s..<e}) = F"
  shows "room start en sz c" and "{c..<c + sz} \<subseteq> F"
proof -
  obtain s e where se: "(s, e) \<in> set ranges" and r: "room (max s start) (min e en) sz c" using assms(1) by blast
  show "room start en sz c" by (rule room_mono [OF r]) auto
  have "{c..<c + sz} \<subseteq> {max s start..<min e en}" by (rule room_block [OF r])
  then show "{c..<c + sz} \<subseteq> F" using se assms(2) by fastforce
qed

definition find_limit :: "memblock \<Rightarrow> phys_addr \<Rightarrow> phys_addr \<Rightarrow> phys_addr" where
  "find_limit mb start en =
     max (max start PAGE_SIZE)
       (if en = MEMBLOCK_ALLOC_ACCESSIBLE \<or> en = MEMBLOCK_ALLOC_KASAN then current_limit mb else en)"

lemma find_in_range_node_finds:
  assumes inv: "minv mb" and "0 < sz" and "k < 64"
    and c: "c = memblock_find_in_range_node env mb sz (2 ^ k) start en nid flags" and "c \<noteq> 0"
  shows "is_aligned c (2 ^ k)" and "room (max start PAGE_SIZE) (find_limit mb start en) sz c"
    and "{c..<c + sz} \<subseteq> free_addrs nid flags (rgns (memory mb)) (rgns (reserved mb))"
proof -
  let ?ra = "rgns (memory mb)" and ?rb = "rgns (reserved mb)"
  let ?s = "max start PAGE_SIZE" and ?e = "find_limit mb start en"
  have l: "listed ?ra" "listed ?rb" using inv by (simp_all add: minv_def tinv_listed)
  have "is_aligned c (2 ^ k) \<and> room ?s ?e sz c \<and> {c..<c + sz} \<subseteq> free_addrs nid flags ?ra ?rb"
  proof (cases "bottom_up mb \<and> kernel_end env < ?e \<and>
      memblock_find_range_bottom_up ?ra ?rb (max ?s (kernel_end env)) ?e sz (2 ^ k) nid flags \<noteq> 0")
    case True
    let ?r = "mem_ranges nid flags ?ra ?rb 0 0" and ?s' = "max ?s (kernel_end env)"
    have ceq: "c = find_up ?s' ?e sz (2 ^ k) ?r"
      using True c by (simp add: memblock_find_in_range_node_def Let_def find_limit_def memblock_find_range_bottom_up_def)
    have "?s \<le> ?e" by (simp add: find_limit_def)
    then have se: "?s' \<le> ?e" using True less_imp_le [of "kernel_end env" ?e] by simp
    note f = find_up_finds [OF se assms(2,3), of ?r, folded ceq, OF \<open>c \<noteq> 0\<close>]
    note rr = range_room [OF f(1) mem_ranges_free [OF l]]
    show ?thesis using f(2) rr room_mono [OF rr(1), of ?s ?e] by auto
  next
    case False
    let ?r = "rev_ranges nid flags ?ra ?rb None"
    have ceq: "c = find_down ?s ?e sz (2 ^ k) ?r"
      using False c unfolding memblock_find_in_range_node_def Let_def
      by (simp add: find_limit_def memblock_find_range_top_down_def split: if_splits)
    have se: "?s \<le> ?e" by (simp add: find_limit_def)
    note f = find_down_finds [OF se assms(2), of k ?r, folded ceq, OF \<open>c \<noteq> 0\<close>]
    note rr = range_room [OF f(1) rev_ranges_free [OF l]]
    show ?thesis using f(2) rr by auto
  qed
  then show "is_aligned c (2 ^ k)" "room ?s ?e sz c" "{c..<c + sz} \<subseteq> free_addrs nid flags ?ra ?rb" by auto
qed

lemma PAGE_SIZE_pow: "PAGE_SIZE = 2 ^ 12"
  by (simp add: PAGE_SIZE_def)

lemma in_block_sub: "in_block p c sz \<Longrightarrow> c \<le> c + sz \<Longrightarrow> p \<in> {c..<c + sz}"
proof -
  assume i: "in_block p c sz" and le: "c \<le> c + sz"
  have "memblock_cap_size c sz \<le> sz" by (simp add: memblock_cap_size_def)
  then have "c + memblock_cap_size c sz \<le> c + sz" using le by (rule word_plus_mono_right)
  then show ?thesis using i by (auto simp: in_block_def)
qed

lemma find_in_range_avoids:
  assumes "minv mb" and "tmap (reserved mb) p \<noteq> None"
    and c: "c = memblock_find_in_range env mb start en sz PAGE_SIZE" and "c \<noteq> 0"
  shows "\<not> in_block p c sz"
proof
  assume i: "in_block p c sz"
  have "sz \<noteq> 0" using i by (auto simp: in_block_def memblock_cap_size_def)
  then have "0 < sz" by (simp add: word_neq_0_conv)
  obtain flags where "c = memblock_find_in_range_node env mb sz (2 ^ 12) start en NUMA_NO_NODE flags"
    using c unfolding memblock_find_in_range_def Let_def PAGE_SIZE_pow by (auto split: if_splits)
  note f = find_in_range_node_finds [OF assms(1) \<open>0 < sz\<close> _ this \<open>c \<noteq> 0\<close>]
  have "p \<in> {c..<c + sz}" using f(2) by (intro in_block_sub [OF i] room_block) simp
  then show False using f(3) assms(2) by (auto simp: free_addrs_def)
qed

lemma new_array_avoids:
  assumes "minv mb" and "tmap (reserved mb) p \<noteq> None" and "\<not> slab_is_available env"
    and "c = new_array_addr env w s z sz mb" and "c \<noteq> 0"
  shows "\<not> in_block p c (PAGE_ALIGN sz)"
  using assms(4) find_in_range_avoids [OF assms(1,2) _ assms(5)] assms(3)
  by (auto simp: new_array_addr_def Let_def split: if_splits)

lemma merge_ok:
  assumes "tinv t"
  obtains t' where "memblock_merge_regions t = Inr t'" and "tinv t'" and "tmap t' = tmap t" and "rmax t' = rmax t"
proof (cases "rgns t = [empty_region]")
  case True
  then have "memblock_merge_regions t = Inr t" unfolding memblock_merge_regions_def by (subst merge_loop.simps) simp
  then show ?thesis using that assms by blast
next
  case False
  then have w: "wfl 0 (rgns t)" "rgns t \<noteq> []" using assms by (auto simp: tinv_def)
  note ok = merge_list_ok [OF w(1)] and ne = merge_list_nonempty [OF w(2)]
  have "memblock_merge_regions t = Inr (t\<lparr>rgns := merge_list (rgns t)\<rparr>)"
    using merge_loop_list [of t "[]" "rgns t" 0, OF _ w(1)] by (simp add: memblock_merge_regions_def del: merge_list.simps)
  moreover have "tinv (t\<lparr>rgns := merge_list (rgns t)\<rparr>)"
    using ok ne assms by (simp add: tinv_def del: merge_list.simps)
  ultimately show ?thesis using that ok by (simp del: merge_list.simps)
qed

lemma setclr_none: "setclr_regions st flag t 0 0 = t"
proof -
  have "map_index_from (\<lambda>i r. r) i rs = rs" for i and rs :: "memblock_region list"
    by (induction rs arbitrary: i) auto
  then show ?thesis by (simp add: setclr_regions_def)
qed

lemma remove_none: "remove_regions t 0 0 = t"
  by (simp add: remove_regions_def)

locale memblock_calls =
  fixes call :: "request \<Rightarrow> memblock \<Rightarrow> answer" and p :: phys_addr
  assumes call_post: "minv mb \<Longrightarrow> pinned p mb \<Longrightarrow> spares p rq \<Longrightarrow> call rq mb = Some (Inr (ret, mb')) \<Longrightarrow> post p rq ret mb mb'"
begin

lemma room_call:
  assumes "minv mb" and "pinned p mb" and "call (MakeRoom w k base sz) mb = Some (Inr (ret, mb1))"
  shows "minv mb1" and "pinned p mb1" and "tmap (memory mb1) = tmap (memory mb)" and "ret \<le> 0"
    and "\<not> ret < 0 \<Longrightarrow> length (rgns (get_type w mb1)) + k \<le> rmax (get_type w mb1)"
    and "rgns (get_type w mb) \<noteq> [empty_region] \<Longrightarrow> rgns (get_type w mb1) \<noteq> [empty_region]"
proof -
  have ps: "post p (MakeRoom w k base sz) ret mb mb1" using call_post [OF assms(1,2) _ assms(3)] by simp
  show "minv mb1" "pinned p mb1" "ret \<le> 0" using ps by (auto simp: post_def)
  show m: "tmap (memory mb1) = tmap (memory mb)" using ps by (auto simp: post_def split: if_splits)
  show "length (rgns (get_type w mb1)) + k \<le> rmax (get_type w mb1)" if "\<not> ret < 0"
    using ps that by (auto simp: post_def)
  show "rgns (get_type w mb1) \<noteq> [empty_region]" if ne: "rgns (get_type w mb) \<noteq> [empty_region]"
  proof (cases w)
    case Memory
    then show ?thesis
      using ne m tinv_empty_map [of "memory mb"] tinv_empty_map [of "memory mb1"] assms(1) \<open>minv mb1\<close>
      by (auto simp: minv_def)
  next
    case Reserved
    then show ?thesis using \<open>pinned p mb1\<close> tmap_empty by (auto simp: pinned_def)
  qed
qed

lemma add_range_post:
  assumes inv: "minv mb" and pin: "pinned p mb" and run: "memblock_add_range call w base size0 f mb = Some (Inr (ret, mb'))"
  shows "post p (AddRange w base size0 f) ret mb mb'"
proof -
  let ?sz = "memblock_cap_size base size0"
  let ?en = "base + ?sz"
  let ?t = "get_type w mb"
  note ti = minv_get [OF inv, of w]
  note run' = run [unfolded memblock_add_range_def Let_def add_round_count tinv_dummy [OF ti]]
  note add_same = post_add [OF inv pin refl, of _ base size0 f w]
  consider (same) "fill base ?en f (tmap ?t) = tmap ?t" "ret = 0" "mb' = set_type w ?t mb"
    | (first) "?sz \<noteq> 0" "rgns ?t = [empty_region]"
    | (ins) "?sz \<noteq> 0" "rgns ?t \<noteq> [empty_region]" "new_count base ?en (rgns ?t) \<noteq> 0"
    using run' fill_covered [OF ti] by (cases "?sz = 0"; cases "rgns ?t = [empty_region]"; cases "new_count base ?en (rgns ?t) = 0") simp_all
  then show ?thesis
  proof cases
    case same
    then show ?thesis using add_same [OF ti] by simp
  next
    case first
    then have "ret = 0" "mb' = set_type w (first_region base ?sz f ?t) mb" using run' by auto
    then show ?thesis
      using add_same [OF first_region_ok [OF ti first(2) cap_size_less [OF first(1)]]] by (simp add: first_region_def)
  next
    case ins
    obtain r mb1 where room: "call (MakeRoom w (new_count base ?en (rgns ?t)) base ?sz) mb = Some (Inr (r, mb1))"
      and rest: "(if r < 0 then Some (Inr (- ENOMEM, mb1))
             else bind_fuel (Some (add_insert base ?en f (get_type w mb1))) (\<lambda>t'.
               Some (Inr (0, set_type w t' mb1)))) = Some (Inr (ret, mb'))"
      using run' ins by (auto simp: bind_fuel_Inr)
    note rc = room_call [OF inv pin room]
    show ?thesis
    proof (cases "r < 0")
      case True
      then show ?thesis using rest rc by (auto simp: post_def)
    next
      case False
      then obtain t' where ai: "add_insert base ?en f (get_type w mb1) = Inr t'"
        and res: "ret = 0" "mb' = set_type w t' mb1" using rest by (auto simp: bind_fuel_Inr)
      note ti1 = minv_get [OF rc(1), of w]
      have "length (rgns (get_type w mb1)) + new_count base ?en (rgns (get_type w mb1)) \<le> rmax (get_type w mb1)"
        using add_insert_room [OF ai] ti1 by (simp add: tinv_def)
      from add_insert_ok [OF ti1 rc(6) [OF ins(2)] this, of f] ai
      have "tinv t'" "tmap t' = fill base ?en f (tmap (get_type w mb1))" "rmax t' = rmax (get_type w mb1)" by auto
      then show ?thesis using res post_add [OF rc(1,2,3)] by simp
    qed
  qed
qed

lemma isolate_cases:
  assumes inv: "minv mb" and pin: "pinned p mb"
    and run: "memblock_isolate_range call w base size0 use mb = Some (Inr (ret, mb'))"
  obtains (none) t' where "memblock_cap_size base size0 = 0" "use (get_type w mb) 0 0 = Inr t'" "ret = 0" "mb' = set_type w t' mb"
  | (full) "ret = - ENOMEM" "minv mb'" "pinned p mb'" "tmap (memory mb') = tmap (memory mb)"
  | (isolated) t' mb1 where "minv mb1" "pinned p mb1" "tmap (memory mb1) = tmap (memory mb)"
      "tinv (get_type w mb1)" "base < base + memblock_cap_size base size0"
      "length (rgns (get_type w mb1)) + 2 \<le> rmax (get_type w mb1)"
      "bind_run (isolate_loop base (base + memblock_cap_size base size0) (get_type w mb1) 0 0 0)
         (\<lambda>(t, s, e). use t s e) = Inr t'" "ret = 0" "mb' = set_type w t' mb1"
proof (cases "memblock_cap_size base size0 = 0")
  case True
  then show ?thesis using run none unfolding memblock_isolate_range_def Let_def by (auto simp: bind_fuel_Inr)
next
  case False
  then obtain r mb1 where rm: "call (MakeRoom w 2 base (memblock_cap_size base size0)) mb = Some (Inr (r, mb1))"
    using run unfolding memblock_isolate_range_def Let_def by (auto simp: bind_fuel_Inr)
  note rc = room_call [OF inv pin rm]
  show ?thesis
  proof (cases "r < 0")
    case True
    then show ?thesis
      using run False rm rc full unfolding memblock_isolate_range_def Let_def by simp
  next
    case r: False
    then obtain t' where "bind_run (isolate_loop base (base + memblock_cap_size base size0) (get_type w mb1) 0 0 0)
         (\<lambda>(t, s, e). use t s e) = Inr t'" "ret = 0" "mb' = set_type w t' mb1"
      using run False rm unfolding memblock_isolate_range_def Let_def by (auto simp: bind_fuel_Inr)
    then show ?thesis using isolated rc r minv_get [OF rc(1)] cap_size_less [OF False] by blast
  qed
qed

lemma remove_range_post:
  assumes inv: "minv mb" and pin: "pinned p mb" and sp: "spares p (RemoveRange w base size0)"
    and run: "memblock_remove_range call w base size0 mb = Some (Inr (ret, mb'))"
  shows "post p (RemoveRange w base size0) ret mb mb'"
  using run unfolding memblock_remove_range_def
proof (rule isolate_cases [OF inv pin], goal_cases)
  case (1 t')
  then show ?case using post_remove [OF inv pin refl minv_get [OF inv] _ refl sp] by (simp add: remove_none)
next
  case 2
  then show ?case by (simp add: post_def)
next
  case (3 t' mb1)
  obtain t2 where "isolate_remove base (base + memblock_cap_size base size0) (get_type w mb1) = Inr t2" "tinv t2"
    "tmap t2 = cut base (base + memblock_cap_size base size0) (tmap (get_type w mb1))" "rmax t2 = rmax (get_type w mb1)"
    by (rule isolate_remove_ok [OF 3(4,5,6)])
  then show ?case using 3 post_remove [OF 3(1,2,3), of t2 base size0 w] sp by (simp add: isolate_remove_def)
qed

lemma setclr_post:
  assumes inv: "minv mb" and pin: "pinned p mb"
    and run: "memblock_setclr_flag call base size0 st flag mb = Some (Inr (ret, mb'))"
  shows "post p (SetclrFlag base size0 st flag) ret mb mb'"
  using run unfolding memblock_setclr_flag_def
proof (rule isolate_cases [OF inv pin], goal_cases)
  case (1 t')
  obtain t2 where "memblock_merge_regions (memory mb) = Inr t2" "tinv t2" "tmap t2 = tmap (memory mb)" "rmax t2 = rmax (memory mb)"
    using merge_ok minv_get [OF inv, of Memory] by (metis get_type_eqs(1))
  then show ?case using 1 post_setclr [OF inv pin refl, of t2 st flag base size0] by (simp add: setclr_none)
next
  case 2
  then show ?case by (simp add: post_def)
next
  case (3 t' mb1)
  obtain t2 where "isolate_setclr st flag base (base + memblock_cap_size base size0) (get_type Memory mb1) = Inr t2" "tinv t2"
    "tmap t2 = update (flag_op st flag) base (base + memblock_cap_size base size0) (tmap (get_type Memory mb1))"
    "rmax t2 = rmax (get_type Memory mb1)"
    by (rule isolate_setclr_ok [OF 3(4,5,6)])
  then show ?case using 3 post_setclr [OF 3(1,2,3), of t2 st flag base size0] by (simp add: isolate_setclr_def)
qed

lemma post_quiet:
  assumes "minv mb" "pinned p mb" "call rq mb = Some (Inr (ret, mb'))" "spares p rq"
    and "mem_effect rq = id"
  shows "minv mb' \<and> pinned p mb' \<and> tmap (memory mb') = tmap (memory mb) \<and> ret \<le> 0 \<and> (ret = 0 \<longrightarrow> promise rq mb')"
  using call_post [OF assms(1,2,4,3)] assms(5) by (auto simp: post_def split: if_splits)

lemma make_room_post:
  assumes inv: "minv mb" and pin: "pinned p mb" and run: "memblock_make_room call w k base sz mb = Some (Inr (ret, mb'))"
  shows "post p (MakeRoom w k base sz) ret mb mb'"
proof (cases "rmax (get_type w mb) < length (rgns (get_type w mb)) + k")
  case False
  then show ?thesis using run inv pin by (auto simp: memblock_make_room_def post_def)
next
  case True
  then obtain r mb1 where d: "call (DoubleArray w base sz) mb = Some (Inr (r, mb1))"
    and rest: "(if r < 0 then Some (Inr (r, mb1)) else call (MakeRoom w k base sz) mb1) = Some (Inr (ret, mb'))"
    using run by (auto simp: memblock_make_room_def bind_fuel_Inr)
  note q = post_quiet [OF inv pin d]
  have q1: "minv mb1" "pinned p mb1" "tmap (memory mb1) = tmap (memory mb)" using q by auto
  show ?thesis
  proof (cases "r < 0")
    case True
    then show ?thesis using q1 rest by (auto simp: post_def)
  next
    case False
    then show ?thesis using post_quiet [OF q1(1,2), of "MakeRoom w k base sz" ret mb'] q1 rest by (auto simp: post_def)
  qed
qed

lemma move_array_kept:
  assumes inv: "minv mb" and pin: "pinned p mb"
    and avoid: "\<not> in_block p addr (PAGE_ALIGN (push_bit 1 (of_nat (rmax (get_type w mb)) * sizeof_region)))"
  shows "minv (move_array w addr mb)" and "pinned p (move_array w addr mb)"
    and "tmap (memory (move_array w addr mb)) = tmap (memory mb)"
proof -
  have sz: "push_bit 1 (of_nat n * sizeof_region) = of_nat (2 * n) * sizeof_region" for n
    by (simp add: push_bit_eq_mult)
  show "minv (move_array w addr mb)" "tmap (memory (move_array w addr mb)) = tmap (memory mb)"
    using inv by (cases w; auto simp: move_array_def minv_def tinv_def set_type_def Let_def)+
  show "pinned p (move_array w addr mb)"
    using pin avoid [unfolded sz]
    by (cases w) (auto simp: move_array_def pinned_def set_type_def Let_def array_home_def array_size_def split: which.splits)
qed

lemma set_in_slab_kept:
  "minv (set_in_slab w b mb) = minv mb" "pinned p (set_in_slab w b mb) = pinned p mb"
  "memory (set_in_slab w b mb) = memory mb"
  by (cases w; simp add: set_in_slab_def minv_def pinned_def array_home_def array_size_def get_type_def split: which.splits)+

end

context memblock_calls
begin

lemma double_array_post:
  assumes inv: "minv mb" and pin: "pinned p mb" and slab: "\<not> slab_is_available env"
    and run: "memblock_double_array call env w start sz mb = Some (Inr (ret, mb'))"
  shows "post p (DoubleArray w start sz) ret mb mb'"
proof -
  let ?old = "of_nat (rmax (get_type w mb)) * sizeof_region"
  let ?addr = "new_array_addr env w start sz (push_bit 1 ?old) mb"
  let ?m1 = "move_array w ?addr mb"
  show ?thesis
  proof (cases "\<not> memblock_can_resize mb \<or> ?addr = 0")
    case True
    then have "ret = - 1" "mb' = mb"
      using run unfolding memblock_double_array_def Let_def by (auto split: if_splits)
    then show ?thesis using inv pin by (simp add: post_def)
  next
    case False
    have res: "tmap (reserved mb) p \<noteq> None" using pin by (simp add: pinned_def)
    have av: "\<not> in_block p ?addr (PAGE_ALIGN (push_bit 1 ?old))"
      using new_array_avoids [OF inv res slab refl] False by blast
    note m1 = move_array_kept [OF inv pin av]
    obtain r2 mb2 ret3 mb3 where
      fr: "(if in_slab w mb then Some (Inr (0, ?m1))
            else case array_home w mb of None \<Rightarrow> Some (Inr (0, ?m1))
                 | Some old \<Rightarrow> call (RemoveRange Reserved old (PAGE_ALIGN ?old)) ?m1) = Some (Inr (r2, mb2))"
      and rs: "call (AddRange Reserved ?addr (PAGE_ALIGN (push_bit 1 ?old)) 0) mb2 = Some (Inr (ret3, mb3))"
      and fin: "ret = 0" "mb' = set_in_slab w False mb3"
      using run False slab unfolding memblock_double_array_def Let_def
      by (auto simp: bind_fuel_Inr split: if_splits)
    have "minv mb2 \<and> pinned p mb2 \<and> tmap (memory mb2) = tmap (memory mb)"
    proof (cases "in_slab w mb \<or> array_home w mb = None")
      case True
      then show ?thesis using fr m1 by (auto split: if_splits)
    next
      case False
      then obtain old where h: "array_home w mb = Some old" by auto
      have "spares p (RemoveRange Reserved old (PAGE_ALIGN ?old))"
        using pin h by (simp add: pinned_def array_size_def)
      then show ?thesis using post_quiet [OF m1(1,2)] fr h False m1(3) by auto
    qed
    then have m2: "minv mb2" "pinned p mb2" "tmap (memory mb2) = tmap (memory mb)" by auto
    then have "minv mb3 \<and> pinned p mb3 \<and> tmap (memory mb3) = tmap (memory mb)" using post_quiet [OF m2(1,2) rs] by auto
    then show ?thesis using fin by (simp add: post_def set_in_slab_kept)
  qed
qed

lemma serve_post:
  assumes "minv mb" and "pinned p mb" and "spares p rq" and "\<not> slab_is_available env"
    and "memblock_serve env call rq mb = Some (Inr (ret, mb'))"
  shows "post p rq ret mb mb'"
  using assms add_range_post remove_range_post setclr_post make_room_post double_array_post
  by (cases rq) (auto simp: memblock_serve_def)

end

lemma exec_calls: "\<not> slab_is_available env \<Longrightarrow> memblock_calls (memblock_exec n env) p"
proof (induction n)
  case 0
  show ?case by unfold_locales simp
next
  case (Suc n)
  then have c: "memblock_calls (memblock_exec n env) p" by blast
  show ?case
    by unfold_locales (use memblock_calls.serve_post [OF c] Suc.prems in simp)
qed

text \<open>An environment before the slab allocator is up.\<close>

definition early_env :: "env \<Rightarrow> env" where
  "early_env env = env\<lparr>slab_is_available := False\<rparr>"

interpretation early: memblock_calls "memblock_exec n (early_env env)" p for n env p
  by (rule exec_calls) (simp add: early_env_def)

section \<open>Without resizing\<close>

text \<open>Before \<^verbatim>\<open>memblock_allow_resize\<close> a request that needs a larger array fails and changes nothing.\<close>

lemma exec_room:
  "memblock_exec (Suc (Suc n)) env (MakeRoom w k base sz) mb =
     (if length (rgns (get_type w mb)) + k \<le> rmax (get_type w mb) then Some (Inr (0, mb))
      else bind_fuel (memblock_exec (Suc n) env (DoubleArray w base sz) mb) (\<lambda>(ret, mb1).
          if ret < 0 then Some (Inr (ret, mb1)) else memblock_exec (Suc n) env (MakeRoom w k base sz) mb1))"
  unfolding memblock_exec.simps(2) [of "Suc n"] memblock_serve_def [of env "memblock_exec (Suc n) env"] memblock_make_room_def
  by (simp add: not_less del: memblock_exec.simps)

lemma exec_room_static:
  assumes "\<not> memblock_can_resize mb"
  shows "memblock_exec (Suc (Suc n)) env (MakeRoom w k base sz) mb =
     Some (Inr (if length (rgns (get_type w mb)) + k \<le> rmax (get_type w mb) then 0 else - 1, mb))"
  using assms unfolding exec_room by (simp add: memblock_serve_def memblock_double_array_def)

definition fits :: "phys_addr \<Rightarrow> phys_addr \<Rightarrow> memblock_type \<Rightarrow> bool" where
  "fits base size0 t \<longleftrightarrow>
     memblock_cap_size base size0 = 0 \<or> rgns t = [empty_region] \<or>
     new_count base (base + memblock_cap_size base size0) (rgns t) = 0 \<or>
     length (rgns t) + new_count base (base + memblock_cap_size base size0) (rgns t) \<le> rmax t"

text \<open>The request that finds room, whatever the resizing state.\<close>

lemma add_range_fits:
  assumes inv: "minv mb" and fit: "fits base size0 (get_type w mb)"
  obtains t where "memblock_exec (Suc (Suc (Suc n))) env (AddRange w base size0 f) mb = Some (Inr (0, set_type w t mb))"
    and "tinv t" and "tmap t = fill base (base + memblock_cap_size base size0) f (tmap (get_type w mb))"
    and "rmax t = rmax (get_type w mb)"
proof -
  let ?sz = "memblock_cap_size base size0"
  let ?en = "base + ?sz"
  let ?t = "get_type w mb"
  note ti = minv_get [OF inv, of w]
  have run: "memblock_exec (Suc (Suc (Suc n))) env (AddRange w base size0 f) mb =
      memblock_add_range (memblock_exec (Suc (Suc n)) env) w base size0 f mb" by (simp add: memblock_serve_def)
  note run' = run [unfolded memblock_add_range_def Let_def add_round_count tinv_dummy [OF ti]]
  consider (same) "fill base ?en f (tmap ?t) = tmap ?t"
        "memblock_exec (Suc (Suc (Suc n))) env (AddRange w base size0 f) mb = Some (Inr (0, set_type w ?t mb))"
    | (first) "?sz \<noteq> 0" "rgns ?t = [empty_region]"
    | (ins) "?sz \<noteq> 0" "rgns ?t \<noteq> [empty_region]" "new_count base ?en (rgns ?t) \<noteq> 0"
    using run' fill_covered [OF ti]
    by (cases "?sz = 0"; cases "rgns ?t = [empty_region]"; cases "new_count base ?en (rgns ?t) = 0") simp_all
  then show ?thesis
  proof cases
    case same
    then show ?thesis using that [OF same(2) ti] by simp
  next
    case first
    then have "memblock_exec (Suc (Suc (Suc n))) env (AddRange w base size0 f) mb = Some (Inr (0, set_type w (first_region base ?sz f ?t) mb))"
      using run' by simp
    then show ?thesis
      using that first_region_ok [OF ti first(2) cap_size_less [OF first(1)], of f] by (simp add: first_region_def)
  next
    case ins
    then have r: "length (rgns ?t) + new_count base ?en (rgns ?t) \<le> rmax ?t" using fit by (simp add: fits_def)
    obtain t' where ai: "add_insert base ?en f ?t = Inr t'" "tinv t'" "tmap t' = fill base ?en f (tmap ?t)" "rmax t' = rmax ?t"
      by (rule add_insert_ok [OF ti ins(2) r])
    have "memblock_exec (Suc (Suc n)) env (MakeRoom w (new_count base ?en (rgns ?t)) base ?sz) mb = Some (Inr (0, mb))"
      unfolding exec_room using r by simp
    then show ?thesis using that [OF _ ai(2,3,4)] run' ins ai(1) by simp
  qed
qed

lemma add_range_full:
  assumes "minv mb" and "\<not> memblock_can_resize mb" and "\<not> fits base size0 (get_type w mb)"
  shows "memblock_exec (Suc (Suc (Suc n))) env (AddRange w base size0 f) mb = Some (Inr (- ENOMEM, mb))"
proof -
  let ?sz = "memblock_cap_size base size0"
  let ?t = "get_type w mb"
  have ex: "memblock_exec (Suc (Suc n)) env (MakeRoom w (new_count base (base + ?sz) (rgns ?t)) base ?sz) mb = Some (Inr (- 1, mb))"
    using assms(3) unfolding exec_room_static [OF assms(2)] by (simp add: fits_def)
  have "memblock_exec (Suc (Suc (Suc n))) env (AddRange w base size0 f) mb =
      memblock_add_range (memblock_exec (Suc (Suc n)) env) w base size0 f mb" by (simp add: memblock_serve_def)
  then show ?thesis
    unfolding memblock_add_range_def Let_def add_round_count tinv_dummy [OF minv_get [OF assms(1)]]
    using assms(3) ex by (simp add: fits_def)
qed

section \<open>Allocation\<close>

lemma room_cap: "room lo hi sz c \<Longrightarrow> memblock_cap_size c sz = sz"
  using room_mono [of lo hi sz c lo PHYS_ADDR_MAX] by (simp add: room_def memblock_cap_size_def)

lemma set_type_minv: "minv mb \<Longrightarrow> tinv t \<Longrightarrow> minv (set_type Reserved t mb)"
  by (rule minv_set)

text \<open>A block that is wholly unreserved takes one new region.\<close>

lemma new_count_free:
  "wfl lb rs \<Longrightarrow> base < en \<Longrightarrow> \<forall>a. base \<le> a \<and> a < en \<longrightarrow> amap rs a = None \<Longrightarrow> new_count base en rs = 1"
proof (induction rs arbitrary: lb)
  case (Cons r rs)
  show ?case
  proof (cases "\<not> en \<le> rg_base r \<and> \<not> rg_end r \<le> base")
    case True
    then have "rg_base r \<le> max base (rg_base r)" "max base (rg_base r) < rg_end r" using Cons.prems(1) by (simp_all add: not_le)
    then have "amap (r # rs) (max base (rg_base r)) \<noteq> None" by simp
    then show ?thesis using Cons.prems(2,3) True by (metis max.cobounded1 max_less_iff_conj not_le)
  next
    case False
    have "\<forall>a. base \<le> a \<and> a < en \<longrightarrow> amap rs a = None" using Cons.prems(3) by (auto split: if_splits)
    then show ?thesis using False Cons by auto
  qed
qed simp

lemma free_block_fits:
  assumes "tinv t" and "length (rgns t) < rmax t" and "\<forall>a. base \<le> a \<and> a < base + memblock_cap_size base sz \<longrightarrow> tmap t a = None"
  shows "fits base sz t"
proof (cases "memblock_cap_size base sz = 0 \<or> rgns t = [empty_region]")
  case True
  then show ?thesis by (auto simp: fits_def)
next
  case False
  then have "wfl 0 (rgns t)" using assms(1) by (auto simp: tinv_def)
  then have "new_count base (base + memblock_cap_size base sz) (rgns t) = 1"
    using new_count_free cap_size_less False assms(3) by blast
  then show ?thesis using assms(2) by (simp add: fits_def)
qed

lemma free_addrs_any:
  assumes "flags AND MEMBLOCK_NOMAP = 0"
  shows "free_addrs nid flags ra rb \<subseteq> free_addrs NUMA_NO_NODE MEMBLOCK_NONE ra rb"
proof -
  have "any_node NUMA_NO_NODE = NUMA_NO_NODE" by (simp add: any_node_def NUMA_NO_NODE_def MAX_NUMNODES_def)
  then have "skips NUMA_NO_NODE MEMBLOCK_NONE m \<Longrightarrow> skips nid flags m" for m
    using assms by (auto simp: should_skip_region_def MEMBLOCK_NONE_def)
  then show ?thesis by (auto simp: free_addrs_def)
qed

lemma chosen_flags:
  "choose_memblock_flags mb AND MEMBLOCK_NOMAP = 0"
  "choose_memblock_flags mb AND NOT MEMBLOCK_MIRROR = MEMBLOCK_NONE"
  "choose_memblock_flags mb AND MEMBLOCK_MIRROR = 0 \<Longrightarrow> choose_memblock_flags mb = MEMBLOCK_NONE"
  by (cases "system_has_some_mirror mb";
      simp add: choose_memblock_flags_def MEMBLOCK_MIRROR_def MEMBLOCK_NOMAP_def MEMBLOCK_NONE_def)+

text \<open>What a successful allocation of \<open>c\<close> promises.\<close>

definition granted ::
  "phys_addr \<Rightarrow> phys_addr \<Rightarrow> phys_addr \<Rightarrow> phys_addr \<Rightarrow> phys_addr \<Rightarrow> memblock \<Rightarrow> memblock \<Rightarrow> bool" where
  "granted sz align start en c mb mb' \<longleftrightarrow>
     is_aligned c align \<and> room (max start PAGE_SIZE) (find_limit mb start en) sz c \<and>
     {c..<c + sz} \<subseteq> free_addrs NUMA_NO_NODE MEMBLOCK_NONE (rgns (memory mb)) (rgns (reserved mb)) \<and>
     minv mb' \<and> memory mb' = memory mb \<and> memblock_can_resize mb' = memblock_can_resize mb \<and>
     tmap (reserved mb') = fill c (c + sz) 0 (tmap (reserved mb))"

text \<open>No free range has room for an aligned block.\<close>

definition no_room :: "phys_addr \<Rightarrow> phys_addr \<Rightarrow> phys_addr \<Rightarrow> phys_addr \<Rightarrow> memblock \<Rightarrow> bool" where
  "no_room sz align start en mb \<longleftrightarrow>
     (\<forall>(s, e)\<in>set (rev_ranges NUMA_NO_NODE MEMBLOCK_NONE (rgns (memory mb)) (rgns (reserved mb)) None). \<forall>c.
        is_aligned c align \<longrightarrow> \<not> room (max s (max start PAGE_SIZE)) (min e (find_limit mb start en)) sz c)"

lemma find_none_no_room:
  assumes "0 < sz" and "memblock_find_in_range_node env mb sz (2 ^ k) start en NUMA_NO_NODE MEMBLOCK_NONE = 0"
  shows "no_room sz (2 ^ k) start en mb"
proof -
  let ?r = "rev_ranges NUMA_NO_NODE MEMBLOCK_NONE (rgns (memory mb)) (rgns (reserved mb)) None"
  have "find_down (max start PAGE_SIZE) (find_limit mb start en) sz (2 ^ k) ?r = 0"
    using assms(2) unfolding memblock_find_in_range_node_def Let_def find_limit_def [symmetric] memblock_find_range_top_down_def
    by (auto split: if_splits)
  moreover have "max start PAGE_SIZE \<le> find_limit mb start en" by (simp add: find_limit_def)
  moreover have "0 < max start PAGE_SIZE" by (simp add: less_max_iff_disj PAGE_SIZE_def)
  ultimately show ?thesis
    using find_down_fails [OF _ assms(1)] unfolding no_room_def by blast
qed

lemma reserve_found_static:
  assumes inv: "minv mb" and st: "\<not> memblock_can_resize mb" and sz: "0 < sz" and k: "k < 64"
    and fl: "flags AND MEMBLOCK_NOMAP = 0"
    and found: "found = memblock_find_in_range_node env mb sz (2 ^ k) start en nid flags"
  obtains c mb' where "reserve_found (n + 3) env sz found mb = Some (Inr (c, mb'))"
    and "c = 0 \<longrightarrow> mb' = mb" and "c \<noteq> 0 \<longrightarrow> granted sz (2 ^ k) start en c mb mb'"
    and "c = 0 \<longrightarrow> length (rgns (reserved mb)) < rmax (reserved mb) \<longrightarrow> found = 0"
proof (cases "found = 0")
  case True
  then show ?thesis using that [of 0 mb] by (simp add: reserve_found_def)
next
  case False
  note f = find_in_range_node_finds [OF inv sz k found False]
  note cap = room_cap [OF f(2)]
  have free: "{found..<found + sz} \<subseteq> free_addrs NUMA_NO_NODE MEMBLOCK_NONE (rgns (memory mb)) (rgns (reserved mb))"
    using f(3) free_addrs_any [OF fl] by blast
  have n3: "n + 3 = Suc (Suc (Suc n))" by simp
  show ?thesis
  proof (cases "fits found sz (reserved mb)")
    case True
    obtain t where "memblock_exec (n + 3) env (AddRange Reserved found sz 0) mb = Some (Inr (0, set_type Reserved t mb))"
      "tinv t" "tmap t = fill found (found + memblock_cap_size found sz) 0 (tmap (get_type Reserved mb))"
      using add_range_fits [OF inv, of found sz Reserved] True n3 by (metis get_type_eqs(2))
    moreover from this have "granted sz (2 ^ k) start en found mb (set_type Reserved t mb)"
      using f(1,2) free minv_set [OF inv] by (simp add: granted_def cap)
    ultimately show ?thesis
      using that [of found "set_type Reserved t mb"] False by (simp add: reserve_found_def memblock_reserve_def)
  next
    case nofit: False
    have "memblock_exec (n + 3) env (AddRange Reserved found sz 0) mb = Some (Inr (- ENOMEM, mb))"
      using add_range_full [OF inv st, of found sz Reserved] nofit by (simp add: n3 del: memblock_exec.simps)
    moreover have "\<forall>a. found \<le> a \<and> a < found + sz \<longrightarrow> tmap (reserved mb) a = None"
      using free by (auto simp: free_addrs_def subset_iff)
    then have "\<not> length (rgns (reserved mb)) < rmax (reserved mb)"
      using free_block_fits [of "reserved mb" found sz] nofit inv by (auto simp: cap minv_def)
    ultimately show ?thesis
      using that [of 0 mb] False by (simp add: reserve_found_def memblock_reserve_def)
  qed
qed

lemma alloc_pass_static:
  assumes inv: "minv mb" and st: "\<not> memblock_can_resize mb" and sz: "0 < sz" and k: "k < 64"
    and fl: "flags AND MEMBLOCK_NOMAP = 0"
  obtains c mb' where "alloc_pass (n + 3) env sz (2 ^ k) start en nid exact flags mb = Some (Inr (c, mb'))"
    and "c = 0 \<longrightarrow> mb' = mb" and "c \<noteq> 0 \<longrightarrow> granted sz (2 ^ k) start en c mb mb'"
    and "c = 0 \<longrightarrow> length (rgns (reserved mb)) < rmax (reserved mb) \<longrightarrow>
           memblock_find_in_range_node env mb sz (2 ^ k) start en nid flags = 0"
proof -
  obtain c1 mb1 where r1: "reserve_found (n + 3) env sz (memblock_find_in_range_node env mb sz (2 ^ k) start en nid flags) mb = Some (Inr (c1, mb1))"
    and p1: "c1 = 0 \<longrightarrow> mb1 = mb" "c1 \<noteq> 0 \<longrightarrow> granted sz (2 ^ k) start en c1 mb mb1"
      "c1 = 0 \<longrightarrow> length (rgns (reserved mb)) < rmax (reserved mb) \<longrightarrow> memblock_find_in_range_node env mb sz (2 ^ k) start en nid flags = 0"
    by (rule reserve_found_static [OF inv st sz k fl refl, where n = n and env = env and start = start and en = en and nid = nid])
  obtain c2 mb2 where r2: "reserve_found (n + 3) env sz (memblock_find_in_range_node env mb sz (2 ^ k) start en NUMA_NO_NODE flags) mb = Some (Inr (c2, mb2))"
    and p2: "c2 = 0 \<longrightarrow> mb2 = mb" "c2 \<noteq> 0 \<longrightarrow> granted sz (2 ^ k) start en c2 mb mb2"
    by (rule reserve_found_static [OF inv st sz k fl refl, where n = n and env = env and start = start and en = en and nid = NUMA_NO_NODE])
  note run = alloc_pass_def [of "n + 3" env sz "2 ^ k" start en nid exact flags mb, unfolded r1]
  show ?thesis
  proof (cases "c1 = 0 \<and> nid \<noteq> NUMA_NO_NODE \<and> \<not> exact")
    case True
    then show ?thesis using run p1(1,3) r2 p2 by (intro that [of c2 mb2]) simp_all
  next
    case False
    then show ?thesis using run p1 by (intro that [of c1 mb1]) auto
  qed
qed

lemma alloc_range_static:
  assumes inv: "minv mb" and st: "\<not> memblock_can_resize mb" and sz: "0 < sz" and k: "k < 64"
  obtains c mb' where "memblock_alloc_range_nid (n + 3) env sz (2 ^ k) start en nid exact mb = Some (Inr (c, mb'))"
    and "c = 0 \<longrightarrow> mb' = mb" and "c \<noteq> 0 \<longrightarrow> granted sz (2 ^ k) start en c mb mb'"
    and "c = 0 \<longrightarrow> length (rgns (reserved mb)) < rmax (reserved mb) \<longrightarrow>
           memblock_find_in_range_node env mb sz (2 ^ k) start en (any_node nid) MEMBLOCK_NONE = 0"
proof -
  let ?f = "choose_memblock_flags mb" and ?al = "if (2 :: phys_addr) ^ k = 0 then SMP_CACHE_BYTES else 2 ^ k"
  have al: "?al = 2 ^ k" using k by simp
  have z: "MEMBLOCK_NONE AND MEMBLOCK_NOMAP = 0" by (simp add: MEMBLOCK_NONE_def)
  obtain c1 mb1 where r1: "alloc_pass (n + 3) env sz (2 ^ k) start en (any_node nid) exact ?f mb = Some (Inr (c1, mb1))"
    and p1: "c1 = 0 \<longrightarrow> mb1 = mb" "c1 \<noteq> 0 \<longrightarrow> granted sz (2 ^ k) start en c1 mb mb1"
      "c1 = 0 \<longrightarrow> length (rgns (reserved mb)) < rmax (reserved mb) \<longrightarrow> memblock_find_in_range_node env mb sz (2 ^ k) start en (any_node nid) ?f = 0"
    by (rule alloc_pass_static [OF inv st sz k chosen_flags(1), where n = n and env = env and start = start and en = en
          and nid = "any_node nid" and exact = exact])
  obtain c2 mb2 where r2: "alloc_pass (n + 3) env sz (2 ^ k) start en (any_node nid) exact MEMBLOCK_NONE mb = Some (Inr (c2, mb2))"
    and p2: "c2 = 0 \<longrightarrow> mb2 = mb" "c2 \<noteq> 0 \<longrightarrow> granted sz (2 ^ k) start en c2 mb mb2"
      "c2 = 0 \<longrightarrow> length (rgns (reserved mb)) < rmax (reserved mb) \<longrightarrow> memblock_find_in_range_node env mb sz (2 ^ k) start en (any_node nid) MEMBLOCK_NONE = 0"
    by (rule alloc_pass_static [OF inv st sz k z, where n = n and env = env and start = start and en = en
          and nid = "any_node nid" and exact = exact])
  note run = memblock_alloc_range_nid_def [of "n + 3" env sz "2 ^ k" start en nid exact mb, unfolded Let_def al]
  consider "c1 \<noteq> 0" | "c1 = 0" "?f AND MEMBLOCK_MIRROR \<noteq> 0" | "c1 = 0" "?f AND MEMBLOCK_MIRROR = 0" by blast
  then show ?thesis
  proof cases
    case 1
    then show ?thesis using that [of c1 mb1] r1 p1 run by simp
  next
    case 2
    then show ?thesis using that [of c2 mb2] r1 r2 p1 p2 run by (simp add: chosen_flags(2))
  next
    case 3
    then show ?thesis using that [of c1 mb1] r1 p1 run chosen_flags(3) [OF 3(2)] by simp
  qed
qed

section \<open>Sequences of allocations\<close>

text \<open>Serving requests one after the other, as long as each is granted.\<close>

fun serve_all :: "('r \<Rightarrow> 's \<Rightarrow> ('b \<times> 's) option) \<Rightarrow> 'r list \<Rightarrow> 's \<Rightarrow> ('b list \<times> 's) option" where
  "serve_all alloc [] s = Some ([], s)"
| "serve_all alloc (r # rs) s =
     (case alloc r s of
        None \<Rightarrow> None
      | Some (b, s1) \<Rightarrow> (case serve_all alloc rs s1 of None \<Rightarrow> None | Some (bs, s2) \<Rightarrow> Some (b # bs, s2)))"

definition disjoint_blocks :: "'a set list \<Rightarrow> bool" where
  "disjoint_blocks bs \<longleftrightarrow> (\<forall>i j. i < j \<and> j < length bs \<longrightarrow> bs ! i \<inter> bs ! j = {})"

lemma disjoint_blocks_Cons:
  "disjoint_blocks (b # bs) \<longleftrightarrow> (\<forall>c\<in>set bs. b \<inter> c = {}) \<and> disjoint_blocks bs"
proof
  assume d: "disjoint_blocks (b # bs)"
  have "b \<inter> bs ! j = {}" if "j < length bs" for j
    using d [unfolded disjoint_blocks_def, rule_format, of 0 "Suc j"] that by simp
  moreover have "bs ! i \<inter> bs ! j = {}" if "i < j" "j < length bs" for i j
    using d [unfolded disjoint_blocks_def, rule_format, of "Suc i" "Suc j"] that by simp
  ultimately show "(\<forall>c\<in>set bs. b \<inter> c = {}) \<and> disjoint_blocks bs"
    unfolding disjoint_blocks_def by (metis in_set_conv_nth)
next
  assume d: "(\<forall>c\<in>set bs. b \<inter> c = {}) \<and> disjoint_blocks bs"
  have "(b # bs) ! i \<inter> (b # bs) ! j = {}" if "i < j" "j < Suc (length bs)" for i j
    using d that by (cases i; cases j) (auto simp: disjoint_blocks_def)
  then show "disjoint_blocks (b # bs)" by (simp add: disjoint_blocks_def)
qed

locale block_allocator =
  fixes alloc :: "'r \<Rightarrow> 's \<Rightarrow> ('b \<times> 's) option"
    and inv :: "'s \<Rightarrow> bool" and taken :: "'s \<Rightarrow> 'a set" and block :: "'b \<Rightarrow> 'a set"
  assumes alloc_inv: "inv s \<Longrightarrow> alloc r s = Some (b, s') \<Longrightarrow> inv s'"
    and alloc_fresh: "inv s \<Longrightarrow> alloc r s = Some (b, s') \<Longrightarrow> block b \<inter> taken s = {}"
    and alloc_taken: "inv s \<Longrightarrow> alloc r s = Some (b, s') \<Longrightarrow> taken s' = taken s \<union> block b"
begin

lemma serve_all_blocks:
  "inv s \<Longrightarrow> serve_all alloc rs s = Some (bs, s') \<Longrightarrow>
     inv s' \<and> disjoint_blocks (map block bs) \<and> (\<forall>b\<in>set bs. block b \<inter> taken s = {}) \<and>
     taken s' = taken s \<union> \<Union> (block ` set bs) \<and> length bs = length rs"
proof (induction rs arbitrary: s bs)
  case Nil
  then show ?case by (simp add: disjoint_blocks_def)
next
  case (Cons r rs)
  then obtain b s1 bs1 where a: "alloc r s = Some (b, s1)" and rest: "serve_all alloc rs s1 = Some (bs1, s')"
    and bs: "bs = b # bs1" by (auto split: option.splits)
  note f = alloc_fresh [OF Cons.prems(1) a] and t = alloc_taken [OF Cons.prems(1) a]
  note IH = Cons.IH [OF alloc_inv [OF Cons.prems(1) a] rest]
  have "\<forall>c\<in>set bs1. block c \<inter> taken s = {} \<and> block c \<inter> block b = {}" using IH t by blast
  then show ?case using IH f t bs by (auto simp: disjoint_blocks_Cons)
qed

end

text \<open>Requests for \<open>memblock_phys_alloc_range\<close> with a power of two for the alignment.\<close>

record alloc_req =
  rq_size :: phys_addr
  rq_order :: nat
  rq_start :: phys_addr
  rq_end :: phys_addr

definition phys_alloc :: "env \<Rightarrow> alloc_req \<Rightarrow> memblock \<Rightarrow> ((phys_addr \<times> phys_addr) \<times> memblock) option" where
  "phys_alloc env rq mb =
     (if rq_size rq = 0 \<or> 64 \<le> rq_order rq then None
      else case memblock_phys_alloc_range 3 env (rq_size rq) (2 ^ rq_order rq) (rq_start rq) (rq_end rq) mb of
             Some (Inr (c, mb')) \<Rightarrow> if c = 0 then None else Some ((c, rq_size rq), mb')
           | _ \<Rightarrow> None)"

definition block_addrs :: "phys_addr \<times> phys_addr \<Rightarrow> phys_addr set" where
  "block_addrs b = (case b of (c, sz) \<Rightarrow> {c..<c + sz})"

lemma phys_alloc_granted:
  assumes "minv mb \<and> \<not> memblock_can_resize mb" and "phys_alloc env rq mb = Some (b, mb')"
  shows "\<exists>c. b = (c, rq_size rq) \<and> granted (rq_size rq) (2 ^ rq_order rq) (rq_start rq) (rq_end rq) c mb mb'"
proof -
  have ok: "0 < rq_size rq" "rq_order rq < 64"
  proof -
    have "\<not> (rq_size rq = 0 \<or> 64 \<le> rq_order rq)" using assms(2) unfolding phys_alloc_def by (metis option.distinct(1))
    then show "0 < rq_size rq" "rq_order rq < 64" by (simp_all add: word_neq_0_conv)
  qed
  obtain c mb1 where r: "memblock_alloc_range_nid (0 + 3) env (rq_size rq) (2 ^ rq_order rq) (rq_start rq) (rq_end rq) NUMA_NO_NODE False mb = Some (Inr (c, mb1))"
    and p: "c \<noteq> 0 \<longrightarrow> granted (rq_size rq) (2 ^ rq_order rq) (rq_start rq) (rq_end rq) c mb mb1"
    using alloc_range_static [OF conjunct1 [OF assms(1)] conjunct2 [OF assms(1)] ok, of 0 env "rq_start rq" "rq_end rq" NUMA_NO_NODE False]
    by blast
  have run: "memblock_phys_alloc_range 3 env (rq_size rq) (2 ^ rq_order rq) (rq_start rq) (rq_end rq) mb = Some (Inr (c, mb1))"
    using r by (simp add: memblock_phys_alloc_range_def)
  have "\<not> (rq_size rq = 0 \<or> 64 \<le> rq_order rq)" using ok by auto
  then have "(if c = 0 then None else Some ((c, rq_size rq), mb1)) = Some (b, mb')"
    using assms(2) unfolding phys_alloc_def run by simp
  then have "c \<noteq> 0" "b = (c, rq_size rq)" "mb' = mb1" by (simp_all split: if_splits)
  then show ?thesis using p by blast
qed

interpretation mb_alloc: block_allocator "phys_alloc env" "\<lambda>mb. minv mb \<and> \<not> memblock_can_resize mb"
  "\<lambda>mb. dom (tmap (reserved mb))" block_addrs for env
proof (unfold_locales, goal_cases)
  case (1 mb rq b mb')
  show ?case using phys_alloc_granted [OF 1] 1(1) by (auto simp: granted_def)
next
  case (2 mb rq b mb')
  obtain c where b: "b = (c, rq_size rq)"
    and f: "{c..<c + rq_size rq} \<subseteq> free_addrs NUMA_NO_NODE MEMBLOCK_NONE (rgns (memory mb)) (rgns (reserved mb))"
    using phys_alloc_granted [OF 2] by (auto simp: granted_def)
  have "free_addrs n g ra rb \<inter> dom (amap rb) = {}" for n g ra rb by (auto simp: free_addrs_def)
  then show ?case using f unfolding b block_addrs_def prod.case by blast
next
  case (3 mb rq b mb')
  obtain c where b: "b = (c, rq_size rq)"
    and f: "tmap (reserved mb') = fill c (c + rq_size rq) 0 (tmap (reserved mb))"
    using phys_alloc_granted [OF 3] by (auto simp: granted_def)
  have "dom (fill x y f M) = dom M \<union> {x..<y}" for x y f M by (auto simp: fill_def split: if_splits)
  then show ?case unfolding f b block_addrs_def by simp
qed

section \<open>Runs of requests\<close>

inductive mb_run :: "env \<Rightarrow> phys_addr \<Rightarrow> memblock \<Rightarrow> memblock \<Rightarrow> bool" for env p where
  start: "mb_run env p mb mb"
| request: "mb_run env p mb mb1 \<Longrightarrow> spares p rq \<Longrightarrow> memblock_exec n (early_env env) rq mb1 = Some (Inr (ret, mb2)) \<Longrightarrow>
    mb_run env p mb mb2"
| allow: "mb_run env p mb mb1 \<Longrightarrow> mb_run env p mb (memblock_allow_resize mb1)"
| direction: "mb_run env p mb mb1 \<Longrightarrow> mb_run env p mb (memblock_set_bottom_up b mb1)"

lemma flag_kept:
  "minv (memblock_allow_resize mb) = minv mb" "pinned p (memblock_allow_resize mb) = pinned p mb"
  "minv (memblock_set_bottom_up b mb) = minv mb" "pinned p (memblock_set_bottom_up b mb) = pinned p mb"
  by (simp_all add: memblock_allow_resize_def memblock_set_bottom_up_def minv_def pinned_def array_home_def array_size_def
      get_type_def split: which.splits)

lemma mb_run_kept: "mb_run env p mb mb' \<Longrightarrow> minv mb \<and> pinned p mb \<Longrightarrow> minv mb' \<and> pinned p mb'"
proof (induction rule: mb_run.induct)
  case (request mb mb1 rq n ret mb2)
  then show ?case using early.call_post [of mb1 p rq n env ret mb2] by (simp add: post_def)
qed (simp_all add: flag_kept)

section \<open>Properties\<close>

text \<open>256 MiB of memory at 2 GiB, of which the kernel image takes the first 2 MiB.\<close>

definition one_region :: "phys_addr \<Rightarrow> phys_addr \<Rightarrow> memblock_type" where
  "one_region base sz = \<lparr>rgns = [\<lparr>rg_base = base, rg_size = sz, rg_flags = 0\<rparr>], rmax = 128, total_size = sz\<rparr>"

definition sample_mb :: memblock where
  "sample_mb = (memblock_init (\<lambda>_. 1))\<lparr>memory := one_region 0x80000000 0x10000000, reserved := one_region 0x80000000 0x200000\<rparr>"

definition sample_env :: env where
  "sample_env = \<lparr>kernel_end = 0x80200000, slab_is_available = False, kmalloc = (\<lambda>_. 0), va_pa_offset = 0, page_init_poisoning = True\<rparr>"

lemma sample_ok: "minv sample_mb" "\<not> memblock_can_resize sample_mb" "pinned 0x80000000 sample_mb"
  by (simp_all add: sample_mb_def one_region_def memblock_init_def minv_def tinv_def rg_end_def pinned_def array_home_def
      split: which.splits)

lemma sample_types: "memory sample_mb = one_region 0x80000000 0x10000000" "reserved sample_mb = one_region 0x80000000 0x200000"
  by (simp_all add: sample_mb_def)

lemma sample_fits: "fits 0xA0000000 0x1000 (get_type w sample_mb)"
  by (cases w) (simp_all add: fits_def sample_types one_region_def rg_end_def memblock_cap_size_def PHYS_ADDR_MAX_def empty_region_def)

lemma PHYS_ADDR_MAX_val: "PHYS_ADDR_MAX = 0xFFFFFFFFFFFFFFFF"
  by (simp add: PHYS_ADDR_MAX_def)

lemmas range_eval = rev_ranges.simps next_mem_range_rev_def rev_range_loop.simps scan_gaps_rev.simps gap_start_def gap_end_def
  PHYS_ADDR_MAX_val should_skip_region_def any_node_def NUMA_NO_NODE_def MAX_NUMNODES_def MEMBLOCK_NONE_def memblock_is_mirror_def
  memblock_is_nomap_def Let_def

lemmas find_eval = memblock_find_in_range_node_def memblock_find_range_top_down_def clamp_def round_down_def
  MEMBLOCK_ALLOC_ACCESSIBLE_def MEMBLOCK_ALLOC_KASAN_def PAGE_SIZE_def max_def min_def

lemmas alloc_eval = memblock_phys_alloc_range_def memblock_alloc_range_nid_def alloc_pass_def reserve_found_def
  choose_memblock_flags_def memblock_reserve_def memblock_serve_def memblock_add_range_def

lemmas reserve_eval = numeral_3_eq_3 memblock_cap_size_def add_round_def add_loop.simps add_finish_def memblock_make_room_def
  add_insert_def memblock_insert_region_def memblock_merge_regions_def merge_loop.simps get_type_def set_type_def

lemma sample_fail:
  "memblock_phys_alloc_range 3 sample_env 0x20000000 0x1000 0 0xFFFFFFFF sample_mb = Some (Inr (0, sample_mb))"
  by (simp add: alloc_eval find_eval range_eval sample_mb_def memblock_init_def one_region_def)

definition sample_reserved :: "(phys_addr \<times> phys_addr) list \<Rightarrow> memblock" where
  "sample_reserved bs = sample_mb\<lparr>reserved :=
     \<lparr>rgns = map (\<lambda>(b, z). \<lparr>rg_base = b, rg_size = z, rg_flags = 0\<rparr>) bs, rmax = 128, total_size = sum_list (map snd bs)\<rparr>\<rparr>"

lemma sample_alloc:
  "memblock_phys_alloc_range 3 sample_env 0x1000 0x1000 0 0xFFFFFFFF sample_mb =
     Some (Inr (0x8FFFF000, sample_reserved [(0x80000000, 0x200000), (0x8FFFF000, 0x1000)]))"
  by (simp add: alloc_eval find_eval range_eval reserve_eval sample_mb_def memblock_init_def one_region_def sample_reserved_def)

lemma sample_alloc2:
  "memblock_phys_alloc_range 3 sample_env 0x1000 0x1000 0 0xFFFFFFFF (sample_reserved [(0x80000000, 0x200000), (0x8FFFF000, 0x1000)]) =
     Some (Inr (0x8FFFE000, sample_reserved [(0x80000000, 0x200000), (0x8FFFE000, 0x2000)]))"
  by (simp add: alloc_eval find_eval range_eval reserve_eval sample_mb_def memblock_init_def one_region_def sample_reserved_def)

definition sample_rq :: alloc_req where
  "sample_rq = \<lparr>rq_size = 0x1000, rq_order = 12, rq_start = 0, rq_end = 0xFFFFFFFF\<rparr>"

lemma sample_serves:
  "serve_all (phys_alloc sample_env) [sample_rq, sample_rq] sample_mb =
     Some ([(0x8FFFF000, 0x1000), (0x8FFFE000, 0x1000)], sample_reserved [(0x80000000, 0x200000), (0x8FFFE000, 0x2000)])"
  by (simp add: phys_alloc_def sample_rq_def sample_alloc sample_alloc2)



text \<open>
  (C17) Before \<^verbatim>\<open>memblock_allow_resize\<close>, adding or reserving a range always returns, and never stops at a
  \<^verbatim>\<open>BUG_ON\<close>: if the array has room for the new regions the result is 0 and the address map is the old
  one, filled with the flags where the range was unmapped; otherwise the result is \<^verbatim>\<open>-ENOMEM\<close> and nothing
  changes.
\<close>

theorem memblock_add_static:
  assumes "minv mb" and "\<not> memblock_can_resize mb"
  shows "if fits base sz (get_type w mb)
    then \<exists>t. memblock_exec (Suc (Suc (Suc n))) env (AddRange w base sz f) mb = Some (Inr (0, set_type w t mb)) \<and>
           tinv t \<and> tmap t = fill base (base + memblock_cap_size base sz) f (tmap (get_type w mb))
    else memblock_exec (Suc (Suc (Suc n))) env (AddRange w base sz f) mb = Some (Inr (- ENOMEM, mb))"
  using add_range_fits [OF assms(1)] add_range_full [OF assms] by (metis (full_types))

theorem memblock_add_static_witness:
  "\<exists>t. memblock_exec (Suc (Suc (Suc 0))) sample_env (AddRange Reserved 0xA0000000 0x1000 0) sample_mb =
       Some (Inr (0, set_type Reserved t sample_mb)) \<and>
     tmap t = fill 0xA0000000 (0xA0000000 + memblock_cap_size 0xA0000000 0x1000) 0 (tmap (get_type Reserved sample_mb))"
  using memblock_add_static [OF sample_ok(1,2), of "0xA0000000" "0x1000" Reserved 0 sample_env 0] sample_fits [of Reserved]
  by (auto simp del: memblock_exec.simps)









text \<open>
  (C16) The iterators visit the free memory exactly: the ranges of \<^verbatim>\<open>for_each_free_mem_range\<close> and those of its
  reverse cover the same addresses, the usable memory that is not reserved.
\<close>

theorem free_ranges_cover:
  assumes "minv mb"
  shows "(\<Union>(s, e)\<in>set (mem_ranges nid flags (rgns (memory mb)) (rgns (reserved mb)) 0 0). {s..<e}) =
      free_addrs nid flags (rgns (memory mb)) (rgns (reserved mb)) \<and>
    (\<Union>(s, e)\<in>set (rev_ranges nid flags (rgns (memory mb)) (rgns (reserved mb)) None). {s..<e}) =
      free_addrs nid flags (rgns (memory mb)) (rgns (reserved mb))"
  using mem_ranges_free rev_ranges_free assms by (simp add: minv_def tinv_listed)

theorem free_ranges_cover_witness:
  "(\<Union>(s, e)\<in>set (mem_ranges NUMA_NO_NODE 0 (rgns (memory sample_mb)) (rgns (reserved sample_mb)) 0 0). {s..<e}) =
      free_addrs NUMA_NO_NODE 0 (rgns (memory sample_mb)) (rgns (reserved sample_mb))"
  using free_ranges_cover [OF sample_ok(1), of NUMA_NO_NODE 0] by blast

text \<open>
  \<open>memblock_is_region_memory\<close> holds exactly when the range, cut at the top of the address space, starts
  in a memory region and ends no later than it, and then every address of the range is memory.
\<close>

theorem region_memory_sound:
  assumes "minv mb" and "memblock_is_region_memory mb base sz"
  shows "\<exists>r\<in>set (rgns (memory mb)). rg_base r \<le> base \<and> base < rg_end r \<and> base + memblock_cap_size base sz \<le> rg_end r \<and>
    (\<forall>a. base \<le> a \<and> a < base + memblock_cap_size base sz \<longrightarrow> tmap (memory mb) a = Some (rg_flags r))"
proof -
  have ti: "tinv (memory mb)" using assms(1) by (simp add: minv_def)
  obtain i where s: "memblock_search (memory mb) base = Some i"
    and en: "base + memblock_cap_size base sz \<le> rg_end (rgns (memory mb) ! i)"
    using assms(2) by (auto simp: memblock_is_region_memory_def rg_end_def split: option.splits)
  let ?r = "rgns (memory mb) ! i"
  have i: "i < length (rgns (memory mb))" "rg_base ?r \<le> base" "base < rg_end ?r"
    using memblock_search_ok [OF ti, of base] s by simp_all
  then have "rgns (memory mb) \<noteq> [empty_region]" by (auto simp: empty_region_def rg_end_def)
  then have w: "wfl 0 (rgns (memory mb))" using ti by (auto simp: tinv_def)
  have "tmap (memory mb) a = Some (rg_flags ?r)" if "base \<le> a" "a < base + memblock_cap_size base sz" for a
    using nth_mem [OF i(1)] order_trans [OF i(2) that(1)] less_le_trans [OF that(2) en] unfolding amap_set [OF w] by blast
  then show ?thesis using i en nth_mem [OF i(1)] by blast
qed

theorem region_memory_sound_witness:
  "memblock_is_region_memory sample_mb 0x80001000 0x1000 \<and>
   (\<exists>r\<in>set (rgns (memory sample_mb)). 0x80001000 + memblock_cap_size 0x80001000 0x1000 \<le> rg_end r)"
proof -
  have "memblock_is_region_memory sample_mb 0x80001000 0x1000"
    by (simp add: memblock_is_region_memory_def sample_types one_region_def memblock_search_def search_loop.simps [of _ _ 0 "Suc 0"]
        memblock_cap_size_def PHYS_ADDR_MAX_def)
  then show ?thesis using region_memory_sound [OF sample_ok(1), of "0x80001000" "0x1000"] by blast
qed

end
