(* ===== verification/Ctype.thy ===== *)
theory Ctype imports Prelude begin

text \<open>
  Character classes: the table \<^verbatim>\<open>_ctype\<close> of \<^verbatim>\<open>lib/src/ctype.c\<close> and the predicates and case conversions of
  \<^verbatim>\<open>include/linux/ctype.h\<close>.  Characters are bytes.
\<close>

definition ctype_U :: u8 where
  "ctype_U = 0x01"

definition ctype_L :: u8 where
  "ctype_L = 0x02"

definition ctype_D :: u8 where
  "ctype_D = 0x04"

definition ctype_C :: u8 where
  "ctype_C = 0x08"

definition ctype_P :: u8 where
  "ctype_P = 0x10"

definition ctype_S :: u8 where
  "ctype_S = 0x20"

definition ctype_X :: u8 where
  "ctype_X = 0x40"

definition ctype_SP :: u8 where
  "ctype_SP = 0x80"

text \<open>Each entry is the sum of its class bits: 40 is \<^verbatim>\<open>_C|_S\<close>, 65 is \<^verbatim>\<open>_U|_X\<close>, 66 is \<^verbatim>\<open>_L|_X\<close>, 160 is \<^verbatim>\<open>_S|_SP\<close>.\<close>

definition ctype_table :: "u8 list" where
  "ctype_table =
  [8, 8, 8, 8, 8, 8, 8, 8, 8, 40, 40, 40, 40, 40, 8, 8,
   8, 8, 8, 8, 8, 8, 8, 8, 8, 8, 8, 8, 8, 8, 8, 8,
   160, 16, 16, 16, 16, 16, 16, 16, 16, 16, 16, 16, 16, 16, 16, 16,
   4, 4, 4, 4, 4, 4, 4, 4, 4, 4, 16, 16, 16, 16, 16, 16,
   16, 65, 65, 65, 65, 65, 65, 1, 1, 1, 1, 1, 1, 1, 1, 1,
   1, 1, 1, 1, 1, 1, 1, 1, 1, 1, 1, 16, 16, 16, 16, 16,
   16, 66, 66, 66, 66, 66, 66, 2, 2, 2, 2, 2, 2, 2, 2, 2,
   2, 2, 2, 2, 2, 2, 2, 2, 2, 2, 2, 16, 16, 16, 16, 8,
   0, 0, 0, 0, 0, 0, 0, 0, 0, 0, 0, 0, 0, 0, 0, 0,
   0, 0, 0, 0, 0, 0, 0, 0, 0, 0, 0, 0, 0, 0, 0, 0,
   160, 16, 16, 16, 16, 16, 16, 16, 16, 16, 16, 16, 16, 16, 16, 16,
   16, 16, 16, 16, 16, 16, 16, 16, 16, 16, 16, 16, 16, 16, 16, 16,
   1, 1, 1, 1, 1, 1, 1, 1, 1, 1, 1, 1, 1, 1, 1, 1,
   1, 1, 1, 1, 1, 1, 1, 16, 1, 1, 1, 1, 1, 1, 1, 2,
   2, 2, 2, 2, 2, 2, 2, 2, 2, 2, 2, 2, 2, 2, 2, 2,
   2, 2, 2, 2, 2, 2, 2, 16, 2, 2, 2, 2, 2, 2, 2, 2]"

definition ismask :: "u8 \<Rightarrow> u8" where
  "ismask c = ctype_table ! unat c"

definition isalnum :: "u8 \<Rightarrow> bool" where
  "isalnum c \<longleftrightarrow> ismask c AND (ctype_U OR ctype_L OR ctype_D) \<noteq> 0"

definition isspace :: "u8 \<Rightarrow> bool" where
  "isspace c \<longleftrightarrow> ismask c AND ctype_S \<noteq> 0"

definition isupper :: "u8 \<Rightarrow> bool" where
  "isupper c \<longleftrightarrow> ismask c AND ctype_U \<noteq> 0"

definition islower :: "u8 \<Rightarrow> bool" where
  "islower c \<longleftrightarrow> ismask c AND ctype_L \<noteq> 0"

definition isxdigit :: "u8 \<Rightarrow> bool" where
  "isxdigit c \<longleftrightarrow> ismask c AND (ctype_D OR ctype_X) \<noteq> 0"

text \<open>\<^verbatim>\<open>'0' <= c && c <= '9'\<close>\<close>

definition isdigit :: "u8 \<Rightarrow> bool" where
  "isdigit c \<longleftrightarrow> 48 \<le> c \<and> c \<le> 57"

text \<open>The constant \<^verbatim>\<open>'A'-'a'\<close> is -32.\<close>

definition tolower :: "u8 \<Rightarrow> u8" where
  "tolower c = (if isupper c then c - (- 32) else c)"

definition toupper :: "u8 \<Rightarrow> u8" where
  "toupper c = (if islower c then c - 32 else c)"

definition fast_tolower :: "u8 \<Rightarrow> u8" where
  "fast_tolower c = c OR 0x20"

definition isodigit :: "u8 \<Rightarrow> bool" where
  "isodigit c \<longleftrightarrow> 48 \<le> c \<and> c \<le> 55"

section \<open>Facts\<close>

lemma u8_cases: "P c" if "list_all (\<lambda>n. P (word_of_nat n)) [0..<256]" for c :: u8
proof -
  have "unat c < 2 ^ LENGTH(8)" by (rule unsigned_less)
  then have "unat c \<in> set [0..<256]" by simp
  then have "P (word_of_nat (unat c))" using that unfolding list_all_iff by blast
  then show ?thesis by simp
qed

end
