(* ===== verification/Kstring.thy ===== *)
theory Kstring imports Ctype begin

text \<open>
  The string library \<^verbatim>\<open>lib/src/string.c\<close>.  Memory is a function from addresses to bytes; addresses and
  sizes are naturals, so pointers do not wrap around, and the null pointer is address 0.  Every loop that
  stops only at a NUL byte is a partial function: \<open>None\<close> means that it runs on for ever.  \<^verbatim>\<open>memcpy\<close> and \<^verbatim>\<open>memset\<close>
  come from the architecture; \<open>copy_bytes\<close> and \<open>set_bytes\<close> stand for them.
\<close>

type_synonym mem = "nat \<Rightarrow> u8"

section \<open>Copying and filling memory\<close>

fun copy_bytes :: "mem \<Rightarrow> nat \<Rightarrow> nat \<Rightarrow> nat \<Rightarrow> mem" where
  "copy_bytes m dest src 0 = m"
| "copy_bytes m dest src (Suc n) = copy_bytes (m(dest := m src)) (Suc dest) (Suc src) n"

fun copy_down :: "mem \<Rightarrow> nat \<Rightarrow> nat \<Rightarrow> nat \<Rightarrow> mem" where
  "copy_down m dest src 0 = m"
| "copy_down m dest src (Suc n) = copy_down (m(dest + n := m (src + n))) dest src n"

fun set_bytes :: "mem \<Rightarrow> nat \<Rightarrow> u8 \<Rightarrow> nat \<Rightarrow> mem" where
  "set_bytes m p c 0 = m"
| "set_bytes m p c (Suc n) = set_bytes (m(p := c)) (Suc p) c n"

definition memmove :: "mem \<Rightarrow> nat \<Rightarrow> nat \<Rightarrow> nat \<Rightarrow> mem" where
  "memmove m dest src count = (if dest \<le> src then copy_bytes m dest src count else copy_down m dest src count)"

text \<open>Little-endian stores and loads of \<open>k\<close> bytes.\<close>

fun store_le :: "mem \<Rightarrow> nat \<Rightarrow> u64 \<Rightarrow> nat \<Rightarrow> mem" where
  "store_le m p v 0 = m"
| "store_le m p v (Suc k) = store_le (m(p := ucast v)) (Suc p) (drop_bit 8 v) k"

fun load_le :: "mem \<Rightarrow> nat \<Rightarrow> nat \<Rightarrow> u64" where
  "load_le m p 0 = 0"
| "load_le m p (Suc k) = ucast (m p) OR push_bit 8 (load_le m (Suc p) k)"

fun memset16 :: "mem \<Rightarrow> nat \<Rightarrow> u16 \<Rightarrow> nat \<Rightarrow> mem" where
  "memset16 m s v 0 = m"
| "memset16 m s v (Suc n) = memset16 (store_le m s (ucast v) 2) (s + 2) v n"

fun memset32 :: "mem \<Rightarrow> nat \<Rightarrow> u32 \<Rightarrow> nat \<Rightarrow> mem" where
  "memset32 m s v 0 = m"
| "memset32 m s v (Suc n) = memset32 (store_le m s (ucast v) 4) (s + 4) v n"

fun memset64 :: "mem \<Rightarrow> nat \<Rightarrow> u64 \<Rightarrow> nat \<Rightarrow> mem" where
  "memset64 m s v 0 = m"
| "memset64 m s v (Suc n) = memset64 (store_le m s v 8) (s + 8) v n"

section \<open>Comparing and searching memory\<close>

fun memcmp :: "mem \<Rightarrow> nat \<Rightarrow> nat \<Rightarrow> nat \<Rightarrow> int" where
  "memcmp m cs ct 0 = 0"
| "memcmp m cs ct (Suc n) =
     (let res = uint (m cs) - uint (m ct) in if res \<noteq> 0 then res else memcmp m (Suc cs) (Suc ct) n)"

definition bcmp :: "mem \<Rightarrow> nat \<Rightarrow> nat \<Rightarrow> nat \<Rightarrow> int" where
  "bcmp m a b len = memcmp m a b len"

fun memscan :: "mem \<Rightarrow> nat \<Rightarrow> int \<Rightarrow> nat \<Rightarrow> nat" where
  "memscan m p c 0 = p"
| "memscan m p c (Suc n) = (if uint (m p) = c then p else memscan m (Suc p) c n)"

fun memchr :: "mem \<Rightarrow> nat \<Rightarrow> u8 \<Rightarrow> nat \<Rightarrow> nat" where
  "memchr m p c 0 = 0"
| "memchr m p c (Suc n) = (if c = m p then p else memchr m (Suc p) c n)"

fun check_bytes8 :: "mem \<Rightarrow> nat \<Rightarrow> u8 \<Rightarrow> nat \<Rightarrow> nat" where
  "check_bytes8 m p v 0 = 0"
| "check_bytes8 m p v (Suc n) = (if m p \<noteq> v then p else check_bytes8 m (Suc p) v n)"

fun inv_words :: "mem \<Rightarrow> nat \<Rightarrow> u8 \<Rightarrow> u64 \<Rightarrow> nat \<Rightarrow> nat \<Rightarrow> nat" where
  "inv_words m p v v64 0 rest = check_bytes8 m p v rest"
| "inv_words m p v v64 (Suc words) rest =
     (if load_le m p 8 \<noteq> v64 then check_bytes8 m p v 8 else inv_words m (p + 8) v v64 words rest)"

text \<open>The word count is an \<^verbatim>\<open>unsigned int\<close>.\<close>

definition memchr_inv :: "mem \<Rightarrow> nat \<Rightarrow> u8 \<Rightarrow> nat \<Rightarrow> nat" where
  "memchr_inv m start v bytes =
     (if bytes \<le> 16 then check_bytes8 m start v bytes
      else
        let v1 = (ucast v :: u64); v2 = v1 OR push_bit 8 v1; v3 = v2 OR push_bit 16 v2; value64 = v3 OR push_bit 32 v3;
            prefix = (if start mod 8 \<noteq> 0 then 8 - start mod 8 else 0);
            r = check_bytes8 m start v prefix
        in if prefix \<noteq> 0 \<and> r \<noteq> 0 then r
           else inv_words m (start + prefix) v value64
                  ((bytes - prefix) div 8 mod 2 ^ 32) ((bytes - prefix) mod 8))"

section \<open>Length\<close>

partial_function (option) scan_nul :: "mem \<Rightarrow> nat \<Rightarrow> nat option" where
  "scan_nul m sc = (if m sc \<noteq> 0 then scan_nul m (Suc sc) else Some sc)"

definition strlen :: "mem \<Rightarrow> nat \<Rightarrow> nat option" where
  "strlen m s = map_option (\<lambda>sc. sc - s) (scan_nul m s)"

fun scan_nul_n :: "mem \<Rightarrow> nat \<Rightarrow> nat \<Rightarrow> nat" where
  "scan_nul_n m sc 0 = sc"
| "scan_nul_n m sc (Suc n) = (if m sc \<noteq> 0 then scan_nul_n m (Suc sc) n else sc)"

definition strnlen :: "mem \<Rightarrow> nat \<Rightarrow> nat \<Rightarrow> nat" where
  "strnlen m s count = scan_nul_n m s count - s"

section \<open>Comparing strings\<close>

text \<open>The loop of \<open>strncasecmp\<close> with \<open>len\<close> at least 1; the result is the last pair of characters.\<close>

fun strncasecmp_loop :: "mem \<Rightarrow> nat \<Rightarrow> nat \<Rightarrow> nat \<Rightarrow> u8 \<times> u8" where
  "strncasecmp_loop m s1 s2 0 = (0, 0)"
| "strncasecmp_loop m s1 s2 (Suc len) =
     (if m s1 = 0 \<or> m s2 = 0 then (m s1, m s2)
      else if m s1 = m s2 then (if len = 0 then (m s1, m s2) else strncasecmp_loop m (Suc s1) (Suc s2) len)
      else if tolower (m s1) \<noteq> tolower (m s2) \<or> len = 0 then (tolower (m s1), tolower (m s2))
      else strncasecmp_loop m (Suc s1) (Suc s2) len)"

definition strncasecmp :: "mem \<Rightarrow> nat \<Rightarrow> nat \<Rightarrow> nat \<Rightarrow> int" where
  "strncasecmp m s1 s2 len =
     (if len = 0 then 0 else case strncasecmp_loop m s1 s2 len of (c1, c2) \<Rightarrow> uint c1 - uint c2)"

partial_function (option) strcasecmp :: "mem \<Rightarrow> nat \<Rightarrow> nat \<Rightarrow> int option" where
  "strcasecmp m s1 s2 =
     (let c1 = tolower (m s1); c2 = tolower (m s2)
      in if c1 = c2 \<and> c1 \<noteq> 0 then strcasecmp m (Suc s1) (Suc s2) else Some (uint c1 - uint c2))"

partial_function (option) strcmp :: "mem \<Rightarrow> nat \<Rightarrow> nat \<Rightarrow> int option" where
  "strcmp m cs ct =
     (let c1 = m cs; c2 = m ct
      in if c1 \<noteq> c2 then Some (if c1 < c2 then - 1 else 1)
         else if c1 = 0 then Some 0 else strcmp m (Suc cs) (Suc ct))"

fun strncmp :: "mem \<Rightarrow> nat \<Rightarrow> nat \<Rightarrow> nat \<Rightarrow> int" where
  "strncmp m cs ct 0 = 0"
| "strncmp m cs ct (Suc n) =
     (let c1 = m cs; c2 = m ct
      in if c1 \<noteq> c2 then (if c1 < c2 then - 1 else 1)
         else if c1 = 0 then 0 else strncmp m (Suc cs) (Suc ct) n)"

partial_function (option) streq_scan :: "mem \<Rightarrow> nat \<Rightarrow> nat \<Rightarrow> (nat \<times> nat) option" where
  "streq_scan m s1 s2 = (if m s1 \<noteq> 0 \<and> m s1 = m s2 then streq_scan m (Suc s1) (Suc s2) else Some (s1, s2))"

definition sysfs_streq :: "mem \<Rightarrow> nat \<Rightarrow> nat \<Rightarrow> bool option" where
  "sysfs_streq m s1 s2 =
     map_option (\<lambda>(s1, s2).
       if m s1 = m s2 then True
       else if m s1 = 0 \<and> m s2 = 10 \<and> m (Suc s2) = 0 then True
       else m s1 = 10 \<and> m (Suc s1) = 0 \<and> m s2 = 0) (streq_scan m s1 s2)"

definition EINVAL :: int where
  "EINVAL = 22"

partial_function (option) match_string_from :: "mem \<Rightarrow> (nat \<Rightarrow> nat) \<Rightarrow> nat \<Rightarrow> nat \<Rightarrow> nat \<Rightarrow> int option" where
  "match_string_from m ar n str index =
     (if index < n then
        if ar index = 0 then Some (- EINVAL)
        else Option.bind (strcmp m (ar index) str) (\<lambda>r.
          if r = 0 then Some (int index) else match_string_from m ar n str (Suc index))
      else Some (- EINVAL))"

definition match_string :: "mem \<Rightarrow> (nat \<Rightarrow> nat) \<Rightarrow> nat \<Rightarrow> nat \<Rightarrow> int option" where
  "match_string m ar n str = match_string_from m ar n str 0"

partial_function (option) sysfs_match_from :: "mem \<Rightarrow> (nat \<Rightarrow> nat) \<Rightarrow> nat \<Rightarrow> nat \<Rightarrow> nat \<Rightarrow> int option" where
  "sysfs_match_from m ar n str index =
     (if index < n then
        if ar index = 0 then Some (- EINVAL)
        else Option.bind (sysfs_streq m (ar index) str) (\<lambda>r.
          if r then Some (int index) else sysfs_match_from m ar n str (Suc index))
      else Some (- EINVAL))"

definition sysfs_match_string :: "mem \<Rightarrow> (nat \<Rightarrow> nat) \<Rightarrow> nat \<Rightarrow> nat \<Rightarrow> int option" where
  "sysfs_match_string m ar n str = sysfs_match_from m ar n str 0"

section \<open>Copying strings\<close>

text \<open>The copying loop; the result has the memory and \<^verbatim>\<open>dest\<close> after it, one past the NUL.\<close>

partial_function (option) copy_nul :: "mem \<Rightarrow> nat \<Rightarrow> nat \<Rightarrow> (mem \<times> nat) option" where
  "copy_nul m dest src =
     (let m' = m(dest := m src)
      in if m src \<noteq> 0 then copy_nul m' (Suc dest) (Suc src) else Some (m', Suc dest))"

definition strcpy :: "mem \<Rightarrow> nat \<Rightarrow> nat \<Rightarrow> mem option" where
  "strcpy m dest src = map_option fst (copy_nul m dest src)"

definition stpcpy :: "mem \<Rightarrow> nat \<Rightarrow> nat \<Rightarrow> (mem \<times> nat) option" where
  "stpcpy m dest src = map_option (\<lambda>(m', d). (m', d - 1)) (copy_nul m dest src)"

fun strncpy :: "mem \<Rightarrow> nat \<Rightarrow> nat \<Rightarrow> nat \<Rightarrow> mem" where
  "strncpy m tmp src 0 = m"
| "strncpy m tmp src (Suc n) =
     strncpy (m(tmp := m src)) (Suc tmp) (if m src \<noteq> 0 then Suc src else src) n"

definition strlcpy :: "mem \<Rightarrow> nat \<Rightarrow> nat \<Rightarrow> nat \<Rightarrow> (mem \<times> nat) option" where
  "strlcpy m dest src sz =
     map_option (\<lambda>ret.
       if sz \<noteq> 0 then
         let len = (if sz \<le> ret then sz - 1 else ret)
         in ((copy_bytes m dest src len)(dest + len := 0), ret)
       else (m, ret)) (strlen m src)"

definition strcat :: "mem \<Rightarrow> nat \<Rightarrow> nat \<Rightarrow> mem option" where
  "strcat m dest src = Option.bind (scan_nul m dest) (\<lambda>d. map_option fst (copy_nul m d src))"

text \<open>The second loop of \<open>strncat\<close>, with \<open>n\<close> at least 1.\<close>

fun strncat_loop :: "mem \<Rightarrow> nat \<Rightarrow> nat \<Rightarrow> nat \<Rightarrow> mem" where
  "strncat_loop m dest src 0 = m"
| "strncat_loop m dest src (Suc n) =
     (let m' = m(dest := m src)
      in if m src \<noteq> 0 then
           (if n = 0 then m'(Suc dest := 0) else strncat_loop m' (Suc dest) (Suc src) n)
         else m')"

definition strncat :: "mem \<Rightarrow> nat \<Rightarrow> nat \<Rightarrow> nat \<Rightarrow> mem option" where
  "strncat m dest src count =
     (if count \<noteq> 0 then map_option (\<lambda>d. strncat_loop m d src count) (scan_nul m dest) else Some m)"

definition strlcat :: "mem \<Rightarrow> nat \<Rightarrow> nat \<Rightarrow> nat \<Rightarrow> (mem \<times> nat) run option" where
  "strlcat m dest src count =
     Option.bind (strlen m dest) (\<lambda>dsize. map_option (\<lambda>len.
       if count \<le> dsize then Inl Crash
       else
         let len' = (if count - dsize \<le> len then count - dsize - 1 else len)
         in Inr ((copy_bytes m (dest + dsize) src len')(dest + dsize + len' := 0), dsize + len)) (strlen m src))"

partial_function (option) strreplace :: "mem \<Rightarrow> nat \<Rightarrow> u8 \<Rightarrow> u8 \<Rightarrow> (mem \<times> nat) option" where
  "strreplace m s old new =
     (if m s \<noteq> 0 then strreplace (if m s = old then m(s := new) else m) (Suc s) old new else Some (m, s))"

section \<open>Searching strings\<close>

partial_function (option) strchr :: "mem \<Rightarrow> nat \<Rightarrow> u8 \<Rightarrow> nat option" where
  "strchr m s c = (if m s \<noteq> c then (if m s = 0 then Some 0 else strchr m (Suc s) c) else Some s)"

partial_function (option) strchrnul :: "mem \<Rightarrow> nat \<Rightarrow> u8 \<Rightarrow> nat option" where
  "strchrnul m s c = (if m s \<noteq> 0 \<and> m s \<noteq> c then strchrnul m (Suc s) c else Some s)"

fun strnchrnul :: "mem \<Rightarrow> nat \<Rightarrow> nat \<Rightarrow> u8 \<Rightarrow> nat" where
  "strnchrnul m s 0 c = s"
| "strnchrnul m s (Suc n) c = (if m s \<noteq> 0 \<and> m s \<noteq> c then strnchrnul m (Suc s) n c else s)"

partial_function (option) strrchr_from :: "mem \<Rightarrow> nat \<Rightarrow> u8 \<Rightarrow> nat \<Rightarrow> nat option" where
  "strrchr_from m s c lst =
     (let lst' = (if m s = c then s else lst)
      in if m s \<noteq> 0 then strrchr_from m (Suc s) c lst' else Some lst')"

definition strrchr :: "mem \<Rightarrow> nat \<Rightarrow> u8 \<Rightarrow> nat option" where
  "strrchr m s c = strrchr_from m s c 0"

fun strnchr :: "mem \<Rightarrow> nat \<Rightarrow> nat \<Rightarrow> u8 \<Rightarrow> nat" where
  "strnchr m s 0 c = 0"
| "strnchr m s (Suc n) c = (if m s = c then s else if m s = 0 then 0 else strnchr m (Suc s) n c)"

partial_function (option) skip_spaces :: "mem \<Rightarrow> nat \<Rightarrow> nat option" where
  "skip_spaces m str = (if isspace (m str) then skip_spaces m (Suc str) else Some str)"

text \<open>The loop of \<open>strim\<close> with \<open>k = end + 1 - s\<close>, the number of characters kept.\<close>

fun strim_end :: "mem \<Rightarrow> nat \<Rightarrow> nat \<Rightarrow> nat" where
  "strim_end m s 0 = 0"
| "strim_end m s (Suc k) = (if isspace (m (s + k)) then strim_end m s k else Suc k)"

definition strim :: "mem \<Rightarrow> nat \<Rightarrow> (mem \<times> nat) option" where
  "strim m s =
     Option.bind (strlen m s) (\<lambda>sz.
       if sz = 0 then Some (m, s)
       else
         let m' = m(s + strim_end m s sz := 0)
         in map_option (\<lambda>p. (m', p)) (skip_spaces m' s))"

text \<open>The inner loops over a set of characters: where the scan stops, at a match or at the NUL.\<close>

partial_function (option) scan_set :: "mem \<Rightarrow> u8 \<Rightarrow> nat \<Rightarrow> nat option" where
  "scan_set m c a = (if m a \<noteq> 0 then (if c = m a then Some a else scan_set m c (Suc a)) else Some a)"

partial_function (option) strspn_from :: "mem \<Rightarrow> nat \<Rightarrow> nat \<Rightarrow> nat \<Rightarrow> nat option" where
  "strspn_from m p accept count =
     (if m p \<noteq> 0 then
        Option.bind (scan_set m (m p) accept) (\<lambda>a.
          if m a = 0 then Some count else strspn_from m (Suc p) accept (Suc count))
      else Some count)"

definition strspn :: "mem \<Rightarrow> nat \<Rightarrow> nat \<Rightarrow> nat option" where
  "strspn m s accept = strspn_from m s accept 0"

partial_function (option) strcspn_from :: "mem \<Rightarrow> nat \<Rightarrow> nat \<Rightarrow> nat \<Rightarrow> nat option" where
  "strcspn_from m p reject count =
     (if m p \<noteq> 0 then
        Option.bind (scan_set m (m p) reject) (\<lambda>r.
          if m r \<noteq> 0 then Some count else strcspn_from m (Suc p) reject (Suc count))
      else Some count)"

definition strcspn :: "mem \<Rightarrow> nat \<Rightarrow> nat \<Rightarrow> nat option" where
  "strcspn m s reject = strcspn_from m s reject 0"

partial_function (option) strpbrk :: "mem \<Rightarrow> nat \<Rightarrow> nat \<Rightarrow> nat option" where
  "strpbrk m sc1 ct =
     (if m sc1 \<noteq> 0 then
        Option.bind (scan_set m (m sc1) ct) (\<lambda>sc2.
          if m sc2 \<noteq> 0 then Some sc1 else strpbrk m (Suc sc1) ct)
      else Some 0)"

text \<open>The result has the memory, the token and the new value of \<^verbatim>\<open>*s\<close>.\<close>

definition strsep :: "mem \<Rightarrow> nat \<Rightarrow> nat \<Rightarrow> (mem \<times> nat \<times> nat) option" where
  "strsep m sbegin ct =
     (if sbegin = 0 then Some (m, 0, 0)
      else map_option (\<lambda>e. if e \<noteq> 0 then (m(e := 0), sbegin, Suc e) else (m, sbegin, 0)) (strpbrk m sbegin ct))"

text \<open>The loop of \<open>strstr\<close> and \<open>strnstr\<close> for a non-empty pattern of length \<open>l2\<close>.\<close>

fun strstr_loop :: "mem \<Rightarrow> nat \<Rightarrow> nat \<Rightarrow> nat \<Rightarrow> nat \<Rightarrow> nat" where
  "strstr_loop m s1 s2 l2 0 = 0"
| "strstr_loop m s1 s2 l2 (Suc l1) =
     (if l2 \<le> Suc l1 then (if memcmp m s1 s2 l2 = 0 then s1 else strstr_loop m (Suc s1) s2 l2 l1) else 0)"

definition strstr :: "mem \<Rightarrow> nat \<Rightarrow> nat \<Rightarrow> nat option" where
  "strstr m s1 s2 =
     Option.bind (strlen m s2) (\<lambda>l2.
       if l2 = 0 then Some s1 else map_option (\<lambda>l1. strstr_loop m s1 s2 l2 l1) (strlen m s1))"

definition strnstr :: "mem \<Rightarrow> nat \<Rightarrow> nat \<Rightarrow> nat \<Rightarrow> nat option" where
  "strnstr m s1 s2 len =
     map_option (\<lambda>l2. if l2 = 0 then s1 else strstr_loop m s1 s2 l2 len) (strlen m s2)"

end
