(* ===== verification/Kstring_Spec.thy ===== *)
theory Kstring_Spec imports Kstring begin

text \<open>
  What the functions of \<open>Kstring\<close> compute on NUL-terminated strings.  \<open>cstr m p s\<close> says that memory \<open>m\<close> holds
  the string \<open>s\<close> at address \<open>p\<close>.
\<close>

section \<open>Memory\<close>

lemma copy_bytes_eq:
  "dest \<le> src \<or> src + n \<le> dest \<Longrightarrow>
     copy_bytes m dest src n = (\<lambda>a. if dest \<le> a \<and> a < dest + n then m (src + (a - dest)) else m a)"
proof (induction n arbitrary: m dest src)
  case (Suc n)
  then have IH: "copy_bytes (m(dest := m src)) (Suc dest) (Suc src) n =
      (\<lambda>a. if Suc dest \<le> a \<and> a < Suc dest + n then (m(dest := m src)) (Suc src + (a - Suc dest)) else (m(dest := m src)) a)"
    by (intro Suc.IH) auto
  show ?case
    unfolding copy_bytes.simps IH using Suc.prems by (intro ext) (auto simp: Suc_diff_Suc less_Suc_eq)
qed fastforce

lemma copy_down_eq:
  "src \<le> dest \<Longrightarrow>
     copy_down m dest src n = (\<lambda>a. if dest \<le> a \<and> a < dest + n then m (src + (a - dest)) else m a)"
  by (induction n arbitrary: m) (auto simp: fun_eq_iff less_Suc_eq)

lemma set_bytes_eq: "set_bytes m p c n = (\<lambda>a. if p \<le> a \<and> a < p + n then c else m a)"
  by (induction n arbitrary: m p) (auto simp: fun_eq_iff)

lemma memcmp_zero: "memcmp m p q n = 0 \<longleftrightarrow> (\<forall>i<n. m (p + i) = m (q + i))"
proof (induction n arbitrary: p q)
  case (Suc n)
  have all: "(\<forall>i<Suc n. m (p + i) = m (q + i)) \<longleftrightarrow> m p = m q \<and> (\<forall>i<n. m (Suc p + i) = m (Suc q + i))"
    by (auto simp: less_Suc_eq_0_disj)
  show ?case unfolding all using Suc.IH [of "Suc p" "Suc q"] by (auto simp: Let_def simp flip: word_uint_eq_iff)
qed simp

section \<open>Strings\<close>

fun cstr :: "mem \<Rightarrow> nat \<Rightarrow> u8 list \<Rightarrow> bool" where
  "cstr m p [] \<longleftrightarrow> m p = 0"
| "cstr m p (c # s) \<longleftrightarrow> c \<noteq> 0 \<and> m p = c \<and> cstr m (Suc p) s"

lemma cstr_nth: "cstr m p s \<longleftrightarrow> (\<forall>i<length s. m (p + i) = s ! i) \<and> 0 \<notin> set s \<and> m (p + length s) = 0"
proof (induction s arbitrary: p)
  case (Cons c s)
  have "(\<forall>i<Suc (length s). m (p + i) = (c # s) ! i) \<longleftrightarrow> m p = c \<and> (\<forall>i<length s. m (Suc p + i) = s ! i)"
    by (auto simp: less_Suc_eq_0_disj)
  then show ?case using Cons.IH [of "Suc p"] by auto
qed simp

lemma cstr_cong: "(\<And>i. i \<le> length s \<Longrightarrow> m' (p + i) = m (p + i)) \<Longrightarrow> cstr m' p s \<longleftrightarrow> cstr m p s"
  unfolding cstr_nth by auto

lemma cstr_append: "cstr m p (s @ t) \<longleftrightarrow> 0 \<notin> set s \<and> (\<forall>i<length s. m (p + i) = s ! i) \<and> cstr m (p + length s) t"
proof (induction s arbitrary: p)
  case (Cons c s)
  have "(\<forall>i<Suc (length s). m (p + i) = (c # s) ! i) \<longleftrightarrow> m p = c \<and> (\<forall>i<length s. m (Suc p + i) = s ! i)"
    by (auto simp: less_Suc_eq_0_disj)
  then show ?case using Cons.IH [of "Suc p"] by auto
qed simp

lemma cstr_unique: "cstr m p s \<Longrightarrow> cstr m p t \<Longrightarrow> s = t"
proof (induction s arbitrary: p t)
  case Nil
  then show ?case by (cases t) auto
next
  case (Cons c s)
  then show ?case by (cases t) auto
qed

lemma scan_nul_cstr: "cstr m p s \<Longrightarrow> scan_nul m p = Some (p + length s)"
  by (induction s arbitrary: p) (simp_all add: scan_nul.simps [of m])

lemma strlen_cstr: "cstr m p s \<Longrightarrow> strlen m p = Some (length s)"
  by (simp add: strlen_def scan_nul_cstr)

lemma scan_nul_n_cstr: "cstr m p s \<Longrightarrow> scan_nul_n m p n = p + min n (length s)"
proof (induction n arbitrary: p s)
  case (Suc n)
  then show ?case by (cases s) auto
qed simp

lemma strnlen_cstr: "cstr m p s \<Longrightarrow> strnlen m p n = min n (length s)"
  by (simp add: strnlen_def scan_nul_n_cstr)

lemma copy_nul_cstr:
  "cstr m src s \<Longrightarrow> dest \<le> src \<or> src + length s < dest \<Longrightarrow>
     copy_nul m dest src = Some (copy_bytes m dest src (Suc (length s)), dest + Suc (length s))"
proof (induction s arbitrary: m dest src)
  case Nil
  then show ?case by (simp add: copy_nul.simps [of m] fun_upd_def)
next
  case (Cons c s)
  have sep: "Suc dest \<le> Suc src \<or> Suc src + length s < Suc dest" using Cons.prems by auto
  have "cstr (m(dest := m src)) (Suc src) s"
    using Cons.prems by (subst cstr_cong [of s _ "Suc src" m]) auto
  then have "copy_nul (m(dest := m src)) (Suc dest) (Suc src) =
      Some (copy_bytes (m(dest := m src)) (Suc dest) (Suc src) (Suc (length s)), Suc dest + Suc (length s))"
    by (rule Cons.IH [OF _ sep])
  moreover have "copy_bytes m dest src (Suc (length (c # s))) = copy_bytes (m(dest := m src)) (Suc dest) (Suc src) (Suc (length s))"
    by simp
  moreover have "m src \<noteq> 0" using Cons.prems by simp
  ultimately show ?case by (subst copy_nul.simps) (simp add: Let_def del: copy_bytes.simps fun_upd_apply)
qed

lemma copied_cstr:
  assumes "cstr m src s" and "dest \<le> src \<or> src + length s < dest"
  shows "cstr (copy_bytes m dest src (Suc (length s))) dest s"
  using assms copy_bytes_eq [of dest src "Suc (length s)" m] unfolding cstr_nth by auto

lemma copied_frame:
  assumes "dest \<le> src \<or> src + n \<le> dest" and "a < dest \<or> dest + n \<le> a"
  shows "copy_bytes m dest src n a = m a"
  using assms by (auto simp: copy_bytes_eq)

lemma strcat_cstr:
  assumes d: "cstr m dest s" and c: "cstr m src t"
    and sep: "dest + length s + length t < src \<or> src + length t < dest"
  shows "strcat m dest src = Some (copy_bytes m (dest + length s) src (Suc (length t)))"
    and "cstr (copy_bytes m (dest + length s) src (Suc (length t))) dest (s @ t)"
proof -
  have ok: "dest + length s \<le> src \<or> src + length t < dest + length s" using sep by auto
  show "strcat m dest src = Some (copy_bytes m (dest + length s) src (Suc (length t)))"
    by (simp add: strcat_def scan_nul_cstr [OF d] copy_nul_cstr [OF c ok] del: copy_bytes.simps)
  have "\<forall>i<length s. copy_bytes m (dest + length s) src (Suc (length t)) (dest + i) = s ! i"
    using copied_frame [of "dest + length s" src "Suc (length t)"] ok d unfolding cstr_nth by (auto simp del: copy_bytes.simps)
  then show "cstr (copy_bytes m (dest + length s) src (Suc (length t))) dest (s @ t)"
    using copied_cstr [OF c ok] d unfolding cstr_append by (auto simp: cstr_nth simp del: copy_bytes.simps)
qed

section \<open>Comparison\<close>

abbreviation byte_less :: "(u8 \<times> u8) set" where
  "byte_less \<equiv> {(a, b). a < b}"

text \<open>The sign of the comparison of two strings in lexicographic order.\<close>

definition lex_sign :: "u8 list \<Rightarrow> u8 list \<Rightarrow> int" where
  "lex_sign s t = (if s = t then 0 else if (s, t) \<in> lexord byte_less then - 1 else 1)"

lemma lex_sign_simps [simp]:
  "lex_sign [] [] = 0" "lex_sign [] (d # t) = - 1" "lex_sign (c # s) [] = 1"
  "lex_sign (c # s) (d # t) = (if c = d then lex_sign s t else if c < d then - 1 else 1)"
  by (auto simp: lex_sign_def)

lemma word_pos: "c \<noteq> (0 :: u8) \<Longrightarrow> 0 < c"
  by (simp add: word_neq_0_conv)

lemma strcmp_cstr: "cstr m p s \<Longrightarrow> cstr m q t \<Longrightarrow> strcmp m p q = Some (lex_sign s t)"
proof (induction s arbitrary: p q t)
  case Nil
  then show ?case by (cases t) (auto simp: strcmp.simps [of m p] Let_def word_pos)
next
  case (Cons c s)
  then show ?case
    by (cases t) (auto simp: strcmp.simps [of m p] Let_def word_pos)
qed

lemma strncmp_cstr: "cstr m p s \<Longrightarrow> cstr m q t \<Longrightarrow> strncmp m p q n = lex_sign (take n s) (take n t)"
proof (induction n arbitrary: p q s t)
  case (Suc n)
  then show ?case by (cases s; cases t) (auto simp: Let_def word_pos)
qed simp

section \<open>Searching\<close>

lemma strchr_cstr:
  "cstr m p s \<Longrightarrow> strchr m p c = Some (if c = 0 then p + length s
     else if c \<in> set s then p + length (takeWhile (\<lambda>x. x \<noteq> c) s) else 0)"
  by (induction s arbitrary: p) (auto simp: strchr.simps [of m])

lemma strchrnul_cstr: "cstr m p s \<Longrightarrow> strchrnul m p c = Some (p + length (takeWhile (\<lambda>x. x \<noteq> c) s))"
  by (induction s arbitrary: p) (auto simp: strchrnul.simps [of m])

lemma strnchrnul_cstr: "cstr m p s \<Longrightarrow> strnchrnul m p n c = p + length (takeWhile (\<lambda>x. x \<noteq> c) (take n s))"
proof (induction n arbitrary: p s)
  case (Suc n)
  then show ?case by (cases s) auto
qed simp

text \<open>The last occurrence, or \<open>lst\<close> when there is none.\<close>

fun last_pos :: "nat \<Rightarrow> u8 list \<Rightarrow> u8 \<Rightarrow> nat \<Rightarrow> nat" where
  "last_pos p [] c lst = lst"
| "last_pos p (x # s) c lst = last_pos (Suc p) s c (if x = c then p else lst)"

lemma last_pos_append: "last_pos p (s @ t) c lst = last_pos (p + length s) t c (last_pos p s c lst)"
  by (induction s arbitrary: p lst) auto

lemma last_pos_none: "c \<notin> set s \<Longrightarrow> last_pos p s c lst = lst"
  by (induction s arbitrary: p lst) auto

lemma last_pos_split: "c \<notin> set v \<Longrightarrow> last_pos p (u @ c # v) c lst = p + length u"
  by (simp add: last_pos_append last_pos_none)

lemma strrchr_from_cstr: "cstr m p s \<Longrightarrow> strrchr_from m p c lst = Some (last_pos p (s @ [0]) c lst)"
  by (induction s arbitrary: p lst) (auto simp: strrchr_from.simps [of m] Let_def)

lemma scan_set_cstr:
  "cstr m a s \<Longrightarrow> scan_set m c a = Some (a + length (takeWhile (\<lambda>x. x \<noteq> c) s))"
  by (induction s arbitrary: a) (auto simp: scan_set.simps [of m])

lemma takeWhile_all: "x \<notin> set s \<Longrightarrow> length (takeWhile (\<lambda>y. y \<noteq> x) s) = length s"
  by (induction s) auto

lemma takeWhile_short: "x \<in> set s \<Longrightarrow> length (takeWhile (\<lambda>y. y \<noteq> x) s) < length s"
  by (induction s) auto

lemma scan_set_hit:
  assumes "cstr m a s" and "c \<noteq> 0"
  shows "\<exists>b. scan_set m c a = Some b \<and> (m b = 0 \<longleftrightarrow> c \<notin> set s)"
proof -
  let ?k = "length (takeWhile (\<lambda>x. x \<noteq> c) s)"
  have "m (a + ?k) = 0 \<longleftrightarrow> c \<notin> set s"
  proof (cases "c \<in> set s")
    case True
    then have "?k < length s" by (rule takeWhile_short)
    then have "m (a + ?k) = s ! ?k" using assms(1) by (simp add: cstr_nth)
    also have "\<dots> = c" using nth_length_takeWhile [OF \<open>?k < length s\<close>] by simp
    finally show ?thesis using True assms(2) by simp
  next
    case False
    then show ?thesis using assms(1) takeWhile_all [OF False] by (simp add: cstr_nth)
  qed
  then show ?thesis using scan_set_cstr [OF assms(1)] by blast
qed

lemma strspn_from_cstr:
  assumes "cstr m b t"
  shows "cstr m p s \<Longrightarrow> strspn_from m p b k = Some (k + length (takeWhile (\<lambda>x. x \<in> set t) s))"
proof (induction s arbitrary: p k)
  case (Cons c s)
  obtain a where "scan_set m c b = Some a" "m a = 0 \<longleftrightarrow> c \<notin> set t"
    using scan_set_hit [OF assms, of c] Cons.prems by auto
  then show ?case using Cons by (auto simp: strspn_from.simps [of m p])
qed (simp add: strspn_from.simps [of m])

lemma strcspn_from_cstr:
  assumes "cstr m b t"
  shows "cstr m p s \<Longrightarrow> strcspn_from m p b k = Some (k + length (takeWhile (\<lambda>x. x \<notin> set t) s))"
proof (induction s arbitrary: p k)
  case (Cons c s)
  obtain a where "scan_set m c b = Some a" "m a = 0 \<longleftrightarrow> c \<notin> set t"
    using scan_set_hit [OF assms, of c] Cons.prems by auto
  then show ?case using Cons by (auto simp: strcspn_from.simps [of m p])
qed (simp add: strcspn_from.simps [of m])

lemma strpbrk_cstr:
  assumes "cstr m b t"
  shows "cstr m p s \<Longrightarrow> strpbrk m p b = Some (if set s \<inter> set t = {} then 0 else p + length (takeWhile (\<lambda>x. x \<notin> set t) s))"
proof (induction s arbitrary: p)
  case (Cons c s)
  obtain a where "scan_set m c b = Some a" "m a = 0 \<longleftrightarrow> c \<notin> set t"
    using scan_set_hit [OF assms, of c] Cons.prems by auto
  then show ?case using Cons by (auto simp: strpbrk.simps [of m p])
qed (simp add: strpbrk.simps [of m])

lemma strstr_loop_spec:
  assumes "0 < l2" and "0 < s1"
  shows "(strstr_loop m s1 s2 l2 l1 = 0 \<and> (\<forall>i. i + l2 \<le> l1 \<longrightarrow> \<not> (\<forall>j<l2. m (s1 + i + j) = m (s2 + j)))) \<or>
    (\<exists>i. strstr_loop m s1 s2 l2 l1 = s1 + i \<and> i + l2 \<le> l1 \<and> (\<forall>j<l2. m (s1 + i + j) = m (s2 + j)) \<and>
         (\<forall>k<i. \<not> (\<forall>j<l2. m (s1 + k + j) = m (s2 + j))))"
  using assms(2)
proof (induction l1 arbitrary: s1)
  case 0
  then show ?case using assms(1) by simp
next
  case (Suc l1)
  show ?case
  proof (cases "l2 \<le> Suc l1")
    case False
    then show ?thesis by auto
  next
    case True
    show ?thesis
    proof (cases "\<forall>j<l2. m (s1 + j) = m (s2 + j)")
      case m: True
      then show ?thesis using True by (auto simp: memcmp_zero)
    next
      case m: False
      then have eq: "strstr_loop m s1 s2 l2 (Suc l1) = strstr_loop m (Suc s1) s2 l2 l1" using True by (auto simp: memcmp_zero)
      have all: "(\<forall>i. i + l2 \<le> Suc l1 \<longrightarrow> \<not> (\<forall>j<l2. m (s1 + i + j) = m (s2 + j))) \<longleftrightarrow>
          (\<forall>i. i + l2 \<le> l1 \<longrightarrow> \<not> (\<forall>j<l2. m (Suc s1 + i + j) = m (s2 + j)))"
      proof (intro iffI allI impI)
        fix i assume a: "\<forall>i. i + l2 \<le> l1 \<longrightarrow> \<not> (\<forall>j<l2. m (Suc s1 + i + j) = m (s2 + j))" and le: "i + l2 \<le> Suc l1"
        show "\<not> (\<forall>j<l2. m (s1 + i + j) = m (s2 + j))" using a le m by (cases i) auto
      next
        fix i assume a: "\<forall>i. i + l2 \<le> Suc l1 \<longrightarrow> \<not> (\<forall>j<l2. m (s1 + i + j) = m (s2 + j))" and le: "i + l2 \<le> l1"
        show "\<not> (\<forall>j<l2. m (Suc s1 + i + j) = m (s2 + j))" using a [rule_format, of "Suc i"] le by simp
      qed
      have below: "(\<forall>k<Suc i. \<not> (\<forall>j<l2. m (s1 + k + j) = m (s2 + j))) \<longleftrightarrow>
          (\<forall>k<i. \<not> (\<forall>j<l2. m (Suc s1 + k + j) = m (s2 + j)))" for i
        using m by (simp add: All_less_Suc2)
      from Suc.IH [OF zero_less_Suc, of s1] show ?thesis
      proof (elim disjE, goal_cases)
        case 1
        then show ?case unfolding eq all by auto
      next
        case 2
        then obtain i where "strstr_loop m (Suc s1) s2 l2 l1 = Suc s1 + i" "i + l2 \<le> l1"
          "\<forall>j<l2. m (Suc s1 + i + j) = m (s2 + j)" "\<forall>k<i. \<not> (\<forall>j<l2. m (Suc s1 + k + j) = m (s2 + j))" by blast
        then show ?case unfolding eq using below [of i] by (intro disjI2 exI [of _ "Suc i"]) auto
      qed
    qed
  qed
qed

text \<open>Where the pattern occurs in the text.\<close>

definition occurs :: "u8 list \<Rightarrow> u8 list \<Rightarrow> nat \<Rightarrow> bool" where
  "occurs t s i \<longleftrightarrow> i + length t \<le> length s \<and> take (length t) (drop i s) = t"

lemma occurs_mem:
  assumes "cstr m p s" and "cstr m q t" and "i + length t \<le> length s"
  shows "(\<forall>j<length t. m (p + i + j) = m (q + j)) \<longleftrightarrow> occurs t s i"
proof -
  have "m (p + i + j) = s ! (i + j)" "m (q + j) = t ! j" if "j < length t" for j
    using assms that by (auto simp: cstr_nth add.assoc)
  then have "(\<forall>j<length t. m (p + i + j) = m (q + j)) \<longleftrightarrow> (\<forall>j<length t. s ! (i + j) = t ! j)" by auto
  also have "\<dots> \<longleftrightarrow> take (length t) (drop i s) = t" using assms(3) by (auto simp: list_eq_iff_nth_eq)
  finally show ?thesis using assms(3) by (simp add: occurs_def)
qed

lemma strstr_cstr:
  assumes "cstr m p s" and "cstr m q t" and "0 < p"
  shows "\<exists>r. strstr m p q = Some r \<and>
    (r = 0 \<and> (\<forall>i. \<not> occurs t s i) \<or> (\<exists>i. r = p + i \<and> occurs t s i \<and> (\<forall>k<i. \<not> occurs t s k)))"
proof (cases "t = []")
  case True
  then have "strstr m p q = Some p" using strlen_cstr [OF assms(2)] by (simp add: strstr_def)
  then show ?thesis using True by (auto simp: occurs_def)
next
  case False
  have run: "strstr m p q = Some (strstr_loop m p q (length t) (length s))"
    using assms False by (simp add: strstr_def strlen_cstr)
  have l: "0 < length t" using False by simp
  have "(strstr_loop m p q (length t) (length s) = 0 \<and> (\<forall>i. i + length t \<le> length s \<longrightarrow> \<not> occurs t s i)) \<or>
      (\<exists>i. strstr_loop m p q (length t) (length s) = p + i \<and> i + length t \<le> length s \<and> occurs t s i \<and> (\<forall>k<i. \<not> occurs t s k))"
    (is "?none \<or> ?some")
    using strstr_loop_spec [OF l assms(3), of m q "length s"]
  proof (elim disjE, goal_cases)
    case 1
    then have ?none using occurs_mem [OF assms(1,2)] by simp
    then show ?case ..
  next
    case 2
    then obtain i where i: "strstr_loop m p q (length t) (length s) = p + i" "i + length t \<le> length s"
      "\<forall>j<length t. m (p + i + j) = m (q + j)" "\<forall>k<i. \<not> (\<forall>j<length t. m (p + k + j) = m (q + j))" by blast
    have "\<not> occurs t s k" if "k < i" for k using i(2,4) that occurs_mem [OF assms(1,2), of k] by auto
    moreover have "occurs t s i" using occurs_mem [OF assms(1,2) i(2)] i(3) by blast
    ultimately have ?some using i(1,2) by blast
    then show ?case ..
  qed
  moreover have "\<not> occurs t s i" if "\<not> i + length t \<le> length s" for i using that by (simp add: occurs_def)
  ultimately show ?thesis unfolding run by blast
qed

section \<open>Trimming and tokens\<close>

lemma isspace_0 [simp]: "\<not> isspace 0"
  by (simp add: isspace_def ismask_def ctype_table_def ctype_S_def)

definition rstrip :: "u8 list \<Rightarrow> u8 list" where
  "rstrip s = rev (dropWhile isspace (rev s))"

lemma rstrip_snoc: "rstrip (s @ [c]) = (if isspace c then rstrip s else s @ [c])"
  by (simp add: rstrip_def)

lemma rstrip_length: "length (rstrip s) \<le> length s"
  by (simp add: rstrip_def) (metis length_dropWhile_le length_rev)

lemma rstrip_prefix: "take (length (rstrip s)) s = rstrip s"
proof (induction s rule: rev_induct)
  case (snoc x s)
  then show ?case using rstrip_length [of s] by (simp add: rstrip_snoc)
qed (simp add: rstrip_def)

lemma strim_end_cstr: "cstr m p s \<Longrightarrow> k \<le> length s \<Longrightarrow> strim_end m p k = length (rstrip (take k s))"
proof (induction k)
  case (Suc k)
  then have "m (p + k) = s ! k" by (simp add: cstr_nth)
  then show ?case using Suc by (simp add: take_Suc_conv_app_nth rstrip_snoc)
qed (simp add: rstrip_def)

lemma skip_spaces_cstr: "cstr m p s \<Longrightarrow> skip_spaces m p = Some (p + length (takeWhile isspace s))"
  by (induction s arbitrary: p) (simp_all add: skip_spaces.simps [of m])

lemma cstr_suffix: "cstr m p (s @ t) \<Longrightarrow> cstr m (p + length s) t"
  by (simp add: cstr_append)

lemma cstr_cut:
  assumes "cstr m p s" and "k \<le> length s"
  shows "cstr (m(p + k := 0)) p (take k s)"
proof -
  have "0 \<notin> set (take k s)" using assms(1) by (meson cstr_nth in_set_takeD)
  then show ?thesis using assms unfolding cstr_nth by auto
qed

lemma strim_cstr:
  assumes "cstr m p s"
  shows "\<exists>m' q. strim m p = Some (m', q) \<and> cstr m' q (dropWhile isspace (rstrip s)) \<and> p \<le> q \<and>
    (\<forall>a. a < p \<or> p + length s < a \<longrightarrow> m' a = m a)"
proof (cases "s = []")
  case True
  then show ?thesis using assms strlen_cstr [OF assms] by (simp add: strim_def rstrip_def)
next
  case False
  let ?k = "length (rstrip s)"
  let ?m = "m(p + ?k := 0)"
  have c: "cstr ?m p (rstrip s)" using cstr_cut [OF assms rstrip_length] by (simp add: rstrip_prefix)
  have "strim m p = Some (?m, p + length (takeWhile isspace (rstrip s)))"
    using False strlen_cstr [OF assms] strim_end_cstr [OF assms order_refl] skip_spaces_cstr [OF c]
    by (simp add: strim_def Let_def)
  moreover have "cstr ?m (p + length (takeWhile isspace (rstrip s))) (dropWhile isspace (rstrip s))"
    by (rule cstr_suffix) (simp add: c)
  ultimately show ?thesis using rstrip_length [of s] by auto
qed

text \<open>Splitting at the first character that is in a set.\<close>

lemma split_at: "set s \<inter> T \<noteq> {} \<Longrightarrow> \<exists>c t. s = takeWhile (\<lambda>x. x \<notin> T) s @ c # t \<and> c \<in> T"
proof (induction s)
  case (Cons x s)
  show ?case
  proof (cases "x \<in> T")
    case True
    then show ?thesis by auto
  next
    case False
    then have "set s \<inter> T \<noteq> {}" using Cons.prems by auto
    then obtain c t where "s = takeWhile (\<lambda>x. x \<notin> T) s @ c # t" "c \<in> T" using Cons.IH by blast
    then show ?thesis using False by auto
  qed
qed simp

lemma strsep_cstr:
  assumes c: "cstr m p s" and b: "cstr m b d" and "0 < p"
  shows "if set s \<inter> set d = {} then strsep m p b = Some (m, p, 0)
    else \<exists>m' tok c rest. s = tok @ c # rest \<and> set tok \<inter> set d = {} \<and> c \<in> set d \<and>
      strsep m p b = Some (m', p, p + length tok + 1) \<and> m' = m(p + length tok := 0) \<and>
      cstr m' p tok \<and> cstr m' (p + length tok + 1) rest"
proof (cases "set s \<inter> set d = {}")
  case True
  then show ?thesis using strpbrk_cstr [OF b c] assms(3) by (simp add: strsep_def)
next
  case False
  let ?tok = "takeWhile (\<lambda>x. x \<notin> set d) s"
  obtain x rest where s: "s = ?tok @ x # rest" and x: "x \<in> set d" using split_at [OF False] by blast
  have len: "length ?tok \<le> length s" by (rule length_takeWhile_le)
  have run: "strsep m p b = Some (m(p + length ?tok := 0), p, p + length ?tok + 1)"
    using strpbrk_cstr [OF b c] False assms(3) by (simp add: strsep_def)
  have tk: "cstr (m(p + length ?tok := 0)) p ?tok"
    using cstr_cut [OF c len] takeWhile_eq_take [of "\<lambda>x. x \<notin> set d" s] by metis
  have "cstr m p (?tok @ x # rest)" using c by (subst s [symmetric])
  then have "cstr m (p + length ?tok) (x # rest)" by (rule cstr_suffix)
  then have "cstr (m(p + length ?tok := 0)) (p + length ?tok + 1) rest"
    using cstr_cong [of rest "m(p + length ?tok := 0)" "p + length ?tok + 1" m] by simp
  moreover have "set ?tok \<inter> set d = {}" using set_takeWhileD by fastforce
  ultimately show ?thesis
    unfolding if_not_P [OF False] using s x run tk
    by (intro exI [of _ "m(p + length ?tok := 0)"] exI [of _ ?tok] exI [of _ x] exI [of _ rest] conjI refl)
qed

section \<open>Bounded copies\<close>

lemma strlcpy_cstr:
  assumes c: "cstr m src s" and sep: "dest + n \<le> src \<or> src + length s < dest" and "0 < n"
  shows "\<exists>m'. strlcpy m dest src n = Some (m', length s) \<and> cstr m' dest (take (n - 1) s) \<and>
    (\<forall>a. a < dest \<or> dest + n \<le> a \<longrightarrow> m' a = m a)"
proof -
  let ?len = "if n \<le> length s then n - 1 else length s"
  let ?m = "(copy_bytes m dest src ?len)(dest + ?len := 0)"
  have run: "strlcpy m dest src n = Some (?m, length s)"
    using assms(3) strlen_cstr [OF c] by (simp add: strlcpy_def Let_def)
  have cp: "copy_bytes m dest src ?len = (\<lambda>a. if dest \<le> a \<and> a < dest + ?len then m (src + (a - dest)) else m a)"
    by (rule copy_bytes_eq) (use sep assms(3) in auto)
  have len: "?len = length (take (n - 1) s)" using assms(3) by auto
  have "0 \<notin> set (take (n - 1) s)" using c by (meson cstr_nth in_set_takeD)
  then have "cstr ?m dest (take (n - 1) s)"
    using c assms(3) unfolding cp cstr_nth by auto
  moreover have "?m a = m a" if "a < dest \<or> dest + n \<le> a" for a
    using that assms(3) unfolding cp by auto
  ultimately show ?thesis using run by blast
qed

section \<open>Scanning by words\<close>

lemma bit_load_le:
  "i < k \<Longrightarrow> k \<le> 8 \<Longrightarrow> j < 8 \<Longrightarrow> bit (load_le m p k) (8 * i + j) \<longleftrightarrow> bit (m (p + i)) j"
proof (induction k arbitrary: i p)
  case (Suc k)
  show ?case
  proof (cases i)
    case 0
    then show ?thesis using Suc.prems by (simp add: bit_simps)
  next
    case (Suc l)
    have "\<not> bit (m p) (8 * i + j)" using Suc by (auto dest: bit_imp_le_length)
    moreover have "bit (load_le m (Suc p) k) (8 * l + j) \<longleftrightarrow> bit (m (Suc p + l)) j"
      using Suc.IH [of l "Suc p"] Suc.prems Suc by simp
    ultimately show ?thesis using Suc Suc.prems by (simp add: bit_simps)
  qed
qed simp

lemma load_le_high: "8 * k \<le> n \<Longrightarrow> \<not> bit (load_le m p k) n"
proof (induction k arbitrary: p n)
  case (Suc k)
  then have "\<not> bit (load_le m (Suc p) k) (n - 8)" by simp
  then show ?case using Suc.prems by (auto simp: bit_simps dest: bit_imp_le_length)
qed simp

definition rep64 :: "u8 \<Rightarrow> u64" where
  "rep64 v = (let v1 = (ucast v :: u64); v2 = v1 OR push_bit 8 v1; v3 = v2 OR push_bit 16 v2 in v3 OR push_bit 32 v3)"

lemma bit_u8_high: "8 \<le> n \<Longrightarrow> \<not> bit (v :: u8) n"
  by (auto dest: bit_imp_le_length)

lemma bit_rep64:
  assumes "i < 8" and "j < 8"
  shows "bit (rep64 v) (8 * i + j) \<longleftrightarrow> bit v j"
proof -
  have "i = 0 \<or> i = 1 \<or> i = 2 \<or> i = 3 \<or> i = 4 \<or> i = 5 \<or> i = 6 \<or> i = 7" using assms(1) by auto
  then show ?thesis
    using assms(2) by (elim disjE) (simp_all add: rep64_def Let_def bit_simps bit_u8_high)
qed

lemma load_rep64: "load_le m p 8 = rep64 v \<longleftrightarrow> (\<forall>i<8. m (p + i) = v)"
proof
  assume eq: "load_le m p 8 = rep64 v"
  have "bit (m (p + i)) j \<longleftrightarrow> bit v j" if "i < 8" "j < 8" for i j
    using bit_load_le [of i 8 j m p] bit_rep64 [of i j v] eq that by simp
  then show "\<forall>i<8. m (p + i) = v" by (auto intro: bit_word_eqI)
next
  assume all: "\<forall>i<8. m (p + i) = v"
  show "load_le m p 8 = rep64 v"
  proof (rule bit_word_eqI)
    fix n :: nat assume "n < LENGTH(64)"
    then have n: "n div 8 < 8" "n mod 8 < 8" "n = 8 * (n div 8) + n mod 8" by auto
    have "m (p + n div 8) = v" using all n(1) by blast
    then have "bit (load_le m p 8) (8 * (n div 8) + n mod 8) \<longleftrightarrow> bit (rep64 v) (8 * (n div 8) + n mod 8)"
      unfolding bit_load_le [OF n(1) order_refl n(2)] bit_rep64 [OF n(1,2)] by simp
    then show "bit (load_le m p 8) n \<longleftrightarrow> bit (rep64 v) n" using n(3) by metis
  qed
qed

lemma check_bytes8_append:
  "0 < p \<Longrightarrow> check_bytes8 m p v (a + b) = (if check_bytes8 m p v a \<noteq> 0 then check_bytes8 m p v a else check_bytes8 m (p + a) v b)"
  by (induction a arbitrary: p) auto

lemma check_bytes8_none: "0 < p \<Longrightarrow> check_bytes8 m p v n = 0 \<longleftrightarrow> (\<forall>i<n. m (p + i) = v)"
proof (induction n arbitrary: p)
  case (Suc n)
  then show ?case by (auto simp: less_Suc_eq_0_disj)
qed simp

lemma inv_words_eq: "0 < p \<Longrightarrow> inv_words m p v (rep64 v) w r = check_bytes8 m p v (8 * w + r)"
proof (induction w arbitrary: p)
  case (Suc w)
  show ?case
  proof (cases "load_le m p 8 = rep64 v")
    case True
    then have "check_bytes8 m p v 8 = 0" using check_bytes8_none [OF Suc.prems] load_rep64 by blast
    then show ?thesis
      using True Suc.IH [of "p + 8"] Suc.prems check_bytes8_append [OF Suc.prems, of m v 8 "8 * w + r"]
      by (simp add: add.assoc del: check_bytes8.simps)
  next
    case False
    then have "check_bytes8 m p v 8 \<noteq> 0" using check_bytes8_none [OF Suc.prems] load_rep64 by blast
    then show ?thesis
      using False check_bytes8_append [OF Suc.prems, of m v 8 "8 * w + r"]
      by (simp add: add.assoc del: check_bytes8.simps)
  qed
qed simp

lemma memchr_inv_eq:
  assumes "0 < p" and "n < 2 ^ 35"
  shows "memchr_inv m p v n = check_bytes8 m p v n"
proof (cases "n \<le> 16")
  case True
  then show ?thesis by (simp add: memchr_inv_def)
next
  case False
  let ?pre = "if p mod 8 \<noteq> 0 then 8 - p mod 8 else 0"
  have pre: "?pre \<le> n" using False by (cases "p mod 8 = 0") simp_all
  have w: "(n - ?pre) div 8 mod 2 ^ 32 = (n - ?pre) div 8"
    using assms(2) by (intro mod_less) (simp add: less_mult_imp_div_less)
  have words: "inv_words m (p + ?pre) v (rep64 v) ((n - ?pre) div 8) ((n - ?pre) mod 8) = check_bytes8 m (p + ?pre) v (n - ?pre)"
    using inv_words_eq [of "p + ?pre" m v] assms(1) by (simp only: mult_div_mod_eq)
  have "memchr_inv m p v n =
      (if ?pre \<noteq> 0 \<and> check_bytes8 m p v ?pre \<noteq> 0 then check_bytes8 m p v ?pre
       else inv_words m (p + ?pre) v (rep64 v) ((n - ?pre) div 8 mod 2 ^ 32) ((n - ?pre) mod 8))"
    unfolding memchr_inv_def rep64_def Let_def using False by (simp only: if_False)
  also have "\<dots> = (if check_bytes8 m p v ?pre \<noteq> 0 then check_bytes8 m p v ?pre else check_bytes8 m (p + ?pre) v (n - ?pre))"
    unfolding w words by (cases "?pre = 0") simp_all
  also have "\<dots> = check_bytes8 m p v (?pre + (n - ?pre))" by (rule check_bytes8_append [OF assms(1), symmetric])
  also have "?pre + (n - ?pre) = n" using pre by simp
  finally show ?thesis .
qed

section \<open>Padding copies\<close>

lemma strncpy_eq:
  "cstr m src s \<Longrightarrow> dest + n \<le> src \<or> src + length s < dest \<Longrightarrow>
     strncpy m dest src n = (\<lambda>a. if dest \<le> a \<and> a < dest + n then (if a - dest < length s then s ! (a - dest) else 0) else m a)"
proof (induction n arbitrary: m dest src s)
  case (Suc n)
  define m' where "m' = m(dest := m src)"
  have step: "strncpy m dest src (Suc n) = strncpy m' (Suc dest) (if m src \<noteq> 0 then Suc src else src) n"
    by (simp add: m'_def)
  show ?case
  proof (cases s)
    case Nil
    then have "cstr m' src []" and "Suc dest + n \<le> src \<or> src + length ([] :: u8 list) < Suc dest"
      using Suc.prems by (auto simp: m'_def)
    note IH = Suc.IH [OF this]
    have z: "m src = 0" using Suc.prems Nil by simp
    then have "strncpy m dest src (Suc n) = strncpy m' (Suc dest) src n" using step by simp
    then show ?thesis unfolding IH using Nil z by (auto simp: fun_eq_iff m'_def)
  next
    case (Cons c t)
    have c: "c \<noteq> 0" "m src = c" "cstr m (Suc src) t" using Suc.prems Cons by auto
    have "cstr m' (Suc src) t" and "Suc dest + n \<le> Suc src \<or> Suc src + length t < Suc dest"
      using Suc.prems Cons cstr_cong [of t m' "Suc src" m] by (auto simp: m'_def)
    note IH = Suc.IH [OF this]
    have "strncpy m dest src (Suc n) = strncpy m' (Suc dest) (Suc src) n" using step c by simp
    then show ?thesis unfolding IH using Cons c by (auto simp: fun_eq_iff nth_Cons m'_def diff_Suc split: nat.splits)
  qed
qed (auto simp: fun_eq_iff)

section \<open>Properties\<close>

text \<open>Memory that holds the bytes \<open>s\<close> at \<open>p\<close>, and zeros.\<close>

definition mem_at :: "nat \<Rightarrow> u8 list \<Rightarrow> mem" where
  "mem_at p s = (\<lambda>a. if p \<le> a \<and> a < p + length s then s ! (a - p) else 0)"

text \<open>``hello'' at 16 and ``ll'' at 32.\<close>

definition sample_mem :: mem where
  "sample_mem = (\<lambda>a. if a < 32 then mem_at 16 [104, 101, 108, 108, 111] a else mem_at 32 [108, 108] a)"

lemma sample_strings: "cstr sample_mem 16 [104, 101, 108, 108, 111]" "cstr sample_mem 32 [108, 108]"
  by (simp_all add: sample_mem_def mem_at_def)

text \<open>
  (C19) \<open>memmove\<close> copies the block as it was before the call, whatever way source and destination overlap,
  and leaves every other byte alone.
\<close>

theorem memmove_copies:
  "memmove m dest src n = (\<lambda>a. if dest \<le> a \<and> a < dest + n then m (src + (a - dest)) else m a)"
  unfolding memmove_def by (cases "dest \<le> src") (simp_all add: copy_bytes_eq copy_down_eq)

text \<open>
  (C20) \<open>memchr_inv\<close>, which scans eight bytes at a time once the pointer is aligned, finds the same first
  differing byte as the scan byte by byte, for areas below 32 GiB.
\<close>

theorem memchr_inv_bytewise:
  assumes "0 < p" and "n < 2 ^ 35"
  shows "memchr_inv m p v n = check_bytes8 m p v n"
  by (rule memchr_inv_eq [OF assms])

theorem memchr_inv_bytewise_witness:
  "memchr_inv (mem_at 40 [1]) 3 0 48 = check_bytes8 (mem_at 40 [1]) 3 0 48 \<and> check_bytes8 (mem_at 40 [1]) 3 0 48 = 40"
proof -
  have "check_bytes8 (mem_at 40 [1]) 3 0 48 = 40" by (simp add: mem_at_def numeral_eq_Suc)
  then show ?thesis using memchr_inv_bytewise [of 3 48 "mem_at 40 [1]" 0] by simp
qed

text \<open>
  \<open>strcmp\<close> returns on strings and gives the sign of their lexicographic order by unsigned bytes: 0
  exactly for equal strings, -1 when the first comes before the second, and 1 otherwise.
\<close>

theorem strcmp_order:
  assumes "cstr m p s" and "cstr m q t"
  shows "strcmp m p q = Some (if s = t then 0 else if (s, t) \<in> lexord {(a, b). a < b} then - 1 else 1)"
  using strcmp_cstr [OF assms] by (simp add: lex_sign_def)

theorem strcmp_order_witness:
  "strcmp sample_mem 16 32 =
     Some (if [104, 101, 108, 108, 111] = [108, 108 :: u8] then 0
           else if ([104, 101, 108, 108, 111], [108, 108 :: u8]) \<in> lexord {(a, b). a < b} then - 1 else 1)"
  using strcmp_order [OF sample_strings] .

text \<open>
  (C21) \<open>strstr\<close> returns the address of the first place where the pattern occurs in the text, and the null
  pointer exactly when it occurs nowhere.
\<close>

theorem strstr_first:
  assumes "cstr m p s" and "cstr m q t" and "0 < p"
  shows "\<exists>r. strstr m p q = Some r \<and>
    (if r = 0 then \<forall>i. \<not> occurs t s i else \<exists>i. r = p + i \<and> occurs t s i \<and> (\<forall>k<i. \<not> occurs t s k))"
  using strstr_cstr [OF assms] assms(3) by fastforce

theorem strstr_first_witness:
  "\<exists>r. strstr sample_mem 16 32 = Some r \<and>
    (if r = 0 then \<forall>i. \<not> occurs [108, 108] [104, 101, 108, 108, 111] i
     else \<exists>i. r = 16 + i \<and> occurs [108, 108] [104, 101, 108, 108, 111] i \<and>
            (\<forall>k<i. \<not> occurs [108, 108] [104, 101, 108, 108, 111] k))"
  by (rule strstr_first [OF sample_strings]) simp

text \<open>
  (C22) \<open>strlcpy\<close> never writes outside the destination buffer, always leaves a terminated string in it, the
  source cut to the size of the buffer, and returns the length of the source.
\<close>

theorem strlcpy_bounded:
  assumes "cstr m src s" and "dest + n \<le> src \<or> src + length s < dest" and "0 < n"
  shows "\<exists>m'. strlcpy m dest src n = Some (m', length s) \<and> cstr m' dest (take (n - 1) s) \<and>
    (\<forall>a. a < dest \<or> dest + n \<le> a \<longrightarrow> m' a = m a)"
  by (rule strlcpy_cstr [OF assms])

theorem strlcpy_bounded_witness:
  "\<exists>m'. strlcpy sample_mem 64 16 4 = Some (m', 5) \<and> cstr m' 64 [104, 101, 108]"
  using strlcpy_bounded [OF sample_strings(1), of 64 4] by auto

text \<open>
  \<open>strcpy\<close> followed by \<open>strcat\<close> builds the concatenation: after copying one string and appending another to
  separate room, the destination holds both, and \<open>strlen\<close> gives the sum of the lengths.
\<close>

theorem strcpy_strcat_strlen:
  assumes "cstr m p s" and "cstr m q t"
    and "dest + length s + length t < p \<or> p + length s < dest"
    and "dest + length s + length t < q \<or> q + length t < dest"
  shows "\<exists>m1 m2. strcpy m dest p = Some m1 \<and> strcat m1 dest q = Some m2 \<and> cstr m2 dest (s @ t) \<and>
    strlen m2 dest = Some (length s + length t)"
proof -
  have sep: "dest \<le> p \<or> p + length s < dest" using assms(3) by auto
  let ?m1 = "copy_bytes m dest p (Suc (length s))"
  have c1: "strcpy m dest p = Some ?m1" by (simp add: strcpy_def copy_nul_cstr [OF assms(1) sep] del: copy_bytes.simps)
  have s1: "cstr ?m1 dest s" by (rule copied_cstr [OF assms(1) sep])
  have "?m1 (q + i) = m (q + i)" if "i \<le> length t" for i
    using copied_frame [of dest p "Suc (length s)" "q + i" m] sep assms(4) that by auto
  then have t1: "cstr ?m1 q t" using cstr_cong [of t ?m1 q m] assms(2) by blast
  note cat = strcat_cstr [OF s1 t1 assms(4)]
  show ?thesis using c1 cat strlen_cstr [OF cat(2)] by (auto simp del: copy_bytes.simps)
qed

theorem strcpy_strcat_strlen_witness:
  "\<exists>m1 m2. strcpy sample_mem 64 16 = Some m1 \<and> strcat m1 64 32 = Some m2 \<and> cstr m2 64 [104, 101, 108, 108, 111, 108, 108]"
  using strcpy_strcat_strlen [OF sample_strings, of 64] by auto

text \<open>
  (C23) \<open>strim\<close> returns a pointer to the string without leading and trailing white space, terminated in place,
  and changes nothing outside the string.
\<close>

theorem strim_strips:
  assumes "cstr m p s"
  shows "\<exists>m' q. strim m p = Some (m', q) \<and> cstr m' q (dropWhile isspace (rstrip s)) \<and>
    (\<forall>a. a < p \<or> p + length s < a \<longrightarrow> m' a = m a)"
  using strim_cstr [OF assms] by blast

theorem strim_strips_witness:
  "\<exists>m' q. strim (mem_at 8 [32, 97, 9, 32]) 8 = Some (m', q) \<and> cstr m' q (dropWhile isspace (rstrip [32, 97, 9, 32]))"
proof -
  have "cstr (mem_at 8 [32, 97, 9, 32]) 8 [32, 97, 9, 32]" by (simp add: mem_at_def)
  from strim_strips [OF this] show ?thesis by blast
qed

end
