(* ===== verification/Kstrtox.thy ===== *)
theory Kstrtox imports Kstring_Spec begin

text \<open>
  Integers from strings, \<^verbatim>\<open>lib/src/kstrtox.c\<close>.  A conversion gives \<open>Inr\<close> the value it stores in \<^verbatim>\<open>*res\<close> or \<open>Inl\<close> the
  negative error number, in which case \<^verbatim>\<open>*res\<close> is not touched; \<open>None\<close> means that the scan of the digits runs on
  for ever.  The radix is a natural number; the consumed characters are counted in 32 bits, with the
  overflow flag in the topmost one, and the value in 64 bits.
\<close>

section \<open>Operations\<close>

definition ERANGE :: int where
  "ERANGE = 34"

definition KSTRTOX_OVERFLOW :: u32 where
  "KSTRTOX_OVERFLOW = push_bit 31 1"

definition parse_integer_fixup_radix :: "mem \<Rightarrow> nat \<Rightarrow> nat \<Rightarrow> nat \<times> nat" where
  "parse_integer_fixup_radix m s base =
     (let base' =
        (if base = 0 then
           (if m s = 48 then (if fast_tolower (m (s + 1)) = 120 \<and> isxdigit (m (s + 2)) then 16 else 8) else 10)
         else base)
      in (if base' = 16 \<and> m s = 48 \<and> fast_tolower (m (s + 1)) = 120 then s + 2 else s, base'))"

text \<open>The digit a character stands for, before it is compared with the radix.\<close>

definition digit_of :: "u8 \<Rightarrow> nat option" where
  "digit_of c =
     (let lc = c OR 0x20
      in if 48 \<le> c \<and> c \<le> 57 then Some (unat c - 48)
         else if 97 \<le> lc \<and> lc \<le> 102 then Some (unat lc - 97 + 10)
         else None)"

definition note_overflow :: "nat \<Rightarrow> nat \<Rightarrow> u64 \<Rightarrow> u32 \<Rightarrow> u32" where
  "note_overflow base val res rv =
     (if res AND push_bit 60 (- 1) \<noteq> 0 \<and> (- 1 - of_nat val) div of_nat base < res then rv OR KSTRTOX_OVERFLOW else rv)"

partial_function (option) parse_loop :: "mem \<Rightarrow> nat \<Rightarrow> nat \<Rightarrow> u64 \<Rightarrow> u32 \<Rightarrow> (u64 \<times> u32) option" where
  "parse_loop m s base res rv =
     (case digit_of (m s) of
        None \<Rightarrow> Some (res, rv)
      | Some val \<Rightarrow>
          if base \<le> val then Some (res, rv)
          else parse_loop m (Suc s) base (res * of_nat base + of_nat val) (note_overflow base val res rv + 1))"

definition parse_integer :: "mem \<Rightarrow> nat \<Rightarrow> nat \<Rightarrow> (u64 \<times> u32) option" where
  "parse_integer m s base = parse_loop m s base 0 0"

definition kstrtoull_unsigned :: "mem \<Rightarrow> nat \<Rightarrow> nat \<Rightarrow> (int + u64) option" where
  "kstrtoull_unsigned m s base =
     (case parse_integer_fixup_radix m s base of
        (s1, base1) \<Rightarrow>
          map_option (\<lambda>(res, rv).
            if rv AND KSTRTOX_OVERFLOW \<noteq> 0 then Inl (- ERANGE)
            else if rv = 0 then Inl (- EINVAL)
            else
              let s2 = s1 + unat rv; s3 = (if m s2 = 10 then s2 + 1 else s2)
              in if m s3 \<noteq> 0 then Inl (- EINVAL) else Inr res) (parse_integer m s1 base1))"

definition kstrtoull :: "mem \<Rightarrow> nat \<Rightarrow> nat \<Rightarrow> (int + u64) option" where
  "kstrtoull m s base = kstrtoull_unsigned m (if m s = 43 then s + 1 else s) base"

text \<open>Signed values are words read with \<open>sint\<close>.\<close>

definition kstrtoll :: "mem \<Rightarrow> nat \<Rightarrow> nat \<Rightarrow> (int + u64) option" where
  "kstrtoll m s base =
     (if m s = 45 then
        map_option (\<lambda>r. bind_run r (\<lambda>tmp. if 0 < sint (- tmp) then Inl (- ERANGE) else Inr (- tmp)))
          (kstrtoull_unsigned m (s + 1) base)
      else
        map_option (\<lambda>r. bind_run r (\<lambda>tmp. if sint tmp < 0 then Inl (- ERANGE) else Inr tmp))
          (kstrtoull m s base))"

text \<open>\<^verbatim>\<open>unsigned long\<close> and \<^verbatim>\<open>long\<close> have 64 bits, so their casts change nothing.\<close>

definition kstrtoul :: "mem \<Rightarrow> nat \<Rightarrow> nat \<Rightarrow> (int + u64) option" where
  "kstrtoul m s base =
     map_option (\<lambda>r. bind_run r (\<lambda>tmp. if tmp \<noteq> (ucast tmp :: u64) then Inl (- ERANGE) else Inr tmp)) (kstrtoull m s base)"

definition kstrtol :: "mem \<Rightarrow> nat \<Rightarrow> nat \<Rightarrow> (int + u64) option" where
  "kstrtol m s base =
     map_option (\<lambda>r. bind_run r (\<lambda>tmp. if tmp \<noteq> (scast tmp :: u64) then Inl (- ERANGE) else Inr tmp)) (kstrtoll m s base)"

definition kstrtouint :: "mem \<Rightarrow> nat \<Rightarrow> nat \<Rightarrow> (int + u32) option" where
  "kstrtouint m s base =
     map_option (\<lambda>r. bind_run r (\<lambda>tmp. if tmp \<noteq> ucast (ucast tmp :: u32) then Inl (- ERANGE) else Inr (ucast tmp)))
       (kstrtoull m s base)"

definition kstrtoint :: "mem \<Rightarrow> nat \<Rightarrow> nat \<Rightarrow> (int + u32) option" where
  "kstrtoint m s base =
     map_option (\<lambda>r. bind_run r (\<lambda>tmp. if tmp \<noteq> scast (ucast tmp :: u32) then Inl (- ERANGE) else Inr (ucast tmp)))
       (kstrtoll m s base)"

definition kstrtou16 :: "mem \<Rightarrow> nat \<Rightarrow> nat \<Rightarrow> (int + u16) option" where
  "kstrtou16 m s base =
     map_option (\<lambda>r. bind_run r (\<lambda>tmp. if tmp \<noteq> ucast (ucast tmp :: u16) then Inl (- ERANGE) else Inr (ucast tmp)))
       (kstrtoull m s base)"

definition kstrtos16 :: "mem \<Rightarrow> nat \<Rightarrow> nat \<Rightarrow> (int + u16) option" where
  "kstrtos16 m s base =
     map_option (\<lambda>r. bind_run r (\<lambda>tmp. if tmp \<noteq> scast (ucast tmp :: u16) then Inl (- ERANGE) else Inr (ucast tmp)))
       (kstrtoll m s base)"

definition kstrtou8 :: "mem \<Rightarrow> nat \<Rightarrow> nat \<Rightarrow> (int + u8) option" where
  "kstrtou8 m s base =
     map_option (\<lambda>r. bind_run r (\<lambda>tmp. if tmp \<noteq> ucast (ucast tmp :: u8) then Inl (- ERANGE) else Inr (ucast tmp)))
       (kstrtoull m s base)"

definition kstrtos8 :: "mem \<Rightarrow> nat \<Rightarrow> nat \<Rightarrow> (int + u8) option" where
  "kstrtos8 m s base =
     map_option (\<lambda>r. bind_run r (\<lambda>tmp. if tmp \<noteq> scast (ucast tmp :: u8) then Inl (- ERANGE) else Inr (ucast tmp)))
       (kstrtoll m s base)"

text \<open>The characters are \<^verbatim>\<open>yY1\<close>, \<^verbatim>\<open>nN0\<close>, \<^verbatim>\<open>oO\<close> and, after an o, \<^verbatim>\<open>nN\<close> or \<^verbatim>\<open>fF\<close>.\<close>

definition kstrtobool :: "mem \<Rightarrow> nat \<Rightarrow> int + bool" where
  "kstrtobool m s =
     (if s = 0 then Inl (- EINVAL)
      else if m s \<in> {121, 89, 49} then Inr True
      else if m s \<in> {110, 78, 48} then Inr False
      else if m s \<in> {111, 79} then
        (if m (s + 1) \<in> {110, 78} then Inr True
         else if m (s + 1) \<in> {102, 70} then Inr False
         else Inl (- EINVAL))
      else Inl (- EINVAL))"

section \<open>The digits\<close>

text \<open>Whether a character is a digit of the radix, and the number a row of digits denotes.\<close>

definition is_digit :: "nat \<Rightarrow> u8 \<Rightarrow> bool" where
  "is_digit b c \<longleftrightarrow> (case digit_of c of None \<Rightarrow> False | Some v \<Rightarrow> v < b)"

definition digit_val :: "u8 \<Rightarrow> nat" where
  "digit_val c = (case digit_of c of None \<Rightarrow> 0 | Some v \<Rightarrow> v)"

fun number :: "nat \<Rightarrow> nat \<Rightarrow> u8 list \<Rightarrow> nat" where
  "number b acc [] = acc"
| "number b acc (c # s) = number b (acc * b + digit_val c) s"

lemma is_digitD: "is_digit b c \<Longrightarrow> digit_of c = Some (digit_val c) \<and> digit_val c < b"
  by (auto simp: is_digit_def digit_val_def split: option.splits)

lemma not_digitD: "\<not> is_digit b c \<Longrightarrow> digit_of c = None \<or> (\<exists>v. digit_of c = Some v \<and> b \<le> v)"
  by (auto simp: is_digit_def split: option.splits)

lemma digit_of_0 [simp]: "digit_of 0 = None"
  by (simp add: digit_of_def)

lemma number_mono: "1 \<le> b \<Longrightarrow> acc \<le> number b acc s"
proof (induction s arbitrary: acc)
  case (Cons c s)
  have "acc \<le> acc * b" using Cons.prems by simp
  also have "\<dots> \<le> acc * b + digit_val c" by simp
  also have "\<dots> \<le> number b (acc * b + digit_val c) s" by (rule Cons.IH [OF Cons.prems])
  finally show ?case by simp
qed simp

section \<open>The overflow flag\<close>

text \<open>\<open>flagged k f\<close> is the count \<open>k\<close> with the overflow flag \<open>f\<close>.\<close>

definition flagged :: "nat \<Rightarrow> bool \<Rightarrow> u32" where
  "flagged k f = of_nat k + (if f then KSTRTOX_OVERFLOW else 0)"

lemma KSTRTOX_OVERFLOW_val: "KSTRTOX_OVERFLOW = 2 ^ 31"
  by (simp add: KSTRTOX_OVERFLOW_def)

lemma unat_flagged: "k < 2 ^ 31 \<Longrightarrow> unat (flagged k f) = k + (if f then 2 ^ 31 else 0)"
  by (simp add: flagged_def KSTRTOX_OVERFLOW_val unat_word_ariths unsigned_of_nat take_bit_nat_eq_self)

lemma bit_KSTRTOX_OVERFLOW [simp]: "bit KSTRTOX_OVERFLOW n \<longleftrightarrow> n = 31"
  unfolding KSTRTOX_OVERFLOW_def by (simp only: bit_push_bit_iff bit_1_iff possible_bit_word) auto

lemma low_and_flag: "k < 2 ^ 31 \<Longrightarrow> (of_nat k :: u32) AND KSTRTOX_OVERFLOW = 0"
proof (rule bit_word_eqI)
  fix n :: nat assume "k < 2 ^ 31"
  then have "\<not> bit k 31" by (simp add: bit_iff_odd)
  then show "bit ((of_nat k :: u32) AND KSTRTOX_OVERFLOW) n \<longleftrightarrow> bit (0 :: u32) n"
    by (auto simp: bit_simps)
qed

lemma flagged_or: "k < 2 ^ 31 \<Longrightarrow> flagged k f = (if f then of_nat k OR KSTRTOX_OVERFLOW else of_nat k)"
  unfolding flagged_def using disjunctive_add_eq_or [OF low_and_flag [of k]] by simp

lemma flagged_set: "k < 2 ^ 31 \<Longrightarrow> flagged k f OR KSTRTOX_OVERFLOW = flagged k True"
  by (simp add: flagged_or or.assoc)

lemma flagged_test: "k < 2 ^ 31 \<Longrightarrow> flagged k f AND KSTRTOX_OVERFLOW \<noteq> 0 \<longleftrightarrow> f"
proof -
  assume k: "k < 2 ^ 31"
  have "(of_nat k OR KSTRTOX_OVERFLOW) AND KSTRTOX_OVERFLOW = KSTRTOX_OVERFLOW"
    by (rule bit_word_eqI) (auto simp: bit_simps)
  then show ?thesis using k low_and_flag [OF k] by (simp add: flagged_or KSTRTOX_OVERFLOW_val)
qed

lemma flagged_Suc: "flagged k f + 1 = flagged (Suc k) f"
  by (simp add: flagged_def)

text \<open>The test on the four topmost bits never hides an overflow, since the radix is at most 16.\<close>

lemma high_bits: "res AND push_bit 60 (- 1) \<noteq> 0 \<longleftrightarrow> 2 ^ 60 \<le> unat (res :: u64)"
proof -
  have "res AND push_bit 60 (- 1) = res AND NOT (mask 60)"
    by (rule bit_word_eqI) (auto simp: bit_simps)
  then have "unat (res AND push_bit 60 (- 1)) = 2 ^ 60 * (unat res div 2 ^ 60)" by (simp only: unat_and_not_mask)
  then have "res AND push_bit 60 (- 1) = 0 \<longleftrightarrow> unat res div 2 ^ 60 = 0" by (simp add: unat_eq_zero [symmetric] del: unat_eq_zero)
  then show ?thesis by (simp add: div_eq_0_iff not_less)
qed

lemma overflow_test:
  assumes "1 \<le> b" and "b \<le> 16" and "v < b"
  shows "(res AND push_bit 60 (- 1) \<noteq> 0 \<and> (- 1 - of_nat v) div of_nat b < res) \<longleftrightarrow> 2 ^ 64 \<le> unat (res :: u64) * b + v"
proof -
  have v: "unat (of_nat v :: u64) = v" "unat (of_nat b :: u64) = b"
    using assms by (simp_all add: unsigned_of_nat take_bit_nat_eq_self)
  have minus1: "unat (- 1 :: u64) = 2 ^ 64 - 1" by (simp add: unsigned_minus_1_eq_mask mask_eq_exp_minus_1)
  have "unat (- 1 - of_nat v :: u64) = 2 ^ 64 - 1 - v"
    using assms v by (subst unat_sub) (simp_all add: word_le_nat_alt minus1)
  then have "unat ((- 1 - of_nat v :: u64) div of_nat b) = (2 ^ 64 - 1 - v) div b" by (simp only: unat_div v)
  then have "(- 1 - of_nat v) div of_nat b < res \<longleftrightarrow> (2 ^ 64 - 1 - v) div b < unat res" by (simp only: word_less_nat_alt)
  also have "\<dots> \<longleftrightarrow> 2 ^ 64 - 1 - v < unat res * b" using assms(1) by (simp add: div_less_iff_less_mult)
  also have "\<dots> \<longleftrightarrow> 2 ^ 64 \<le> unat res * b + v" using assms by auto
  finally have div: "(- 1 - of_nat v) div of_nat b < res \<longleftrightarrow> 2 ^ 64 \<le> unat res * b + v" .
  have "\<not> 2 ^ 64 \<le> unat res * b + v" if "\<not> 2 ^ 60 \<le> unat res"
  proof -
    have "unat res \<le> 2 ^ 60 - 1" using that by simp
    then have "unat res * b \<le> (2 ^ 60 - 1) * 16" using assms(2) by (rule mult_le_mono)
    then show ?thesis using assms by simp
  qed
  then show ?thesis unfolding high_bits div by blast
qed

lemma note_overflow_flag:
  assumes "1 \<le> b" and "b \<le> 16" and "v < b" and "k < 2 ^ 31"
    and "f \<longleftrightarrow> 2 ^ 64 \<le> N" and "res = of_nat N"
  shows "note_overflow b v res (flagged k f) = flagged k (2 ^ 64 \<le> N * b + v)"
proof (cases f)
  case True
  have "2 ^ 64 \<le> N" using True assms(5) by blast
  also have "N = N * 1" by simp
  also have "N * 1 \<le> N * b" using assms(1) by (rule mult_le_mono2)
  also have "\<dots> \<le> N * b + v" by (rule le_add1)
  finally have "2 ^ 64 \<le> N * b + v" .
  then show ?thesis using True assms(4) by (simp add: note_overflow_def flagged_set)
next
  case False
  then have "unat res = N" using assms(5,6) by (simp add: unsigned_of_nat take_bit_nat_eq_self)
  then show ?thesis
    using overflow_test [OF assms(1-3), of res] False flagged_set [OF assms(4), of False] by (simp add: note_overflow_def)
qed

lemma parse_loop_digits:
  assumes "1 \<le> b" and "b \<le> 16"
  shows "cstr m p s \<Longrightarrow> k + length s < 2 ^ 31 \<Longrightarrow>
     parse_loop m p b (of_nat N) (flagged k (2 ^ 64 \<le> N)) =
       Some (of_nat (number b N (takeWhile (is_digit b) s)),
             flagged (k + length (takeWhile (is_digit b) s)) (2 ^ 64 \<le> number b N (takeWhile (is_digit b) s)))"
proof (induction s arbitrary: p k N)
  case Nil
  then show ?case by (simp add: parse_loop.simps [of m p])
next
  case (Cons c s)
  show ?case
  proof (cases "is_digit b c")
    case False
    then show ?thesis using not_digitD [OF False] Cons.prems by (auto simp: parse_loop.simps [of m p])
  next
    case True
    note d = is_digitD [OF True]
    have "of_nat N * of_nat b + of_nat (digit_val c) = (of_nat (N * b + digit_val c) :: u64)" by simp
    moreover have "note_overflow b (digit_val c) (of_nat N) (flagged k (2 ^ 64 \<le> N)) + 1 =
        flagged (Suc k) (2 ^ 64 \<le> N * b + digit_val c)"
      using note_overflow_flag [OF assms conjunct2 [OF d], of k "2 ^ 64 \<le> N" N "of_nat N"] Cons.prems by (simp add: flagged_Suc)
    moreover have "parse_loop m p b (of_nat N) (flagged k (2 ^ 64 \<le> N)) =
        parse_loop m (Suc p) b (of_nat N * of_nat b + of_nat (digit_val c))
          (note_overflow b (digit_val c) (of_nat N) (flagged k (2 ^ 64 \<le> N)) + 1)"
      using d Cons.prems by (subst parse_loop.simps) simp
    ultimately show ?thesis
      using Cons.IH [of "Suc p" "Suc k" "N * b + digit_val c"] Cons.prems True by simp
  qed
qed


section \<open>What a string denotes\<close>

text \<open>The radix and the digits behind its prefix, on the characters of the string.\<close>

definition hex_prefix :: "u8 list \<Rightarrow> bool" where
  "hex_prefix s \<longleftrightarrow> (case s of c # d # _ \<Rightarrow> c = 48 \<and> fast_tolower d = 120 | _ \<Rightarrow> False)"

definition radix_of :: "nat \<Rightarrow> u8 list \<Rightarrow> nat" where
  "radix_of base s =
     (if base \<noteq> 0 then base
      else if s = [] \<or> hd s \<noteq> 48 then 10
      else if hex_prefix s \<and> drop 2 s \<noteq> [] \<and> isxdigit (s ! 2) then 16
      else 8)"

definition digits_of :: "nat \<Rightarrow> u8 list \<Rightarrow> u8 list" where
  "digits_of base s = (if radix_of base s = 16 \<and> hex_prefix s then drop 2 s else s)"

definition magnitude :: "nat \<Rightarrow> u8 list \<Rightarrow> int + int" where
  "magnitude base s =
     (let b = radix_of base s; ds = takeWhile (is_digit b) (digits_of base s); rest = dropWhile (is_digit b) (digits_of base s)
      in if 2 ^ 64 \<le> number b 0 ds then Inl (- ERANGE)
         else if ds = [] then Inl (- EINVAL)
         else if rest = [] \<or> rest = [10] then Inr (int (number b 0 ds))
         else Inl (- EINVAL))"

definition unsigned_value :: "nat \<Rightarrow> u8 list \<Rightarrow> int + int" where
  "unsigned_value base s = (case s of c # r \<Rightarrow> magnitude base (if c = 43 then r else s) | [] \<Rightarrow> magnitude base s)"

definition signed_value :: "nat \<Rightarrow> u8 list \<Rightarrow> int + int" where
  "signed_value base s =
     (case s of c # r \<Rightarrow> if c = 45 then map_sum id uminus (magnitude base r) else unsigned_value base s
      | [] \<Rightarrow> unsigned_value base s)"

text \<open>A value outside the range of the type is \<^verbatim>\<open>-ERANGE\<close>.\<close>

definition fit :: "int \<Rightarrow> int \<Rightarrow> int + int \<Rightarrow> int + int" where
  "fit lo hi r = bind_run r (\<lambda>v. if lo \<le> v \<and> v \<le> hi then Inr v else Inl (- ERANGE))"

lemma fast_tolower_0 [simp]: "fast_tolower 0 \<noteq> 120"
  by (simp add: fast_tolower_def)

lemma isxdigit_0 [simp]: "\<not> isxdigit 0"
  by code_simp

lemma fixup_radix:
  assumes "cstr m p s"
  shows "parse_integer_fixup_radix m p base = (p + (length s - length (digits_of base s)), radix_of base s)"
    and "cstr m (p + (length s - length (digits_of base s))) (digits_of base s)"
proof -
  consider "s = []" | c where "s = [c]" | c d where "s = [c, d]" | c d e r where "s = c # d # e # r"
    by (metis list.exhaust)
  then show "parse_integer_fixup_radix m p base = (p + (length s - length (digits_of base s)), radix_of base s)"
    by cases (use assms in \<open>auto simp: parse_integer_fixup_radix_def digits_of_def radix_of_def hex_prefix_def Let_def\<close>)
  show "cstr m (p + (length s - length (digits_of base s))) (digits_of base s)"
    using assms by (auto simp: digits_of_def hex_prefix_def split: list.splits)
qed

lemma radix_of_range: "base \<le> 16 \<Longrightarrow> 1 \<le> radix_of base s \<and> radix_of base s \<le> 16"
  by (simp add: radix_of_def)

lemma length_digits_of: "length (digits_of base s) \<le> length s"
  by (simp add: digits_of_def)

lemma rest_tail:
  assumes "cstr m q t"
  shows "m (if m q = 10 then q + 1 else q) = 0 \<longleftrightarrow> t = [] \<or> t = [10]"
proof (cases t)
  case (Cons c u)
  then show ?thesis using assms by (cases u) auto
qed (use assms in auto)

lemma kstrtoull_unsigned_cstr:
  assumes c: "cstr m p s" and len: "length s < 2 ^ 31" and base: "base \<le> 16"
  shows "kstrtoull_unsigned m p base = Some (map_sum id of_int (magnitude base s))"
proof -
  define b where "b = radix_of base s"
  define d where "d = digits_of base s"
  define q where "q = p + (length s - length d)"
  define ds where "ds = takeWhile (is_digit b) d"
  define N where "N = number b 0 ds"
  have b: "1 \<le> b" "b \<le> 16" using radix_of_range [OF base, of s] by (simp_all add: b_def)
  have q: "cstr m q d" unfolding q_def d_def using fixup_radix(2) [OF c] .
  have ld: "length d < 2 ^ 31" using length_digits_of [of base s] len unfolding d_def by (rule le_less_trans)
  have lds: "length ds < 2 ^ 31" using length_takeWhile_le [of "is_digit b" d] ld unfolding ds_def by (rule le_less_trans)
  have parse: "parse_integer m q b = Some (of_nat N, flagged (length ds) (2 ^ 64 \<le> N))"
    using parse_loop_digits [OF b q, of 0 0] ld by (simp add: parse_integer_def flagged_def N_def ds_def)
  have "d = ds @ dropWhile (is_digit b) d" by (simp add: ds_def)
  then have tl: "cstr m (q + length ds) (dropWhile (is_digit b) d)" using q cstr_suffix by metis
  note rest = rest_tail [OF tl]
  have nul: "flagged (length ds) False = 0 \<longleftrightarrow> ds = []"
    using unat_flagged [OF lds, of False] by (metis add_0_right length_0_conv unat_eq_zero)
  have count: "unat (flagged (length ds) False) = length ds" using unat_flagged [OF lds, of False] by simp
  have "kstrtoull_unsigned m p base =
      Some (if 2 ^ 64 \<le> N then Inl (- ERANGE) else if ds = [] then Inl (- EINVAL)
            else if dropWhile (is_digit b) d = [] \<or> dropWhile (is_digit b) d = [10] then Inr (of_nat N) else Inl (- EINVAL))"
  proof (cases "2 ^ 64 \<le> N")
    case True
    then show ?thesis using flagged_test [OF lds, of True]
      by (simp add: kstrtoull_unsigned_def fixup_radix(1) [OF c] parse flip: b_def d_def q_def)
  next
    case False
    show ?thesis unfolding kstrtoull_unsigned_def fixup_radix(1) [OF c]
      using False flagged_test [OF lds, of False] rest
      by (simp add: parse nul count Let_def flip: b_def d_def q_def)
  qed
  then show ?thesis
    by (simp add: magnitude_def Let_def flip: b_def d_def ds_def N_def)
qed

lemma magnitude_range: "magnitude base s = Inr v \<Longrightarrow> 0 \<le> v \<and> v < 2 ^ 64"
  by (auto simp: magnitude_def Let_def not_le split: if_splits)

lemma kstrtoull_cstr:
  assumes c: "cstr m p s" and len: "length s < 2 ^ 31" and base: "base \<le> 16"
  shows "kstrtoull m p base = Some (map_sum id of_int (unsigned_value base s))"
proof (cases s)
  case Nil
  then show ?thesis using kstrtoull_unsigned_cstr [OF assms] c by (simp add: kstrtoull_def unsigned_value_def)
next
  case (Cons d r)
  have "cstr m (p + 1) r" "length r < 2 ^ 31" using c len Cons by simp_all
  note sub = kstrtoull_unsigned_cstr [OF this base]
  show ?thesis using kstrtoull_unsigned_cstr [OF assms] sub c Cons by (simp add: kstrtoull_def unsigned_value_def)
qed

lemma unsigned_value_range: "unsigned_value base s = Inr v \<Longrightarrow> 0 \<le> v \<and> v < 2 ^ 64"
  by (auto simp: unsigned_value_def dest: magnitude_range split: list.splits)

section \<open>The width of the result\<close>

lemma uint_of_int_fits: "0 \<le> v \<Longrightarrow> v < 2 ^ 64 \<Longrightarrow> uint (of_int v :: u64) = v"
  by (simp add: unsigned_of_int take_bit_int_eq_self)

lemma sint_of_int_fits: "- (2 ^ 63) \<le> v \<Longrightarrow> v < 2 ^ 63 \<Longrightarrow> sint (of_int v :: u64) = v"
  by (simp add: signed_of_int signed_take_bit_int_eq_self)

lemma sint_of_int_wraps: "2 ^ 63 \<le> v \<Longrightarrow> v < 2 ^ 64 \<Longrightarrow> sint (of_int v :: u64) = v - 2 ^ 64"
proof -
  assume v: "2 ^ 63 \<le> v" "v < 2 ^ 64"
  have "(of_int v :: u64) = of_int (v - 2 ^ 64)" by simp
  moreover have "sint (of_int (v - 2 ^ 64) :: u64) = v - 2 ^ 64" by (rule sint_of_int_fits) (use v in simp_all)
  ultimately show ?thesis by (simp only:)
qed

lemma sint_minus_of_int: "0 \<le> v \<Longrightarrow> v \<le> 2 ^ 63 \<Longrightarrow> sint (- of_int v :: u64) = - v"
  using sint_of_int_fits [of "- v"] by simp

lemma sint_minus_of_int_wraps: "2 ^ 63 < v \<Longrightarrow> v < 2 ^ 64 \<Longrightarrow> sint (- of_int v :: u64) = 2 ^ 64 - v"
proof -
  assume v: "2 ^ 63 < v" "v < 2 ^ 64"
  have "(- of_int v :: u64) = of_int (2 ^ 64 - v)" by simp
  moreover have "sint (of_int (2 ^ 64 - v) :: u64) = 2 ^ 64 - v" by (rule sint_of_int_fits) (use v in simp_all)
  ultimately show ?thesis by (simp only:)
qed

abbreviation fit_ll :: "int + int \<Rightarrow> int + int" where
  "fit_ll \<equiv> fit (- (2 ^ 63)) (2 ^ 63 - 1)"

lemma minus_fits:
  assumes "0 \<le> v" and "v < 2 ^ 64"
  shows "map_sum id sint (if 0 < sint (- of_int v :: u64) then Inl (- ERANGE) else Inr (- of_int v :: u64)) = fit_ll (Inr (- v))"
proof (cases "v \<le> 2 ^ 63")
  case True
  then have "sint (- of_int v :: u64) = - v" using assms by (intro sint_minus_of_int) simp_all
  then show ?thesis using assms True by (simp add: fit_def)
next
  case False
  then have "sint (- of_int v :: u64) = 2 ^ 64 - v" using assms by (intro sint_minus_of_int_wraps) simp_all
  then show ?thesis using assms False by (simp add: fit_def)
qed

lemma plus_fits:
  assumes "0 \<le> v" and "v < 2 ^ 64"
  shows "map_sum id sint (if sint (of_int v :: u64) < 0 then Inl (- ERANGE) else Inr (of_int v :: u64)) = fit_ll (Inr v)"
proof (cases "v < 2 ^ 63")
  case True
  then have "sint (of_int v :: u64) = v" using assms by (intro sint_of_int_fits) simp_all
  then show ?thesis using assms True by (simp add: fit_def)
next
  case False
  then have "sint (of_int v :: u64) = v - 2 ^ 64" using assms by (intro sint_of_int_wraps) simp_all
  then show ?thesis using assms False by (simp add: fit_def)
qed

lemma fit_Inl [simp]: "fit lo hi (Inl e) = Inl e"
  by (simp add: fit_def)

lemma kstrtoll_cstr:
  assumes c: "cstr m p s" and len: "length s < 2 ^ 31" and base: "base \<le> 16"
  shows "map_option (map_sum id sint) (kstrtoll m p base) = Some (fit_ll (signed_value base s))"
proof (cases "m p = 45")
  case True
  then obtain r where s: "s = 45 # r" using c by (cases s) auto
  have "cstr m (p + 1) r" "length r < 2 ^ 31" using c len s by simp_all
  note sub = kstrtoull_unsigned_cstr [OF this base]
  show ?thesis
  proof (cases "magnitude base r")
    case (Inl e)
    then show ?thesis using True sub by (simp add: kstrtoll_def signed_value_def s)
  next
    case (Inr v)
    show ?thesis using minus_fits [of v] magnitude_range [OF Inr] True sub Inr
      by (simp add: kstrtoll_def signed_value_def s)
  qed
next
  case False
  then have sv: "signed_value base s = unsigned_value base s" using c by (cases s) (auto simp: signed_value_def)
  note sub = kstrtoull_cstr [OF assms]
  show ?thesis
  proof (cases "unsigned_value base s")
    case (Inl e)
    then show ?thesis using False sub sv by (simp add: kstrtoll_def)
  next
    case (Inr v)
    show ?thesis using plus_fits [of v] unsigned_value_range [OF Inr] False sub sv Inr
      by (simp add: kstrtoll_def)
  qed
qed

text \<open>Narrowing to \<open>'b\<close> and back keeps exactly the values of the narrow type.\<close>

lemma narrow_unsigned:
  fixes x :: "'a :: len word"
  assumes "LENGTH('b :: len) \<le> LENGTH('a)"
  shows "x = ucast (ucast x :: 'b word) \<longleftrightarrow> uint x < 2 ^ LENGTH('b)"
    and "uint x < 2 ^ LENGTH('b) \<Longrightarrow> uint (ucast x :: 'b word) = uint x"
proof -
  have u: "uint (ucast x :: 'b word) = take_bit LENGTH('b) (uint x)" by (simp add: unsigned_ucast_eq)
  then have "uint (ucast (ucast x :: 'b word) :: 'a word) = take_bit LENGTH('b) (uint x)"
    using assms by (simp add: unsigned_ucast_eq unsigned_take_bit_eq)
  then have "x = ucast (ucast x :: 'b word) \<longleftrightarrow> take_bit LENGTH('b) (uint x) = uint x" by (metis word_uint_eq_iff)
  then show "x = ucast (ucast x :: 'b word) \<longleftrightarrow> uint x < 2 ^ LENGTH('b)"
    by (simp add: take_bit_int_eq_self_iff)
  show "uint x < 2 ^ LENGTH('b) \<Longrightarrow> uint (ucast x :: 'b word) = uint x"
    using u by (simp add: take_bit_int_eq_self)
qed

lemma narrow_signed:
  fixes x :: "'a :: len word"
  assumes "LENGTH('b :: len) \<le> LENGTH('a)"
  shows "x = scast (ucast x :: 'b word) \<longleftrightarrow> - (2 ^ (LENGTH('b) - 1)) \<le> sint x \<and> sint x < 2 ^ (LENGTH('b) - 1)"
    and "- (2 ^ (LENGTH('b) - 1)) \<le> sint x \<Longrightarrow> sint x < 2 ^ (LENGTH('b) - 1) \<Longrightarrow> sint (ucast x :: 'b word) = sint x"
proof -
  have u: "sint (ucast x :: 'b word) = signed_take_bit (LENGTH('b) - 1) (sint x)"
    using assms by (simp add: sint_uint unsigned_ucast_eq signed_take_bit_take_bit signed_take_bit_signed_take_bit min_def diff_le_mono)
  then have "sint (scast (ucast x :: 'b word) :: 'a word) = signed_take_bit (LENGTH('b) - 1) (sint x)"
    using assms by (simp add: signed_scast_eq signed_take_bit_signed_take_bit min_def diff_le_mono)
  then have "x = scast (ucast x :: 'b word) \<longleftrightarrow> signed_take_bit (LENGTH('b) - 1) (sint x) = sint x" by (metis signed_word_eqI)
  then show "x = scast (ucast x :: 'b word) \<longleftrightarrow> - (2 ^ (LENGTH('b) - 1)) \<le> sint x \<and> sint x < 2 ^ (LENGTH('b) - 1)"
    by (simp add: signed_take_bit_int_eq_self_iff)
  show "- (2 ^ (LENGTH('b) - 1)) \<le> sint x \<Longrightarrow> sint x < 2 ^ (LENGTH('b) - 1) \<Longrightarrow> sint (ucast x :: 'b word) = sint x"
    using u by (simp add: signed_take_bit_int_eq_self)
qed

lemma bind_unsigned:
  fixes r :: "int + u64"
  assumes "LENGTH('b :: len) \<le> 64"
  shows "map_sum id uint (bind_run r (\<lambda>tmp. if tmp \<noteq> ucast (ucast tmp :: 'b word) then Inl (- ERANGE) else Inr (ucast tmp :: 'b word))) =
    fit 0 (2 ^ LENGTH('b) - 1) (map_sum id uint r)"
  using narrow_unsigned [where 'a = 64 and 'b = 'b] assms by (cases r) (simp_all add: fit_def)

lemma bind_signed:
  fixes r :: "int + u64"
  assumes "LENGTH('b :: len) \<le> 64"
  shows "map_sum id sint (bind_run r (\<lambda>tmp. if tmp \<noteq> scast (ucast tmp :: 'b word) then Inl (- ERANGE) else Inr (ucast tmp :: 'b word))) =
    fit (- (2 ^ (LENGTH('b) - 1))) (2 ^ (LENGTH('b) - 1) - 1) (map_sum id sint r)"
  using narrow_signed [where 'a = 64 and 'b = 'b] assms by (cases r) (auto simp: fit_def)

lemma fit_fit: "lo \<le> lo' \<Longrightarrow> hi' \<le> hi \<Longrightarrow> fit lo' hi' (fit lo hi r) = fit lo' hi' r"
  by (cases r) (simp_all add: fit_def)

lemma kstrtoull_uint:
  assumes "cstr m p s" and "length s < 2 ^ 31" and "base \<le> 16"
  shows "map_option (map_sum id uint) (kstrtoull m p base) = Some (unsigned_value base s)"
proof (cases "unsigned_value base s")
  case (Inr v)
  then have "uint (of_int v :: u64) = v" using unsigned_value_range by (intro uint_of_int_fits) auto
  then show ?thesis using kstrtoull_cstr [OF assms] Inr by simp
qed (simp add: kstrtoull_cstr [OF assms])

lemma narrowed_unsigned:
  assumes "map_option (map_sum id uint) r = Some (v :: int + int)" and "LENGTH('b :: len) \<le> 64"
  shows "map_option (map_sum id uint) (map_option (\<lambda>r. bind_run r (\<lambda>tmp :: u64.
      if tmp \<noteq> ucast (ucast tmp :: 'b word) then Inl (- ERANGE) else Inr (ucast tmp :: 'b word))) r) =
    Some (fit 0 (2 ^ LENGTH('b) - 1) v)"
  using assms(1) bind_unsigned [OF assms(2)] by (cases r) auto

lemma narrowed_signed:
  assumes "map_option (map_sum id sint) r = Some (fit_ll v)" and "LENGTH('b :: len) \<le> 64"
  shows "map_option (map_sum id sint) (map_option (\<lambda>r. bind_run r (\<lambda>tmp :: u64.
      if tmp \<noteq> scast (ucast tmp :: 'b word) then Inl (- ERANGE) else Inr (ucast tmp :: 'b word))) r) =
    Some (fit (- (2 ^ (LENGTH('b) - 1))) (2 ^ (LENGTH('b) - 1) - 1) v)"
proof -
  have "(2 :: int) ^ (LENGTH('b) - 1) \<le> 2 ^ 63" using assms(2) by (intro power_increasing) simp_all
  then have "fit (- (2 ^ (LENGTH('b) - 1))) (2 ^ (LENGTH('b) - 1) - 1) (fit_ll v) =
      fit (- (2 ^ (LENGTH('b) - 1))) (2 ^ (LENGTH('b) - 1) - 1) v"
    by (intro fit_fit) simp_all
  then show ?thesis using assms(1) bind_signed [OF assms(2)] by (cases r) auto
qed

section \<open>Printing and parsing\<close>

definition digit_char :: "nat \<Rightarrow> u8" where
  "digit_char d = of_nat (if d < 10 then 48 + d else 87 + d)"

function show_number :: "nat \<Rightarrow> nat \<Rightarrow> u8 list" where
  "show_number b n = (if b < 2 \<or> n < b then [digit_char n] else show_number b (n div b) @ [digit_char (n mod b)])"
  by auto
termination by (relation "measure snd") (auto intro: div_less_dividend)

declare show_number.simps [simp del]

lemma digit_char_digit:
  assumes "d < 16"
  shows "digit_of (digit_char d) = Some d \<and> digit_char d \<notin> {0, 43, 45, 10} \<and> fast_tolower (digit_char d) \<noteq> 120"
proof -
  have "\<forall>d \<in> set [0..<16]. digit_of (digit_char d) = Some d \<and> digit_char d \<notin> {0, 43, 45, 10} \<and> fast_tolower (digit_char d) \<noteq> 120"
    by code_simp
  then show ?thesis using assms by simp
qed

lemma number_append: "number b acc (s @ t) = number b (number b acc s) t"
  by (induction s arbitrary: acc) simp_all

lemma show_number_digits:
  assumes "2 \<le> b" and "b \<le> 16"
  shows "number b 0 (show_number b n) = n \<and> show_number b n \<noteq> [] \<and>
    (\<forall>c \<in> set (show_number b n). \<exists>d < b. c = digit_char d)"
proof (induction n rule: less_induct)
  case (less n)
  have d: "digit_val (digit_char k) = k" if "k < b" for k
    using digit_char_digit [of k] that assms(2) by (simp add: digit_val_def)
  show ?case
  proof (cases "n < b")
    case True
    then show ?thesis using d by (auto simp: show_number.simps [of b n])
  next
    case False
    have m: "n mod b < b" using assms(1) by simp
    have eq: "show_number b n = show_number b (n div b) @ [digit_char (n mod b)]"
      using False assms(1) by (simp add: show_number.simps [of b n])
    have "n div b < n" using False assms(1) by (intro div_less_dividend) auto
    then have IH: "number b 0 (show_number b (n div b)) = n div b" "\<forall>c \<in> set (show_number b (n div b)). \<exists>d < b. c = digit_char d"
      using less.IH by blast+
    have "number b 0 (show_number b n) = n" using IH(1) d [OF m] by (simp add: eq number_append)
    moreover have "\<forall>c \<in> set (show_number b n). \<exists>d < b. c = digit_char d"
      using IH(2) m unfolding eq set_append by (metis Un_iff empty_iff list.set(1) set_ConsD)
    ultimately show ?thesis by (simp add: eq)
  qed
qed

definition show_int :: "nat \<Rightarrow> int \<Rightarrow> u8 list" where
  "show_int b z = (if z < 0 then 45 # show_number b (nat (- z)) else show_number b (nat z))"

lemma show_number_magnitude:
  assumes "2 \<le> b" and "b \<le> 16"
  shows "magnitude b (show_number b n) = (if n < 2 ^ 64 then Inr (int n) else Inl (- ERANGE))"
proof -
  let ?s = "show_number b n"
  have s: "number b 0 ?s = n" "?s \<noteq> []" using show_number_digits [OF assms, of n] by blast+
  have digit: "\<exists>d<b. c = digit_char d" if "c \<in> set ?s" for c using show_number_digits [OF assms, of n] that by blast
  have "is_digit b c" if c: "c \<in> set ?s" for c
  proof -
    obtain d where "d < b" "c = digit_char d" using digit [OF c] by blast
    then show ?thesis using digit_char_digit [of d] assms(2) by (simp add: is_digit_def)
  qed
  then have t: "takeWhile (is_digit b) ?s = ?s" "dropWhile (is_digit b) ?s = []" by (simp_all add: takeWhile_eq_all_conv dropWhile_eq_Nil_conv)
  have "\<not> hex_prefix ?s"
  proof
    assume "hex_prefix ?s"
    then obtain c where c: "c \<in> set ?s" "fast_tolower c = 120"
      by (cases ?s; cases "tl ?s") (simp_all add: hex_prefix_def, blast)
    then obtain d where "d < b" "c = digit_char d" using digit [OF c(1)] by blast
    then show False using digit_char_digit [of d] assms(2) c(2) by simp
  qed
  then have d: "digits_of b ?s = ?s" "radix_of b ?s = b" using assms(1) by (simp_all add: digits_of_def radix_of_def)
  show ?thesis unfolding magnitude_def d Let_def t using s by (simp add: not_le)
qed

lemma show_number_hd:
  assumes "2 \<le> b" and "b \<le> 16"
  shows "\<exists>c r. show_number b n = c # r \<and> c \<noteq> 43 \<and> c \<noteq> 45"
proof -
  obtain c r where cr: "show_number b n = c # r"
    using show_number_digits [OF assms, of n] by (cases "show_number b n") blast+
  then have "c \<in> set (show_number b n)" by simp
  then obtain d where "d < b" "c = digit_char d" using show_number_digits [OF assms, of n] by blast
  then show ?thesis using cr digit_char_digit [of d] assms(2) by simp
qed

lemma show_int_value:
  assumes "2 \<le> b" and "b \<le> 16"
  shows "signed_value b (show_int b z) = (if \<bar>z\<bar> < 2 ^ 64 then Inr z else Inl (- ERANGE))"
proof (cases "z < 0")
  case True
  then have "nat (- z) < 2 ^ 64 \<longleftrightarrow> \<bar>z\<bar> < 2 ^ 64" by (simp add: nat_less_iff)
  then show ?thesis using True show_number_magnitude [OF assms, of "nat (- z)"] by (simp add: signed_value_def show_int_def)
next
  case False
  obtain c r where "show_number b (nat z) = c # r" "c \<noteq> 43" "c \<noteq> 45" using show_number_hd [OF assms] by blast
  moreover have "nat z < 2 ^ 64 \<longleftrightarrow> \<bar>z\<bar> < 2 ^ 64" using False by (simp add: nat_less_iff)
  ultimately show ?thesis using False show_number_magnitude [OF assms, of "nat z"]
    by (simp add: signed_value_def unsigned_value_def show_int_def)
qed

section \<open>Properties\<close>

text \<open>(C24) On every string shorter than 2 GiB and every radix up to 16 the conversion \<^verbatim>\<open>kstrtoull\<close> returns, and what
  it returns is what the string denotes: the number its digits stand for in the radix its prefix selects,
  \<^verbatim>\<open>-ERANGE\<close> if and only if that number needs more than 64 bits, \<^verbatim>\<open>-EINVAL\<close> without a digit or with anything but one
  newline behind the digits.  The test on the topmost four bits misses no overflow.\<close>

theorem kstrtoull_denotes:
  assumes "cstr m p s" and "length s < 2 ^ 31" and "base \<le> 16"
  shows "map_option (map_sum id uint) (kstrtoull m p base) = Some (unsigned_value base s)"
  by (rule kstrtoull_uint [OF assms])

text \<open>``+0x1f'' with a newline at 16, ``-129'' at 32 and ``-7b'' at 48.\<close>

definition number_mem :: mem where
  "number_mem = (\<lambda>a. if a < 32 then mem_at 16 [43, 48, 120, 49, 102, 10] a
     else if a < 48 then mem_at 32 [45, 49, 50, 57] a else mem_at 48 [45, 55, 98] a)"

lemma number_strings: "cstr number_mem 16 [43, 48, 120, 49, 102, 10]" "cstr number_mem 32 [45, 49, 50, 57]" "cstr number_mem 48 [45, 55, 98]"
  by (simp_all add: number_mem_def mem_at_def)

lemmas value_eval = unsigned_value_def signed_value_def magnitude_def radix_of_def digits_of_def hex_prefix_def
  is_digit_def digit_val_def digit_of_def fast_tolower_def Let_def

theorem kstrtoull_denotes_witness: "map_option (map_sum id uint) (kstrtoull number_mem 16 0) = Some (Inr 31)"
proof -
  have "isxdigit 49" by code_simp
  then have "unsigned_value 0 [43, 48, 120, 49, 102, 10] = Inr 31" by (simp add: value_eval)
  then show ?thesis using kstrtoull_denotes [OF number_strings(1), of 0] by simp
qed

text \<open>(C25) The signed and the narrow conversions return exactly the values of their type: anything the string denotes
  outside of it is \<^verbatim>\<open>-ERANGE\<close>, and no value wraps.\<close>

theorem kstrtox_in_range:
  assumes "cstr m p s" and "length s < 2 ^ 31" and "base \<le> 16"
  shows
    "map_option (map_sum id uint) (kstrtoul m p base) = Some (fit 0 (2 ^ 64 - 1) (unsigned_value base s)) \<and>
     map_option (map_sum id uint) (kstrtouint m p base) = Some (fit 0 (2 ^ 32 - 1) (unsigned_value base s)) \<and>
     map_option (map_sum id uint) (kstrtou16 m p base) = Some (fit 0 (2 ^ 16 - 1) (unsigned_value base s)) \<and>
     map_option (map_sum id uint) (kstrtou8 m p base) = Some (fit 0 (2 ^ 8 - 1) (unsigned_value base s)) \<and>
     map_option (map_sum id sint) (kstrtoll m p base) = Some (fit (- (2 ^ 63)) (2 ^ 63 - 1) (signed_value base s)) \<and>
     map_option (map_sum id sint) (kstrtol m p base) = Some (fit (- (2 ^ 63)) (2 ^ 63 - 1) (signed_value base s)) \<and>
     map_option (map_sum id sint) (kstrtoint m p base) = Some (fit (- (2 ^ 31)) (2 ^ 31 - 1) (signed_value base s)) \<and>
     map_option (map_sum id sint) (kstrtos16 m p base) = Some (fit (- (2 ^ 15)) (2 ^ 15 - 1) (signed_value base s)) \<and>
     map_option (map_sum id sint) (kstrtos8 m p base) = Some (fit (- (2 ^ 7)) (2 ^ 7 - 1) (signed_value base s))"
proof (intro conjI)
  note u = narrowed_unsigned [OF kstrtoull_uint [OF assms]] and i = narrowed_signed [OF kstrtoll_cstr [OF assms]]
  show "map_option (map_sum id uint) (kstrtoul m p base) = Some (fit 0 (2 ^ 64 - 1) (unsigned_value base s))"
    using u [where 'b = 64] by (simp add: kstrtoul_def)
  show "map_option (map_sum id uint) (kstrtouint m p base) = Some (fit 0 (2 ^ 32 - 1) (unsigned_value base s))"
    using u [where 'b = 32] by (simp add: kstrtouint_def)
  show "map_option (map_sum id uint) (kstrtou16 m p base) = Some (fit 0 (2 ^ 16 - 1) (unsigned_value base s))"
    using u [where 'b = 16] by (simp add: kstrtou16_def)
  show "map_option (map_sum id uint) (kstrtou8 m p base) = Some (fit 0 (2 ^ 8 - 1) (unsigned_value base s))"
    using u [where 'b = 8] by (simp add: kstrtou8_def)
  show "map_option (map_sum id sint) (kstrtoll m p base) = Some (fit (- (2 ^ 63)) (2 ^ 63 - 1) (signed_value base s))"
    by (rule kstrtoll_cstr [OF assms])
  show "map_option (map_sum id sint) (kstrtol m p base) = Some (fit (- (2 ^ 63)) (2 ^ 63 - 1) (signed_value base s))"
    using i [where 'b = 64] by (simp add: kstrtol_def)
  show "map_option (map_sum id sint) (kstrtoint m p base) = Some (fit (- (2 ^ 31)) (2 ^ 31 - 1) (signed_value base s))"
    using i [where 'b = 32] by (simp add: kstrtoint_def)
  show "map_option (map_sum id sint) (kstrtos16 m p base) = Some (fit (- (2 ^ 15)) (2 ^ 15 - 1) (signed_value base s))"
    using i [where 'b = 16] by (simp add: kstrtos16_def)
  show "map_option (map_sum id sint) (kstrtos8 m p base) = Some (fit (- (2 ^ 7)) (2 ^ 7 - 1) (signed_value base s))"
    using i [where 'b = 8] by (simp add: kstrtos8_def)
qed

theorem kstrtox_in_range_witness:
  "map_option (map_sum id sint) (kstrtos8 number_mem 32 10) = Some (Inl (- ERANGE)) \<and>
   map_option (map_sum id sint) (kstrtos16 number_mem 32 10) = Some (Inr (- 129))"
proof -
  have "signed_value 10 [45, 49, 50, 57] = Inr (- 129)" by (simp add: value_eval)
  then show ?thesis using kstrtox_in_range [OF number_strings(2), of 10] by (simp add: fit_def)
qed

text \<open>An integer printed in any radix from 2 to 16 is read back by \<^verbatim>\<open>kstrtoll\<close> as itself when it fits in 64 bits and
  as \<^verbatim>\<open>-ERANGE\<close> when it does not.\<close>

theorem kstrtoll_roundtrip:
  assumes "2 \<le> b" and "b \<le> 16" and "cstr m p (show_int b z)" and "length (show_int b z) < 2 ^ 31"
  shows "map_option (map_sum id sint) (kstrtoll m p b) =
    Some (if - (2 ^ 63) \<le> z \<and> z < 2 ^ 63 then Inr z else Inl (- ERANGE))"
  using kstrtoll_cstr [OF assms(3,4,2)] show_int_value [OF assms(1,2), of z] by (auto simp: fit_def)

theorem kstrtoll_roundtrip_witness: "map_option (map_sum id sint) (kstrtoll number_mem 48 16) = Some (Inr (- 123))"
proof -
  have "show_int 16 (- 123) = [45, 55, 98]" by (simp add: show_int_def show_number.simps digit_char_def)
  then show ?thesis using kstrtoll_roundtrip [of 16 number_mem 48 "- 123"] number_strings(3) by simp
qed

end
