(* ===== verification/Printf_Number.thy ===== *)
theory Printf_Number imports Kstrtox begin

text \<open>
  Numbers as text, the first part of \<^verbatim>\<open>lib/src/vsprintf.c\<close>: the conversion to decimal digits two at a time,
  \<^verbatim>\<open>num_to_str\<close> and \<^verbatim>\<open>number\<close>.  An output position is the memory together with the address of the next character;
  every character goes through \<open>emit\<close>, which writes only below the end of the buffer and always advances.  Local arrays
  start with zeros; no function reads a byte of them that it has not written.
\<close>

unbundle bit_operations_syntax

section \<open>Operations\<close>

definition decpair :: "u16 list" where
  "decpair = map (\<lambda>x. of_nat ((x mod 10) OR push_bit 8 (x div 10)) + 0x3030) [0..<100]"

text \<open>The store \<^verbatim>\<open>*((u16 *)buf) = decpair[x]\<close>, and the two ways to divide by 100.\<close>

definition put_pair :: "mem \<Rightarrow> nat \<Rightarrow> u32 \<Rightarrow> mem" where
  "put_pair m buf x = store_le m buf (ucast (decpair ! unat x)) 2"

definition div100 :: "u32 \<Rightarrow> u32" where
  "div100 r = ucast (drop_bit 32 (ucast r * 0x28f5c29 :: u64))"

definition div100_small :: "u32 \<Rightarrow> u32" where
  "div100_small r = drop_bit 19 (r * 0x147b)"

definition out_r :: "mem \<Rightarrow> nat \<Rightarrow> u32 \<Rightarrow> mem \<times> nat" where
  "out_r m buf r = (put_pair m buf r, buf + (if r < 10 then 1 else 2))"

definition put_dec_trunc8 :: "mem \<Rightarrow> nat \<Rightarrow> u32 \<Rightarrow> mem \<times> nat" where
  "put_dec_trunc8 m buf r =
     (if r < 100 then out_r m buf r
      else
        let q = div100 r; m = put_pair m buf (r - 100 * q); buf = buf + 2
        in if q < 100 then out_r m buf q
           else
             let r = div100 q; m = put_pair m buf (q - 100 * r); buf = buf + 2
             in if r < 100 then out_r m buf r
                else
                  let q = div100_small r; m = put_pair m buf (r - 100 * q); buf = buf + 2
                  in out_r m buf q)"

definition put_dec_full8 :: "mem \<Rightarrow> nat \<Rightarrow> u32 \<Rightarrow> mem \<times> nat" where
  "put_dec_full8 m buf r =
     (let q = div100 r; m = put_pair m buf (r - 100 * q); buf = buf + 2;
          r = div100 q; m = put_pair m buf (q - 100 * r); buf = buf + 2;
          q = div100_small r; m = put_pair m buf (r - 100 * q); buf = buf + 2;
          m = put_pair m buf q; buf = buf + 2
      in (m, buf))"

definition put_dec :: "mem \<Rightarrow> nat \<Rightarrow> u64 \<Rightarrow> mem \<times> nat" where
  "put_dec m buf n =
     (let (m, buf, n) =
        (if 100000000 \<le> n then (case put_dec_full8 m buf (ucast (n mod 100000000)) of (m, buf) \<Rightarrow> (m, buf, n div 100000000))
         else (m, buf, n));
          (m, buf, n) =
        (if 100000000 \<le> n then (case put_dec_full8 m buf (ucast (n mod 100000000)) of (m, buf) \<Rightarrow> (m, buf, n div 100000000))
         else (m, buf, n))
      in put_dec_trunc8 m buf (ucast n))"

text \<open>The copying loop of \<^verbatim>\<open>num_to_str\<close>.\<close>

fun copy_rev :: "mem \<Rightarrow> nat \<Rightarrow> mem \<Rightarrow> nat \<Rightarrow> mem" where
  "copy_rev m p tmp 0 = m"
| "copy_rev m p tmp (Suc k) = copy_rev (m(p := tmp k)) (p + 1) tmp k"

definition num_to_str :: "mem \<Rightarrow> nat \<Rightarrow> int \<Rightarrow> u64 \<Rightarrow> nat \<Rightarrow> mem \<times> nat" where
  "num_to_str m buf sz num width =
     (let (tmp, len) = (if num \<le> 9 then ((\<lambda>_. 0)(0 := 48 + ucast num), 1) else put_dec (\<lambda>_. 0) 0 num)
      in if sz < int len \<or> sz < int width then (m, 0)
         else
           let (m, width) = (if len < width then (set_bytes m buf 32 (width - len), width - len) else (m, 0))
           in (copy_rev m (buf + width) tmp len, len + width))"

subsection \<open>The conversion specification\<close>

definition SIGN :: u8 where "SIGN = 1"
definition LEFT :: u8 where "LEFT = 2"
definition PLUS :: u8 where "PLUS = 4"
definition SPACE :: u8 where "SPACE = 8"
definition ZEROPAD :: u8 where "ZEROPAD = 16"
definition SMALL :: u8 where "SMALL = 32"
definition SPECIAL :: u8 where "SPECIAL = 64"

datatype format_type =
    FORMAT_TYPE_NONE
  | FORMAT_TYPE_WIDTH
  | FORMAT_TYPE_PRECISION
  | FORMAT_TYPE_CHAR
  | FORMAT_TYPE_STR
  | FORMAT_TYPE_PTR
  | FORMAT_TYPE_PERCENT_CHAR
  | FORMAT_TYPE_INVALID
  | FORMAT_TYPE_LONG_LONG
  | FORMAT_TYPE_ULONG
  | FORMAT_TYPE_LONG
  | FORMAT_TYPE_UBYTE
  | FORMAT_TYPE_BYTE
  | FORMAT_TYPE_USHORT
  | FORMAT_TYPE_SHORT
  | FORMAT_TYPE_UINT
  | FORMAT_TYPE_INT
  | FORMAT_TYPE_SIZE_T
  | FORMAT_TYPE_PTRDIFF

text \<open>The bit fields for the width and the precision are integers here; what stores into them cuts the value to its field.\<close>

record printf_spec =
  spec_type :: format_type
  field_width :: int
  spec_flags :: u8
  spec_base :: nat
  precision :: int

subsection \<open>Output\<close>

type_synonym out = "mem \<times> nat"

definition emit :: "nat \<Rightarrow> u8 \<Rightarrow> out \<Rightarrow> out" where
  "emit fin c = (\<lambda>(m, buf). (if buf < fin then m(buf := c) else m, buf + 1))"

function pad_loop :: "nat \<Rightarrow> u8 \<Rightarrow> int \<Rightarrow> out \<Rightarrow> out \<times> int" where
  "pad_loop fin c fw out = (let fw = fw - 1 in if 0 \<le> fw then pad_loop fin c fw (emit fin c out) else (out, fw))"
  by auto
termination by (relation "measure (\<lambda>(_, _, fw, _). nat fw)") auto

function zero_loop :: "nat \<Rightarrow> int \<Rightarrow> int \<Rightarrow> out \<Rightarrow> out" where
  "zero_loop fin i prec out = (let prec = prec - 1 in if i \<le> prec then zero_loop fin i prec (emit fin 48 out) else out)"
  by auto
termination by (relation "measure (\<lambda>(_, i, prec, _). nat (prec - i))") auto

declare pad_loop.simps [simp del] zero_loop.simps [simp del]

fun digit_loop :: "nat \<Rightarrow> mem \<Rightarrow> nat \<Rightarrow> out \<Rightarrow> out" where
  "digit_loop fin tmp 0 out = out"
| "digit_loop fin tmp (Suc i) out = digit_loop fin tmp i (emit fin (tmp i) out)"

definition hex_asc_upper :: "u8 list" where
  "hex_asc_upper = [48, 49, 50, 51, 52, 53, 54, 55, 56, 57, 65, 66, 67, 68, 69, 70]"

lemma unat_drop: "unat (drop_bit k (n :: 'a :: len word)) = unat n div 2 ^ k"
  unfolding unat_drop_bit_eq by (rule drop_bit_eq_div)

lemma drop_bit_less:
  assumes "drop_bit (Suc k) (n :: u64) \<noteq> 0"
  shows "unat (drop_bit (Suc k) n) < unat n"
proof -
  have e: "unat (drop_bit (Suc k) n) = unat n div 2 ^ Suc k" by (rule unat_drop)
  moreover have "unat (drop_bit (Suc k) n) \<noteq> 0" using assms by (simp add: unat_eq_0)
  ultimately have "unat n \<noteq> 0" by (intro notI) simp
  then show ?thesis unfolding e by (intro div_less_dividend one_less_power) simp_all
qed

function pow2_loop :: "bool \<Rightarrow> u8 \<Rightarrow> mem \<Rightarrow> nat \<Rightarrow> u64 \<Rightarrow> mem \<times> nat" where
  "pow2_loop b16 locase tmp i num =
     (let msk = (if b16 then 15 else 7); shift = (if b16 then 4 else 3);
          tmp = tmp(i := hex_asc_upper ! unat ((ucast num :: u8) AND msk) OR locase); num = drop_bit shift num
      in if num \<noteq> 0 then pow2_loop b16 locase tmp (i + 1) num else (tmp, i + 1))"
  by auto
termination
  by (relation "measure (\<lambda>(_, _, _, _, num). unat num)") (use drop_bit_less [of 3] drop_bit_less [of 2] in \<open>auto split: if_splits\<close>)

declare pow2_loop.simps [simp del]

definition number_digits :: "u64 \<Rightarrow> nat \<Rightarrow> u8 \<Rightarrow> mem \<times> nat" where
  "number_digits num bas locase =
     (if unat num < bas then ((\<lambda>_. 0)(0 := hex_asc_upper ! unat num OR locase), 1)
      else if bas \<noteq> 10 then pow2_loop (bas = 16) locase (\<lambda>_. 0) 0 num
      else put_dec (\<lambda>_. 0) 0 num)"

definition number_print :: "nat \<Rightarrow> u64 \<Rightarrow> printf_spec \<Rightarrow> out \<Rightarrow> out" where
  "number_print fin num spec out =
     (let need_pfx = (spec_flags spec AND SPECIAL \<noteq> 0 \<and> spec_base spec \<noteq> 10);
          is_zero = (num = 0);
          fw = field_width spec;
          prec = precision spec;
          locase = spec_flags spec AND SMALL;
          flags = (if spec_flags spec AND LEFT \<noteq> 0 then spec_flags spec AND NOT ZEROPAD else spec_flags spec);
          (sign, num, fw) =
            (if flags AND SIGN \<noteq> 0 then
               (if sint num < 0 then (45, - num, fw - 1)
                else if flags AND PLUS \<noteq> 0 then (43, num, fw - 1)
                else if flags AND SPACE \<noteq> 0 then (32, num, fw - 1)
                else (0, num, fw))
             else (0, num, fw));
          fw =
            (if need_pfx then (if spec_base spec = 16 then fw - 2 else if \<not> is_zero then fw - 1 else fw) else fw);
          (tmp, i) = number_digits num (spec_base spec) locase;
          prec = (if prec < int i then int i else prec);
          fw = fw - prec;
          (out, fw) = (if flags AND (ZEROPAD OR LEFT) = 0 then pad_loop fin 32 fw out else (out, fw));
          out = (if sign \<noteq> 0 then emit fin sign out else out);
          out = (if need_pfx \<and> (spec_base spec = 16 \<or> \<not> is_zero) then emit fin 48 out else out);
          out = (if need_pfx \<and> spec_base spec = 16 then emit fin (88 OR locase) out else out);
          (out, fw) = (if flags AND LEFT = 0 then pad_loop fin (32 + (flags AND ZEROPAD)) fw out else (out, fw));
          out = zero_loop fin (int i) prec out;
          out = digit_loop fin tmp i out;
          (out, fw) = pad_loop fin 32 fw out
      in out)"

definition special_hex_number :: "nat \<Rightarrow> u64 \<Rightarrow> int \<Rightarrow> out \<Rightarrow> out" where
  "special_hex_number fin num sz out =
     number_print fin num
       \<lparr>spec_type = FORMAT_TYPE_PTR, field_width = 2 + 2 * sz, spec_flags = SPECIAL OR SMALL OR ZEROPAD, spec_base = 16, precision = - 1\<rparr>
       out"

section \<open>Decimal digits\<close>

function radix_digits :: "nat \<Rightarrow> nat \<Rightarrow> nat list" where
  "radix_digits b n = (if b < 2 \<or> n < b then [n] else radix_digits b (n div b) @ [n mod b])"
  by auto
termination by (relation "measure snd") (auto intro: div_less_dividend)

declare radix_digits.simps [simp del]

lemma radix_digits_less: "n < b \<Longrightarrow> radix_digits b n = [n]"
  by (simp add: radix_digits.simps [of b n])

lemma radix_digits_step: "2 \<le> b \<Longrightarrow> b \<le> n \<Longrightarrow> radix_digits b n = radix_digits b (n div b) @ [n mod b]"
  by (subst radix_digits.simps) (simp add: not_less)

lemma show_number_radix: "show_number b n = map digit_char (radix_digits b n)"
proof (induction b n rule: radix_digits.induct)
  case (1 b n)
  then show ?case by (subst radix_digits.simps, subst show_number.simps) simp
qed

text \<open>The lowest digit first, as the conversion stores them.\<close>

abbreviation dec :: "nat \<Rightarrow> u8 list" where
  "dec n \<equiv> map digit_char (rev (radix_digits 10 n))"

definition pair :: "nat \<Rightarrow> u8 list" where
  "pair x = [digit_char (x mod 10), digit_char (x div 10)]"

lemma dec_small: "n < 10 \<Longrightarrow> dec n = [digit_char n]"
  by (simp add: radix_digits_less)

lemma dec_pair: "n < 100 \<Longrightarrow> 10 \<le> n \<Longrightarrow> dec n = pair n"
  by (simp add: radix_digits_step [of 10 n] radix_digits_less pair_def)

lemma dec_100:
  assumes "100 \<le> n"
  shows "dec n = pair (n mod 100) @ dec (n div 100)"
proof -
  have "n div 10 div 10 = n div 100" by (simp add: div_mult2_eq [symmetric])
  moreover have "n mod 100 mod 10 = n mod 10" by (simp add: mod_mod_cancel)
  moreover have "n mod 100 div 10 = n div 10 mod 10" using div_mult2_eq mod_mult2_eq [of n 10 10] by simp
  moreover have "10 \<le> n div 10" using assms by (simp add: less_eq_div_iff_mult_less_eq)
  ultimately show ?thesis using assms by (simp add: radix_digits_step [of 10 n] radix_digits_step [of 10 "n div 10"] pair_def)
qed

text \<open>A number below \<open>100 ^ k\<close> with its leading zeros.\<close>

fun pairs :: "nat \<Rightarrow> nat \<Rightarrow> u8 list" where
  "pairs 0 n = []"
| "pairs (Suc k) n = pair (n mod 100) @ pairs k (n div 100)"

lemma dec_pairs: "100 ^ k \<le> n \<Longrightarrow> dec n = pairs k (n mod 100 ^ k) @ dec (n div 100 ^ k)"
proof (induction k arbitrary: n)
  case (Suc k)
  have n: "100 \<le> n" using Suc.prems one_le_power [of "100 :: nat" k] by (simp add: order_trans [rotated])
  have "100 ^ k \<le> n div 100" using Suc.prems by (simp add: less_eq_div_iff_mult_less_eq mult.commute)
  from Suc.IH [OF this] have IH: "dec (n div 100) = pairs k (n div 100 mod 100 ^ k) @ dec (n div 100 ^ Suc k)"
    by (simp add: div_mult2_eq)
  have "n mod 100 ^ Suc k mod 100 = n mod 100" "n mod 100 ^ Suc k div 100 = n div 100 mod 100 ^ k"
    by (simp_all add: mod_mult2_eq mod_mod_cancel)
  then show ?case unfolding dec_100 [OF n] IH by simp
qed simp

section \<open>Two digits at a time\<close>

lemma unat_digit_char: "d < 10 \<Longrightarrow> unat (digit_char d) = 48 + d"
  unfolding digit_char_def by (subst unsigned_of_nat) (simp add: take_bit_nat_eq_self)

lemma decpair_nth:
  assumes "x < 100"
  shows "ucast (decpair ! x) = (digit_char (x mod 10) :: u8)" "ucast (drop_bit 8 (decpair ! x)) = (digit_char (x div 10) :: u8)"
proof -
  define a b where ab: "a = x mod 10" "b = x div 10"
  have lt: "a < 10" "b < 10" using assms by (simp_all add: ab)
  have "a AND push_bit 8 b = 0"
  proof (rule bit_eqI)
    fix n
    have "\<not> bit a n" if "8 \<le> n" 
    proof -
      have "a < 2 ^ n" using lt(1) power_increasing [OF that, of "2 :: nat"] by simp
      then show ?thesis by (simp add: bit_iff_odd)
    qed
    then show "bit (a AND push_bit 8 b) n \<longleftrightarrow> bit (0 :: nat) n" by (auto simp: bit_and_iff bit_push_bit_iff_nat)
  qed
  then have "a OR push_bit 8 b = a + 256 * b" by (simp add: disjunctive_add_eq_or [symmetric] push_bit_eq_mult)
  then have v: "decpair ! x = of_nat (48 + a + 256 * (48 + b))"
    using assms by (simp add: decpair_def flip: ab)
  then have u: "unat (decpair ! x) = 48 + a + 256 * (48 + b)" unfolding v using lt by (subst unsigned_of_nat) (simp add: take_bit_nat_eq_self)
  have "(48 + a + 256 * (48 + b)) mod 256 = 48 + a" using lt by (simp only: mod_mult_self2) simp
  then have "unat (ucast (decpair ! x) :: u8) = 48 + a" by (simp add: unsigned_ucast_eq take_bit_eq_mod u)
  then show "ucast (decpair ! x) = (digit_char (x mod 10) :: u8)"
    using lt by (simp add: unat_digit_char word_unat_eq_iff flip: ab)
  have "(48 + a + 256 * (48 + b)) div 256 = 48 + b" using lt by simp
  then have "unat (drop_bit 8 (decpair ! x)) = 48 + b" unfolding unat_drop u by simp
  then have "unat (ucast (drop_bit 8 (decpair ! x)) :: u8) = 48 + b"
    using lt by (simp add: unsigned_ucast_eq take_bit_eq_mod)
  then show "ucast (drop_bit 8 (decpair ! x)) = (digit_char (x div 10) :: u8)"
    using lt by (simp add: unat_digit_char word_unat_eq_iff flip: ab)
qed

text \<open>Division by multiplication: a rounded reciprocal is exact as long as its error stays below one unit.\<close>

lemma scaled_div:
  fixes x c k d e :: nat
  assumes "c * d = k + e" and "0 < d" and "e * (x div d) + c * (d - 1) < k"
  shows "x * c div k = x div d"
proof -
  define a r where "a = x div d" and "r = x mod d"
  have x: "x = d * a + r" by (simp add: a_def r_def)
  have "r < d" using assms(2) by (simp add: r_def)
  then have r: "r \<le> d - 1" by simp
  have "x * c = a * (c * d) + r * c" by (simp add: x algebra_simps)
  then have xc: "x * c = k * a + (e * a + r * c)" unfolding assms(1) by (simp add: algebra_simps)
  have "r * c \<le> c * (d - 1)" using mult_le_mono1 [OF r, of c] by (simp only: mult.commute)
  then have "e * a + r * c < k" using assms(3) unfolding a_def by linarith
  then show ?thesis unfolding xc a_def [symmetric] by (intro div_nat_eqI) simp_all
qed

lemma unat_div100:
  assumes "unat r < 10 ^ 8"
  shows "unat (div100 r) = unat r div 100"
proof -
  have "unat r * 0x28f5c29 < 2 ^ 64" using assms by simp
  then have "unat (ucast r * 0x28f5c29 :: u64) = unat r * 0x28f5c29"
    by (simp add: unat_word_ariths unsigned_ucast_eq take_bit_nat_eq_self less_trans [OF unsigned_less])
  then have d: "unat (drop_bit 32 (ucast r * 0x28f5c29 :: u64)) = unat r * 0x28f5c29 div 2 ^ 32"
    by (simp add: unat_drop)
  have q: "unat r * 0x28f5c29 div 2 ^ 32 = unat r div 100"
    by (rule scaled_div [where e = 4]) (use assms in simp_all)
  then have "unat r * 0x28f5c29 div 2 ^ 32 < 2 ^ 32" using assms by simp
  then show ?thesis unfolding div100_def using d q by (simp add: unsigned_ucast_eq take_bit_nat_eq_self)
qed

lemma unat_div100_small:
  assumes "unat r < 10 ^ 4"
  shows "unat (div100_small r) = unat r div 100"
proof -
  have "unat r * 0x147b < 2 ^ 32" using assms by simp
  then have "unat (r * 0x147b) = unat r * 0x147b" by (simp add: unat_word_ariths)
  then have "unat (div100_small r) = unat r * 0x147b div 2 ^ 19"
    by (simp add: div100_small_def unat_drop)
  also have "\<dots> = unat r div 100" by (rule scaled_div [where e = 12]) (use assms in simp_all)
  finally show ?thesis .
qed

lemma unat_rem100:
  assumes "unat q = unat r div 100"
  shows "unat (r - 100 * q) = unat (r :: u32) mod 100"
proof -
  have le: "100 * unat q \<le> unat r" unfolding assms by simp
  moreover have "unat r < 2 ^ LENGTH(32)" by (rule unsigned_less)
  ultimately have "unat (100 * q) = 100 * unat q" by (simp add: unat_word_ariths)
  then show ?thesis using le by (simp add: unat_sub word_le_nat_alt assms minus_mult_div_eq_mod)
qed

text \<open>The bytes \<open>bs\<close> have been stored from \<open>p\<close> to \<open>q\<close>; the only other byte that may have changed is the one at \<open>q\<close>.\<close>

definition wrote :: "mem \<Rightarrow> nat \<Rightarrow> u8 list \<Rightarrow> mem \<times> nat \<Rightarrow> bool" where
  "wrote m p bs = (\<lambda>(m', q). q = p + length bs \<and> (\<forall>i < length bs. m' (p + i) = bs ! i) \<and> (\<forall>a. a < p \<or> q < a \<longrightarrow> m' a = m a))"

lemma wrote_trans:
  assumes "wrote m p bs (m1, p1)" and "wrote m1 p1 cs (m2, p2)"
  shows "wrote m p (bs @ cs) (m2, p2)"
proof -
  have "m2 (p + i) = (bs @ cs) ! i" if "i < length bs + length cs" for i
  proof (cases "i < length bs")
    case True
    then show ?thesis using assms by (simp add: wrote_def nth_append)
  next
    case False
    then obtain j where j: "i = length bs + j" by (auto simp: not_less le_iff_add)
    then have "j < length cs" using that by simp
    then show ?thesis using assms j by (simp add: wrote_def nth_append add.assoc)
  qed
  then show ?thesis using assms by (simp add: wrote_def)
qed

lemma u16_bytes: "(ucast (ucast (v :: u16) :: u64) :: u8) = ucast v" "(ucast (drop_bit 8 (ucast (v :: u16) :: u64)) :: u8) = ucast (drop_bit 8 v)"
  by (rule bit_word_eqI; auto simp: bit_unsigned_iff bit_drop_bit_eq dest: bit_imp_le_length)+

lemma put_pair_bytes: "unat x < 100 \<Longrightarrow> put_pair m p x = m(p := digit_char (unat x mod 10), p + 1 := digit_char (unat x div 10))"
  by (simp add: put_pair_def numeral_2_eq_2 decpair_nth u16_bytes)

lemma put_pair_wrote: "unat x < 100 \<Longrightarrow> wrote m p (pair (unat x)) (put_pair m p x, p + 2)"
  by (auto simp: put_pair_bytes wrote_def pair_def less_Suc_eq numeral_2_eq_2)

lemma out_r_wrote:
  assumes "unat r < 100"
  shows "wrote m p (dec (unat r)) (out_r m p r)"
proof (cases "unat r < 10")
  case True
  then have "r < 10" by (simp add: word_less_nat_alt)
  then show ?thesis using True assms by (auto simp: out_r_def put_pair_bytes wrote_def dec_small)
next
  case False
  then have "\<not> r < 10" by (simp add: word_less_nat_alt)
  then show ?thesis using False put_pair_wrote [OF assms] dec_pair [OF assms] by (simp add: out_r_def)
qed

text \<open>One step of the conversion: the lowest pair is stored and the quotient goes on.\<close>

lemma pair_step:
  assumes "unat q = unat r div 100" and "wrote (put_pair m p (r - 100 * q)) (p + 2) bs res"
  shows "wrote m p (pair (unat r mod 100) @ bs) res"
proof -
  have "unat (r - 100 * q) = unat r mod 100" by (rule unat_rem100 [OF assms(1)])
  then have "wrote m p (pair (unat r mod 100)) (put_pair m p (r - 100 * q), p + 2)"
    using put_pair_wrote [of "r - 100 * q" m p] by simp
  then show ?thesis using wrote_trans assms(2) by (cases res) blast
qed

lemma put_dec_trunc8_wrote:
  assumes "unat r < 10 ^ 8"
  shows "wrote m p (dec (unat r)) (put_dec_trunc8 m p r)"
proof -
  have lt: "x < 100 \<longleftrightarrow> unat x < 100" for x :: u32 by (simp add: word_less_nat_alt)
  define q where "q = div100 r"
  define r2 where "r2 = div100 q"
  define q2 where "q2 = div100_small r2"
  have q: "unat q = unat r div 100" unfolding q_def by (rule unat_div100 [OF assms])
  have r2: "unat r2 = unat q div 100" unfolding r2_def by (rule unat_div100) (use q assms in simp)
  have lt4: "unat r2 < 10 ^ 4" using r2 q assms by (simp add: div_mult2_eq [symmetric])
  have q2: "unat q2 = unat r2 div 100" unfolding q2_def by (rule unat_div100_small [OF lt4])
  have q2s: "unat q2 < 100" using q2 lt4 by simp
  have e1: "dec (unat r) = pair (unat r mod 100) @ dec (unat q)" if "\<not> unat r < 100" using that dec_100 q by simp
  have e2: "dec (unat q) = pair (unat q mod 100) @ dec (unat r2)" if "\<not> unat q < 100" using that dec_100 r2 by simp
  have e3: "dec (unat r2) = pair (unat r2 mod 100) @ dec (unat q2)" if "\<not> unat r2 < 100" using that dec_100 q2 by simp
  show ?thesis unfolding put_dec_trunc8_def Let_def lt q_def [symmetric] r2_def [symmetric] q2_def [symmetric]
    by (auto simp: e1 e2 e3 simp del: rev_map intro!: out_r_wrote pair_step [OF q] pair_step [OF r2] pair_step [OF q2] q2s)
qed

lemma pairs_4:
  "pairs 4 n = pair (n mod 100) @ pair (n div 100 mod 100) @ pair (n div 100 div 100 mod 100) @ pair (n div 100 div 100 div 100 mod 100)"
proof -
  have "4 = Suc (Suc (Suc (Suc 0)))" by simp
  then show ?thesis by (simp only: pairs.simps append_Nil2)
qed

lemma put_dec_full8_wrote:
  assumes "unat r < 10 ^ 8"
  shows "wrote m p (pairs 4 (unat r)) (put_dec_full8 m p r)"
proof -
  define q where "q = div100 r"
  define r2 where "r2 = div100 q"
  define q2 where "q2 = div100_small r2"
  have q: "unat q = unat r div 100" unfolding q_def by (rule unat_div100 [OF assms])
  have r2: "unat r2 = unat q div 100" unfolding r2_def by (rule unat_div100) (use q assms in simp)
  have lt4: "unat r2 < 10 ^ 4" using r2 q assms by (simp add: div_mult2_eq [symmetric])
  have q2: "unat q2 = unat r2 div 100" unfolding q2_def by (rule unat_div100_small [OF lt4])
  have q2s: "unat q2 < 100" using q2 lt4 by simp
  have e: "pairs 4 (unat r) = pair (unat r mod 100) @ pair (unat q mod 100) @ pair (unat r2 mod 100) @ pair (unat q2)"
    using q2s by (simp only: pairs_4 q [symmetric] r2 [symmetric] q2 [symmetric] mod_less)
  show ?thesis unfolding put_dec_full8_def Let_def q_def [symmetric] r2_def [symmetric] q2_def [symmetric] e
    by (intro pair_step [OF q] pair_step [OF r2] pair_step [OF q2] put_pair_wrote q2s)
qed

lemma unat_low: "unat (ucast (n mod 100000000) :: u32) = unat (n :: u64) mod 100000000"
proof -
  have "unat (n mod 100000000) = unat n mod 100000000" by (simp add: unat_mod)
  moreover have "unat n mod 100000000 < 2 ^ 32" by (rule less_trans [of _ 100000000]) simp_all
  ultimately show ?thesis by (simp add: unsigned_ucast_eq take_bit_nat_eq_self)
qed

lemma put_dec_step:
  assumes "100000000 \<le> n" and "put_dec_full8 m p (ucast (n mod 100000000)) = (m1, p1)"
    and "wrote m1 p1 (dec (unat (n div 100000000))) res"
  shows "wrote m p (dec (unat (n :: u64))) res"
proof -
  have n: "unat (n div 100000000) = unat n div 100000000" by (simp add: unat_div)
  have "wrote m p (pairs 4 (unat n mod 100000000)) (m1, p1)"
    using put_dec_full8_wrote [of "ucast (n mod 100000000)" m p] assms(2) by (simp add: unat_low)
  moreover have "100 ^ 4 \<le> unat n" using assms(1) by (simp add: word_le_nat_alt)
  then have "dec (unat n) = pairs 4 (unat n mod 100000000) @ dec (unat n div 100000000)" using dec_pairs [of 4 "unat n"] by simp
  ultimately show ?thesis using assms(3) wrote_trans unfolding n by (cases res) metis
qed

lemma put_dec_wrote: "wrote m p (dec (unat n)) (put_dec m p n)"
proof -
  have last: "wrote m p (dec (unat k)) (put_dec_trunc8 m p (ucast k))" if "unat k < 10 ^ 8" for m p and k :: u64
  proof -
    have "unat (ucast k :: u32) = unat k" using that by (simp add: unsigned_ucast_eq take_bit_nat_eq_self)
    then show ?thesis using put_dec_trunc8_wrote [of "ucast k" m p] that by simp
  qed
  let ?E = "100000000 :: u64"
  obtain m1 p1 where 1: "put_dec_full8 m p (ucast (n mod ?E)) = (m1, p1)" by fastforce
  obtain m2 p2 where 2: "put_dec_full8 m1 p1 (ucast (n div ?E mod ?E)) = (m2, p2)" by fastforce
  have u: "unat (k div ?E) = unat k div 100000000" for k by (simp add: unat_div)
  have small: "unat k < 10 ^ 8" if "\<not> ?E \<le> k" for k using that by (simp add: word_le_nat_alt)
  consider "\<not> ?E \<le> n" | "?E \<le> n" "\<not> ?E \<le> n div ?E" | "?E \<le> n" "?E \<le> n div ?E" by blast
  then show ?thesis
  proof cases
    case 1
    then show ?thesis using last [OF small] by (simp add: put_dec_def)
  next
    case 2
    then show ?thesis using put_dec_step [OF 2(1) 1] last [OF small] by (simp add: put_dec_def 1)
  next
    case 3
    have "unat n < 2 ^ LENGTH(64)" by (rule unsigned_less)
    then have "unat (n div ?E div ?E) < 10 ^ 8" unfolding u by (simp add: div_mult2_eq [symmetric])
    then have "wrote m1 p1 (dec (unat (n div ?E))) (put_dec_trunc8 m2 p2 (ucast (n div ?E div ?E)))"
      using put_dec_step [OF 3(2) 2] last by blast
    then show ?thesis using put_dec_step [OF 3(1) 1] 3 by (simp add: put_dec_def 1 2)
  qed
qed

section \<open>What is emitted\<close>

lemma emit_pair: "emit fin c (m, buf) = (if buf < fin then m(buf := c) else m, buf + 1)"
  by (simp add: emit_def)

lemma emits_eq:
  "fold (emit fin) cs (m, buf) =
     (\<lambda>a. if buf \<le> a \<and> a < buf + length cs \<and> a < fin then cs ! (a - buf) else m a, buf + length cs)"
proof (induction cs arbitrary: m buf)
  case (Cons c cs)
  show ?case by (auto simp: Cons.IH emit_pair fun_eq_iff nth_Cons' not_less less_Suc_eq_le)
qed (auto simp: fun_eq_iff)

lemma pad_loop_emits:
  "pad_loop fin c fw out = (fold (emit fin) (replicate (nat fw) c) out, if 0 \<le> fw then - 1 else fw - 1)"
proof (induction fin c fw out rule: pad_loop.induct)
  case (1 fin c fw out)
  show ?case
  proof (cases "0 \<le> fw - 1")
    case True
    then have "nat fw = Suc (nat (fw - 1))" by simp
    then show ?thesis using 1 True by (subst pad_loop.simps) simp
  next
    case False
    then show ?thesis by (subst pad_loop.simps) auto
  qed
qed

lemma zero_loop_emits: "zero_loop fin i prec out = fold (emit fin) (replicate (nat (prec - i)) 48) out"
proof (induction fin i prec out rule: zero_loop.induct)
  case (1 fin i prec out)
  show ?case
  proof (cases "i \<le> prec - 1")
    case True
    then have "nat (prec - i) = Suc (nat (prec - 1 - i))" by simp
    then show ?thesis using 1 True by (subst zero_loop.simps) simp
  next
    case False
    then show ?thesis by (subst zero_loop.simps) simp
  qed
qed

lemma digit_loop_emits: "digit_loop fin tmp i out = fold (emit fin) (map tmp (rev [0..<i])) out"
  by (induction i arbitrary: out) simp_all

definition case_digit :: "u8 \<Rightarrow> nat \<Rightarrow> u8" where
  "case_digit locase d = hex_asc_upper ! d OR locase"

lemma case_digit_char:
  "d < 10 \<Longrightarrow> locase \<in> {0, 32} \<Longrightarrow> case_digit locase d = digit_char d" "d < 16 \<Longrightarrow> case_digit 32 d = digit_char d"
proof -
  have a: "\<forall>d \<in> set [0..<10]. case_digit 0 d = digit_char d" "\<forall>d \<in> set [0..<16]. case_digit 32 d = digit_char d" by code_simp+
  then show "d < 10 \<Longrightarrow> locase \<in> {0, 32} \<Longrightarrow> case_digit locase d = digit_char d" by auto
  show "d < 16 \<Longrightarrow> case_digit 32 d = digit_char d" using a(2) by simp
qed

lemma low_mask: "unat ((ucast (n :: u64) :: u8) AND 15) = unat n mod 16" "unat ((ucast n :: u8) AND 7) = unat n mod 8"
proof -
  have "(ucast n :: u8) AND mask k = ucast (take_bit k n)" if "k \<le> 8" for k
    using that by (intro bit_word_eqI) (auto simp: bit_and_iff bit_unsigned_iff bit_take_bit_iff bit_mask_iff)
  moreover have "unat (ucast (take_bit k n) :: u8) = unat n mod 2 ^ k" if "k \<le> 8" for k
    using that by (simp add: unsigned_ucast_eq unsigned_take_bit_eq take_bit_eq_mod mod_mod_cancel le_imp_power_dvd [of k 8 2, simplified] flip: take_bit_eq_mod)
  ultimately have m: "unat ((ucast n :: u8) AND mask k) = unat n mod 2 ^ k" if "k \<le> 8" for k using that by simp
  have "(15 :: u8) = mask 4" "(7 :: u8) = mask 3" by (simp_all add: mask_eq_exp_minus_1)
  then show "unat ((ucast (n :: u64) :: u8) AND 15) = unat n mod 16" "unat ((ucast n :: u8) AND 7) = unat n mod 8"
    using m [of 4] m [of 3] by simp_all
qed

lemma pow2_loop_wrote:
  "wrote tmp i (map (case_digit locase) (rev (radix_digits (if b16 then 16 else 8) (unat num)))) (pow2_loop b16 locase tmp i num)"
proof (induction b16 locase tmp i num rule: pow2_loop.induct)
  case (1 b16 locase tmp i num)
  define b :: nat where "b = (if b16 then 16 else 8)"
  define msk :: u8 where "msk = (if b16 then 15 else 7)"
  define shift :: nat where "shift = (if b16 then 4 else 3)"
  define num' where "num' = drop_bit shift num"
  define tmp' where "tmp' = tmp(i := case_digit locase (unat num mod b))"
  have d: "unat ((ucast num :: u8) AND msk) = unat num mod b" unfolding msk_def b_def using low_mask [of num] by simp
  have n': "unat num' = unat num div b" unfolding num'_def unat_drop by (simp add: shift_def b_def)
  have w: "wrote tmp i [case_digit locase (unat num mod b)] (tmp', i + 1)" by (auto simp: wrote_def tmp'_def)
  have t: "tmp' = tmp(i := hex_asc_upper ! unat ((ucast num :: u8) AND msk) OR locase)" by (simp add: tmp'_def case_digit_def d)
  have eq: "pow2_loop b16 locase tmp i num = (if num' \<noteq> 0 then pow2_loop b16 locase tmp' (i + 1) num' else (tmp', i + 1))"
    unfolding tmp'_def case_digit_def d [symmetric] num'_def msk_def shift_def by (subst pow2_loop.simps) (simp add: Let_def)
  show ?case unfolding b_def [symmetric]
  proof (cases "num' = 0")
    case True
    then have "unat num div b = 0" using n' by simp
    then have "unat num < b" by (simp add: div_eq_0_iff b_def split: if_splits)
    then show "wrote tmp i (map (case_digit locase) (rev (radix_digits b (unat num)))) (pow2_loop b16 locase tmp i num)"
      using w True by (simp add: eq radix_digits_less)
  next
    case False
    then have "unat num div b \<noteq> 0" using n' by (metis unat_eq_0)
    then have "b \<le> unat num" by (simp add: div_eq_0_iff not_less)
    then have r: "radix_digits b (unat num) = radix_digits b (unat num') @ [unat num mod b]"
      using n' by (simp add: radix_digits_step b_def)
    have "wrote tmp' (i + 1) (map (case_digit locase) (rev (radix_digits b (unat num')))) (pow2_loop b16 locase tmp' (i + 1) num')"
      unfolding b_def by (rule 1 [OF msk_def shift_def t num'_def False])
    then show "wrote tmp i (map (case_digit locase) (rev (radix_digits b (unat num)))) (pow2_loop b16 locase tmp i num)"
      using wrote_trans [OF w] False by (cases "pow2_loop b16 locase tmp' (i + 1) num'") (simp add: eq r)
  qed
qed

lemma wrote_map: "wrote m 0 bs (m', q) \<Longrightarrow> map m' (rev [0..<q]) = rev bs"
proof -
  assume "wrote m 0 bs (m', q)"
  then have "map m' [0..<q] = bs" by (auto simp: wrote_def intro!: nth_equalityI)
  then show ?thesis by (simp flip: rev_map)
qed

lemma radix_digits_bound: "2 \<le> b \<Longrightarrow> \<forall>d \<in> set (radix_digits b n). d < b"
proof (induction b n rule: radix_digits.induct)
  case (1 b n)
  then show ?case by (subst radix_digits.simps) auto
qed

lemma number_digits_spec:
  assumes "bas \<in> {8, 10, 16}" and "locase \<in> {0, 32}" and "number_digits num bas locase = (tmp, i)"
  shows "map tmp (rev [0..<i]) = map (case_digit locase) (radix_digits bas (unat num))" and "i = length (radix_digits bas (unat num))"
proof -
  have "wrote (\<lambda>_. 0) 0 (map (case_digit locase) (rev (radix_digits bas (unat num)))) (number_digits num bas locase)"
  proof (cases "unat num < bas")
    case True
    then show ?thesis by (simp add: number_digits_def radix_digits_less case_digit_def wrote_def)
  next
    case False
    have "dec (unat num) = map (case_digit locase) (rev (radix_digits 10 (unat num)))"
      using radix_digits_bound [of 10 "unat num"] case_digit_char(1) [OF _ assms(2)] by simp
    then have "wrote (\<lambda>_. 0) 0 (map (case_digit locase) (rev (radix_digits 10 (unat num)))) (put_dec (\<lambda>_. 0) 0 num)"
      using put_dec_wrote [of "\<lambda>_. 0" 0 num] by metis
    then show ?thesis using False assms(1) pow2_loop_wrote [of "\<lambda>_. 0" 0 locase "bas = 16" num]
      by (auto simp: number_digits_def)
  qed
  then show "map tmp (rev [0..<i]) = map (case_digit locase) (radix_digits bas (unat num))" "i = length (radix_digits bas (unat num))"
    using wrote_map assms(3) by (fastforce simp: rev_map, simp add: wrote_def)
qed

text \<open>The layout of a number: sign, prefix, the zeros of the precision, digits, and the padding where the flags put it.\<close>

definition has :: "u8 \<Rightarrow> printf_spec \<Rightarrow> bool" where
  "has f spec \<longleftrightarrow> spec_flags spec AND f \<noteq> 0"

definition sign_text :: "u64 \<Rightarrow> printf_spec \<Rightarrow> u8 list" where
  "sign_text num spec =
     (if \<not> has SIGN spec then [] else if sint num < 0 then [45] else if has PLUS spec then [43] else if has SPACE spec then [32] else [])"

definition prefix_text :: "u64 \<Rightarrow> printf_spec \<Rightarrow> u8 list" where
  "prefix_text num spec =
     (if \<not> has SPECIAL spec \<or> spec_base spec = 10 then []
      else if spec_base spec = 16 then [48, if has SMALL spec then 120 else 88]
      else if num = 0 then [] else [48])"

definition digits_text :: "u64 \<Rightarrow> printf_spec \<Rightarrow> u8 list" where
  "digits_text num spec =
     (let n = (if has SIGN spec \<and> sint num < 0 then - num else num);
          ds = map (case_digit (if has SMALL spec then 32 else 0)) (radix_digits (spec_base spec) (unat n))
      in replicate (nat (precision spec) - length ds) 48 @ ds)"

definition number_text :: "u64 \<Rightarrow> printf_spec \<Rightarrow> u8 list" where
  "number_text num spec =
     (let head = sign_text num spec @ prefix_text num spec; body = digits_text num spec;
          fill = nat (field_width spec) - length head - length body
      in if has LEFT spec then head @ body @ replicate fill 32
         else if has ZEROPAD spec then head @ replicate fill 48 @ body
         else replicate fill 32 @ head @ body)"

lemma and_flag: "x AND 2 ^ n = (if bit x n then 2 ^ n else (0 :: u8))"
proof (rule bit_word_eqI)
  fix k assume "k < LENGTH(8)"
  then show "bit (x AND 2 ^ n) k \<longleftrightarrow> bit (if bit x n then 2 ^ n else 0 :: u8) k"
    by (cases "k = n") (simp_all add: bit_and_iff bit_exp_iff)
qed

lemma flag_values: "SIGN = 2 ^ 0" "LEFT = 2 ^ 1" "PLUS = 2 ^ 2" "SPACE = 2 ^ 3" "ZEROPAD = 2 ^ 4" "SMALL = 2 ^ 5" "SPECIAL = 2 ^ 6"
  by (simp_all add: SIGN_def LEFT_def PLUS_def SPACE_def ZEROPAD_def SMALL_def SPECIAL_def)

lemma exp_u8_nonzero: "n < 8 \<Longrightarrow> (2 :: u8) ^ n \<noteq> 0"
  by (simp add: exp_eq_zero_iff)

lemma has_bits:
  "has SIGN spec \<longleftrightarrow> bit (spec_flags spec) 0" "has LEFT spec \<longleftrightarrow> bit (spec_flags spec) 1" "has PLUS spec \<longleftrightarrow> bit (spec_flags spec) 2"
  "has SPACE spec \<longleftrightarrow> bit (spec_flags spec) 3" "has ZEROPAD spec \<longleftrightarrow> bit (spec_flags spec) 4" "has SMALL spec \<longleftrightarrow> bit (spec_flags spec) 5"
  "has SPECIAL spec \<longleftrightarrow> bit (spec_flags spec) 6"
  unfolding has_def flag_values and_flag using exp_u8_nonzero [of 0] exp_u8_nonzero [of 1] exp_u8_nonzero [of 2] exp_u8_nonzero [of 3]
    exp_u8_nonzero [of 4] exp_u8_nonzero [of 5] exp_u8_nonzero [of 6] by simp_all

text \<open>The flags after \<^verbatim>\<open>LEFT\<close> has switched off \<^verbatim>\<open>ZEROPAD\<close>.\<close>

lemma number_flags:
  fixes spec :: printf_spec
  defines "f \<equiv> (if spec_flags spec AND LEFT \<noteq> 0 then spec_flags spec AND NOT ZEROPAD else spec_flags spec)"
  shows "f AND SIGN \<noteq> 0 \<longleftrightarrow> has SIGN spec" "f AND PLUS \<noteq> 0 \<longleftrightarrow> has PLUS spec" "f AND SPACE \<noteq> 0 \<longleftrightarrow> has SPACE spec"
    "f AND LEFT = 0 \<longleftrightarrow> \<not> has LEFT spec" "f AND (ZEROPAD OR LEFT) = 0 \<longleftrightarrow> \<not> has LEFT spec \<and> \<not> has ZEROPAD spec"
    "\<not> has LEFT spec \<Longrightarrow> 32 + (f AND ZEROPAD) = (if has ZEROPAD spec then 48 else 32)"
    "spec_flags spec AND SMALL = (if has SMALL spec then 32 else 0)"
proof -
  have b: "bit f n \<longleftrightarrow> bit (spec_flags spec) n \<and> (n = 4 \<longrightarrow> \<not> has LEFT spec)" for n
  proof -
    have "bit ZEROPAD k \<longleftrightarrow> k = 4" for k unfolding flag_values(5) bit_exp_iff possible_bit_word by auto
    moreover have "bit (spec_flags spec) n \<longrightarrow> n < 8" using bit_imp_le_length [of "spec_flags spec" n] by simp
    ultimately show ?thesis unfolding f_def has_def [symmetric]
      by (cases "has LEFT spec") (simp_all add: bit_and_iff bit_not_iff, blast)
  qed
  have e: "SIGN \<noteq> 0" "LEFT \<noteq> 0" "PLUS \<noteq> 0" "SPACE \<noteq> 0" "ZEROPAD \<noteq> 0"
    by (simp_all add: SIGN_def LEFT_def PLUS_def SPACE_def ZEROPAD_def)
  show "f AND SIGN \<noteq> 0 \<longleftrightarrow> has SIGN spec" "f AND PLUS \<noteq> 0 \<longleftrightarrow> has PLUS spec" "f AND SPACE \<noteq> 0 \<longleftrightarrow> has SPACE spec"
    "f AND LEFT = 0 \<longleftrightarrow> \<not> has LEFT spec"
    unfolding flag_values(1-4) and_flag b unfolding flag_values(1-4) [symmetric] has_bits using e by simp_all
  have "f AND (ZEROPAD OR LEFT) = 0 \<longleftrightarrow> f AND ZEROPAD = 0 \<and> f AND LEFT = 0"
    by (simp add: bit.conj_disj_distrib or_eq_0_iff)
  also have "\<dots> \<longleftrightarrow> \<not> has LEFT spec \<and> \<not> has ZEROPAD spec"
    unfolding flag_values(2,5) and_flag b unfolding flag_values(2,5) [symmetric] has_bits using e by auto
  finally show "f AND (ZEROPAD OR LEFT) = 0 \<longleftrightarrow> \<not> has LEFT spec \<and> \<not> has ZEROPAD spec" .
  show "32 + (f AND ZEROPAD) = (if has ZEROPAD spec then 48 else 32)" if "\<not> has LEFT spec"
    unfolding flag_values(5) and_flag b unfolding flag_values(5) [symmetric] has_bits(5) using that by (simp add: ZEROPAD_def)
  show "spec_flags spec AND SMALL = (if has SMALL spec then 32 else 0)"
    unfolding flag_values(6) and_flag unfolding flag_values(6) [symmetric] has_bits(6) by (simp add: SMALL_def)
qed

lemma fold_emit_append: "fold (emit fin) ys (fold (emit fin) xs out) = fold (emit fin) (xs @ ys) out"
  by simp

lemma number_print_emits:
  assumes "spec_base spec \<in> {8, 10, 16}"
  shows "number_print fin num spec out = fold (emit fin) (number_text num spec) out"
proof -
  define S P where "S = sign_text num spec" and "P = prefix_text num spec"
  define n where "n = (if has SIGN spec \<and> sint num < 0 then - num else num)"
  define locase :: u8 where "locase = (if has SMALL spec then 32 else 0)"
  define ds where "ds = map (case_digit locase) (radix_digits (spec_base spec) (unat n))"
  define F where "F = field_width spec - int (length S) - int (length P) - max (precision spec) (int (length ds))"
  define Z where "Z = replicate (nat (precision spec) - length ds) (48 :: u8)"
  obtain tmp i where ti: "number_digits n (spec_base spec) locase = (tmp, i)" by fastforce
  have "locase \<in> {0, 32}" by (simp add: locase_def)
  from number_digits_spec [OF assms this ti] have d: "map tmp (rev [0..<i]) = ds" "i = length ds" by (simp_all add: ds_def)
  have pfx: "spec_flags spec AND SPECIAL \<noteq> 0 \<longleftrightarrow> has SPECIAL spec" by (simp add: has_def)
  have sign: "(if has SIGN spec then
      (if sint num < 0 then (45, - num, field_width spec - 1)
       else if has PLUS spec then (43, num, field_width spec - 1)
       else if has SPACE spec then (32, num, field_width spec - 1) else (0, num, field_width spec))
      else (0, num, field_width spec)) = (if S = [] then 0 else hd S, n, field_width spec - int (length S))"
    by (simp add: S_def sign_text_def n_def)
  have S: "length S \<le> 1" "0 \<notin> set S" by (simp_all add: S_def sign_text_def)
  have em_S: "(if (if S = [] then 0 else hd S) \<noteq> 0 then emit fin (if S = [] then 0 else hd S) o' else o') = fold (emit fin) S o'" for o'
    by (simp add: S_def sign_text_def)
  let ?np = "has SPECIAL spec \<and> spec_base spec \<noteq> 10"
  have em_P: "(if ?np \<and> spec_base spec = 16 then emit fin (88 OR locase) (if ?np \<and> (spec_base spec = 16 \<or> num \<noteq> 0) then emit fin 48 o' else o')
      else (if ?np \<and> (spec_base spec = 16 \<or> num \<noteq> 0) then emit fin 48 o' else o')) = fold (emit fin) P o'" for o'
    by (cases "has SPECIAL spec"; cases "spec_base spec = 10"; cases "spec_base spec = 16") (simp_all add: P_def prefix_text_def locase_def)
  have fw_P: "(if ?np then (if spec_base spec = 16 then fw - 2 else if num \<noteq> 0 then fw - 1 else fw) else fw) = fw - int (length P)" for fw
    by (simp add: P_def prefix_text_def)
  have pad: "(if \<not> has LEFT spec then pad_loop fin (32 + ((if spec_flags spec AND LEFT \<noteq> 0 then spec_flags spec AND NOT ZEROPAD else spec_flags spec) AND ZEROPAD)) fw o' else (o', fw))
      = (if \<not> has LEFT spec then pad_loop fin (if has ZEROPAD spec then 48 else 32) fw o' else (o', fw))" for fw o'
    using number_flags(6) [of spec] by simp
  have prec: "(if precision spec < int i then int i else precision spec) = max (precision spec) (int (length ds))" by (simp add: d(2))
  have run: "number_print fin num spec out =
    (let (out, fw) = (if \<not> has LEFT spec \<and> \<not> has ZEROPAD spec then pad_loop fin 32 F out else (out, F));
         out = fold (emit fin) P (fold (emit fin) S out);
         (out, fw) = (if \<not> has LEFT spec then pad_loop fin (if has ZEROPAD spec then 48 else 32) fw out else (out, fw));
         out = digit_loop fin tmp i (zero_loop fin (int i) (max (precision spec) (int (length ds))) out)
     in fst (pad_loop fin 32 fw out))"
    unfolding number_print_def number_flags(1-5,7) Let_def pfx locase_def [symmetric] sign prod.case fw_P ti prec em_S em_P pad F_def [symmetric]
    by (simp add: case_prod_unfold)
  have "max (precision spec) (int (length ds)) - int i = int (nat (precision spec) - length ds)" by (simp add: d(2))
  then have z: "replicate (nat (max (precision spec) (int (length ds)) - int i)) (48 :: u8) = Z" by (simp add: Z_def)
  have body: "digits_text num spec = Z @ ds" by (simp add: digits_text_def Z_def ds_def locase_def n_def Let_def)
  have fill: "nat F = nat (field_width spec) - length (S @ P) - length (Z @ ds)" by (simp add: F_def Z_def)
  have layout: "number_text num spec =
      (if has LEFT spec then S @ P @ Z @ ds @ replicate (nat F) 32
       else if has ZEROPAD spec then S @ P @ replicate (nat F) 48 @ Z @ ds
       else replicate (nat F) 32 @ S @ P @ Z @ ds)"
    unfolding number_text_def Let_def body S_def [symmetric] P_def [symmetric] fill by simp
  show ?thesis unfolding run layout Let_def
    by (cases "has LEFT spec"; cases "has ZEROPAD spec") (simp_all add: pad_loop_emits zero_loop_emits digit_loop_emits z d(1))
qed

lemma special_hex_number_emits:
  "special_hex_number fin num sz out =
     fold (emit fin)
       (number_text num \<lparr>spec_type = FORMAT_TYPE_PTR, field_width = 2 + 2 * sz, spec_flags = SPECIAL OR SMALL OR ZEROPAD, spec_base = 16, precision = - 1\<rparr>)
       out"
  unfolding special_hex_number_def by (rule number_print_emits) simp

lemma emitted_cstr:
  assumes "fold (emit fin) text (m, buf) = (m', e)" and "buf + length text \<le> fin" and "0 \<notin> set text"
  shows "e = buf + length text" and "cstr (m'(e := 0)) buf text"
proof -
  from assms(1) have *: "e = buf + length text"
    "m' = (\<lambda>a. if buf \<le> a \<and> a < buf + length text \<and> a < fin then text ! (a - buf) else m a)" by (auto simp: emits_eq)
  then show "e = buf + length text" "cstr (m'(e := 0)) buf text" using assms(2,3) by (auto simp: cstr_nth)
qed

lemma copy_rev_eq: "copy_rev m p tmp k = (\<lambda>a. if p \<le> a \<and> a < p + k then tmp (k - 1 - (a - p)) else m a)"
proof (induction k arbitrary: m p)
  case (Suc k)
  show ?case by (auto simp: Suc.IH fun_eq_iff intro: arg_cong [of _ _ tmp])
qed (auto simp: fun_eq_iff)

lemma num_to_str_bytes:
  defines "t n w \<equiv> replicate (w - length (show_number 10 (unat n))) 32 @ show_number 10 (unat n)"
  shows "num_to_str m buf sz num width =
    (if sz < int (length (t num width)) then (m, 0)
     else (\<lambda>a. if buf \<le> a \<and> a < buf + length (t num width) then t num width ! (a - buf) else m a, length (t num width)))"
proof -
  define ds where "ds = show_number 10 (unat num)"
  obtain tmp len where tl: "(if num \<le> 9 then ((\<lambda>_. 0)(0 := 48 + ucast num), 1) else put_dec (\<lambda>_. 0) 0 num) = (tmp, len)" by fastforce
  have "wrote (\<lambda>_. 0) 0 (rev ds) (tmp, len)"
  proof (cases "num \<le> 9")
    case True
    then have n: "unat num < 10" by (simp add: word_le_nat_alt)
    then have "digit_char (unat num) = 48 + ucast num" by (simp add: digit_char_def)
    then show ?thesis using tl True n by (auto simp: ds_def show_number_radix radix_digits_less wrote_def)
  next
    case False
    then show ?thesis using put_dec_wrote [of "\<lambda>_. 0" 0 num] tl by (simp add: ds_def show_number_radix rev_map)
  qed
  then have len: "len = length ds" and tmp: "\<forall>i < length ds. tmp i = ds ! (length ds - 1 - i)"
    by (simp_all add: wrote_def rev_nth)
  have t: "t num width = replicate (width - len) 32 @ ds" by (simp add: t_def ds_def len)
  show ?thesis unfolding num_to_str_def tl t Let_def prod.case
    by (auto simp: copy_rev_eq set_bytes_eq len fun_eq_iff nth_append tmp less_diff_conv2; simp add: add.commute)
qed

lemma length_radix_digits: "2 \<le> b \<Longrightarrow> n < b ^ k \<Longrightarrow> 0 < k \<Longrightarrow> length (radix_digits b n) \<le> k"
proof (induction k arbitrary: n)
  case (Suc k)
  show ?case
  proof (cases "n < b")
    case False
    then have "0 < k" using Suc.prems by (cases k) auto
    moreover have "n div b < b ^ k" using Suc.prems by (simp add: less_mult_imp_div_less mult.commute)
    ultimately have "length (radix_digits b (n div b)) \<le> k" using Suc.IH Suc.prems(1) by blast
    then show ?thesis using False Suc.prems(1) by (simp add: radix_digits_step)
  qed (simp add: radix_digits_less)
qed simp

definition signed_spec :: "nat \<Rightarrow> printf_spec" where
  "signed_spec bas =
     \<lparr>spec_type = FORMAT_TYPE_LONG_LONG, field_width = - 1, spec_flags = SIGN OR SMALL, spec_base = bas, precision = - 1\<rparr>"

lemma signed_spec_has: "has SIGN (signed_spec b)" "has SMALL (signed_spec b)" "\<not> has LEFT (signed_spec b)" "\<not> has PLUS (signed_spec b)"
    "\<not> has SPACE (signed_spec b)" "\<not> has ZEROPAD (signed_spec b)" "\<not> has SPECIAL (signed_spec b)"
  by (simp_all add: has_def signed_spec_def SIGN_def LEFT_def PLUS_def SPACE_def ZEROPAD_def SMALL_def SPECIAL_def)

lemma signed_text:
  assumes "bas \<in> {8, 10, 16}"
  shows "number_text num (signed_spec bas) = show_int bas (sint num)"
proof -
  let ?n = "if sint num < 0 then - num else num"
  have b: "spec_base (signed_spec bas) = bas" "precision (signed_spec bas) = - 1" "field_width (signed_spec bas) = - 1"
    by (simp_all add: signed_spec_def)
  have "case_digit 32 d = digit_char d" if "d \<in> set (radix_digits bas (unat ?n))" for d
  proof (rule case_digit_char(2))
    have "2 \<le> bas" "bas \<le> 16" using assms by auto
    then show "d < 16" using radix_digits_bound [of bas "unat ?n"] that less_le_trans by blast
  qed
  then have "map (case_digit 32) (radix_digits bas (unat ?n)) = show_number bas (unat ?n)"
    by (simp add: show_number_radix)
  then have "digits_text num (signed_spec bas) = show_number bas (unat ?n)"
    unfolding digits_text_def b signed_spec_has Let_def by (simp add: signed_spec_has)
  moreover have "unat ?n = nat \<bar>sint num\<bar>"
  proof -
    have "?n = of_int \<bar>sint num\<bar>" by simp
    moreover have "\<bar>sint num\<bar> < 2 ^ 64" using sint_ge [of num] sint_lt [of num] by simp
    ultimately show ?thesis using uint_of_int_fits [of "\<bar>sint num\<bar>"] by (simp only: abs_ge_zero flip: nat_uint_eq)
  qed
  ultimately show ?thesis
    by (simp add: number_text_def signed_spec_has b sign_text_def prefix_text_def show_int_def)
qed

section \<open>Properties\<close>

text \<open>
  \<^verbatim>\<open>number\<close> prints every 64-bit number in octal, decimal or hexadecimal as the specification asks: sign, prefix, the zeros of
  the precision, the digits, and blanks or zeros up to the field width on the side the flags select.  It returns the position
  behind the whole text even when the buffer is shorter, writes the part of the text that fits and nothing at or behind the
  end of the buffer.
\<close>

theorem number_layout:
  assumes "spec_base spec \<in> {8, 10, 16}"
  shows "number_print fin num spec (m, buf) =
    (\<lambda>a. if buf \<le> a \<and> a < buf + length (number_text num spec) \<and> a < fin then number_text num spec ! (a - buf) else m a,
     buf + length (number_text num spec))"
  unfolding number_print_emits [OF assms] by (rule emits_eq)

lemma replicate_two: "replicate 2 x = [x, x]"
  by (simp add: numeral_2_eq_2)

theorem number_layout_witness:
  "number_print 103 255 \<lparr>spec_type = FORMAT_TYPE_UINT, field_width = 6, spec_flags = SPECIAL OR SMALL, spec_base = 16, precision = - 1\<rparr> (\<lambda>_. 1, 100) =
    (\<lambda>a. if 100 \<le> a \<and> a < 106 \<and> a < 103 then [32, 32, 48, 120, 102, 102] ! (a - 100) else 1, 106)"
proof -
  let ?s = "\<lparr>spec_type = FORMAT_TYPE_UINT, field_width = 6, spec_flags = SPECIAL OR SMALL, spec_base = 16, precision = - 1\<rparr>"
  have t: "number_text 255 ?s = [32, 32, 48, 120, 102, 102]"
    by (simp add: number_text_def sign_text_def prefix_text_def digits_text_def Let_def has_def SIGN_def LEFT_def PLUS_def SPACE_def
        ZEROPAD_def SMALL_def SPECIAL_def radix_digits_step radix_digits_less case_digit_def hex_asc_upper_def
        replicate_two)
  show ?thesis using number_layout [of ?s 103 255 "\<lambda>_. 1" 100] unfolding t by simp
qed

text \<open>
  (C37) A signed 64-bit number printed in octal, decimal or hexadecimal into a buffer of 24 bytes is read back by \<^verbatim>\<open>kstrtoll\<close>
  as itself, the most negative number included; \<^verbatim>\<open>num_to_str\<close> gives the same decimal text, padded to its width, or
  leaves the buffer alone and returns 0 when the text does not fit.
\<close>

theorem number_roundtrip:
  assumes "bas \<in> {8, 10, 16}"
  shows "case number_print (buf + 24) num (signed_spec bas) (m, buf) of (m', e) \<Rightarrow>
      e < buf + 24 \<and> map_option (map_sum id sint) (kstrtoll (m'(e := 0)) buf bas) = Some (Inr (sint num)) \<and>
      num_to_str m buf sz k width =
        (let t = replicate (width - length (show_number 10 (unat k))) 32 @ show_number 10 (unat k)
         in if sz < int (length t) then (m, 0)
            else (\<lambda>a. if buf \<le> a \<and> a < buf + length t then t ! (a - buf) else m a, length t))"
proof -
  have b: "2 \<le> bas" "bas \<le> 16" "8 \<le> bas" using assms by auto
  obtain m' e where me: "number_print (buf + 24) num (signed_spec bas) (m, buf) = (m', e)" by fastforce
  have "number_print (buf + 24) num (signed_spec bas) (m, buf) = fold (emit (buf + 24)) (show_int bas (sint num)) (m, buf)"
    unfolding signed_text [OF assms, symmetric] by (rule number_print_emits) (use assms in \<open>simp add: signed_spec_def\<close>)
  then have f: "fold (emit (buf + 24)) (show_int bas (sint num)) (m, buf) = (m', e)" using me by simp
  have "nat \<bar>sint num\<bar> \<le> 2 ^ 63" using sint_ge [of num] sint_lt [of num] by simp
  moreover have "(2 :: nat) ^ 63 < 8 ^ 22" by simp
  moreover have "(8 :: nat) ^ 22 \<le> bas ^ 22" using b(3) by (rule power_mono) simp
  ultimately have "nat \<bar>sint num\<bar> < bas ^ 22" by linarith
  then have "length (radix_digits bas (nat \<bar>sint num\<bar>)) \<le> 22" using length_radix_digits [OF b(1)] by simp
  then have len: "length (show_int bas (sint num)) \<le> 23" by (auto simp: show_int_def show_number_radix)
  have "0 \<notin> set (show_int bas (sint num))"
    using show_number_digits [OF b(1,2)] digit_char_digit b(2) unfolding show_int_def
    by (auto dest!: bspec) (metis insertCI le_trans less_le_trans)+
  from emitted_cstr [OF f _ this] len have c: "e = buf + length (show_int bas (sint num))" "cstr (m'(e := 0)) buf (show_int bas (sint num))" by simp_all
  have r: "- (2 ^ 63) \<le> sint num" "sint num \<le> 2 ^ 63 - 1" using sint_ge [of num] sint_lt [of num] by simp_all
  then have "signed_value bas (show_int bas (sint num)) = Inr (sint num)" using show_int_value [OF b(1,2), of "sint num"] by simp
  then have "map_option (map_sum id sint) (kstrtoll (m'(e := 0)) buf bas) = Some (Inr (sint num))"
    using kstrtoll_cstr [OF c(2) _ b(2)] len r by (simp add: fit_def)
  then show ?thesis unfolding me prod.case using c(1) len num_to_str_bytes by (simp add: Let_def)
qed

theorem number_roundtrip_witness:
  "case number_print (100 + 24) (- 129) (signed_spec 10) (\<lambda>_. 7, 100) of (m', e) \<Rightarrow>
      e < 100 + 24 \<and> map_option (map_sum id sint) (kstrtoll (m'(e := 0)) 100 10) = Some (Inr (sint (- 129 :: u64))) \<and>
      num_to_str (\<lambda>_. 7) 100 8 1234 6 =
        (let t = replicate (6 - length (show_number 10 (unat (1234 :: u64)))) 32 @ show_number 10 (unat (1234 :: u64))
         in if 8 < int (length t) then (\<lambda>_. 7, 0)
            else (\<lambda>a. if 100 \<le> a \<and> a < 100 + length t then t ! (a - 100) else 7, length t))"
  by (rule number_roundtrip) simp

end
