(* ===== verification/Siphash.thy ===== *)
theory Siphash imports Kstring_Spec begin

text \<open>
  The keyed hash functions of \<^verbatim>\<open>lib/src/siphash.c\<close> with the inline dispatch of \<^verbatim>\<open>include/linux/siphash.h\<close>.  The state is
  the four words \<^verbatim>\<open>v0\<close> to \<^verbatim>\<open>v3\<close>.  SipHash absorbs a word with two rounds and ends with four, the variant for hash
  tables with one and three; both numbers are arguments of the macros here.
\<close>

unbundle bit_operations_syntax

section \<open>Operations\<close>

type_synonym sip = "u64 \<times> u64 \<times> u64 \<times> u64"
type_synonym siphash_key_t = "u64 \<times> u64"

definition rol64 :: "u64 \<Rightarrow> nat \<Rightarrow> u64" where
  "rol64 w shift = push_bit (shift mod 64) w OR drop_bit ((64 - shift mod 64) mod 64) w"

fun SIPROUND :: "sip \<Rightarrow> sip" where
  "SIPROUND (v0, v1, v2, v3) =
     (let v0 = v0 + v1; v1 = rol64 v1 13; v1 = v1 XOR v0; v0 = rol64 v0 32;
          v2 = v2 + v3; v3 = rol64 v3 16; v3 = v3 XOR v2;
          v0 = v0 + v3; v3 = rol64 v3 21; v3 = v3 XOR v0;
          v2 = v2 + v1; v1 = rol64 v1 17; v1 = v1 XOR v2; v2 = rol64 v2 32
      in (v0, v1, v2, v3))"

definition PREAMBLE :: "siphash_key_t \<Rightarrow> sip" where
  "PREAMBLE key =
     (let v0 = 0x736f6d6570736575; v1 = 0x646f72616e646f6d; v2 = 0x6c7967656e657261; v3 = 0x7465646279746573;
          v3 = v3 XOR snd key; v2 = v2 XOR fst key; v1 = v1 XOR snd key; v0 = v0 XOR fst key
      in (v0, v1, v2, v3))"

definition len_block :: "nat \<Rightarrow> u64" where
  "len_block len = push_bit 56 (of_nat len)"

fun absorb :: "nat \<Rightarrow> u64 \<Rightarrow> sip \<Rightarrow> sip" where
  "absorb c w (v0, v1, v2, v3) = (case (SIPROUND ^^ c) (v0, v1, v2, v3 XOR w) of (v0, v1, v2, v3) \<Rightarrow> (v0 XOR w, v1, v2, v3))"

definition POSTAMBLE :: "nat \<Rightarrow> nat \<Rightarrow> u64 \<Rightarrow> sip \<Rightarrow> u64" where
  "POSTAMBLE c d b s =
     (case absorb c b s of (v0, v1, v2, v3) \<Rightarrow>
        case (SIPROUND ^^ d) (v0, v1, v2 XOR 0xff, v3) of (v0, v1, v2, v3) \<Rightarrow> (v0 XOR v1) XOR (v2 XOR v3))"

fun word_loop :: "nat \<Rightarrow> mem \<Rightarrow> nat \<Rightarrow> nat \<Rightarrow> sip \<Rightarrow> sip" where
  "word_loop c m data 0 s = s"
| "word_loop c m data (Suc n) s = word_loop c m (data + 8) n (absorb c (load_le m data 8) s)"

text \<open>The switch over the bytes that are left; every case falls through to the next until a \<^verbatim>\<open>break\<close>.\<close>

definition tail_bytes :: "mem \<Rightarrow> nat \<Rightarrow> nat \<Rightarrow> u64 \<Rightarrow> u64" where
  "tail_bytes m fin left b =
     (let b = (if left = 7 then b OR push_bit 48 (ucast (m (fin + 6))) else b);
          b = (if 6 \<le> left then b OR push_bit 40 (ucast (m (fin + 5))) else b);
          b = (if 5 \<le> left then b OR push_bit 32 (ucast (m (fin + 4))) else b)
      in if 4 \<le> left then b OR load_le m fin 4
         else
           let b = (if left = 3 then b OR push_bit 16 (ucast (m (fin + 2))) else b)
           in if 2 \<le> left then b OR load_le m fin 2
              else if left = 1 then b OR ucast (m fin)
              else b)"

definition sip_aligned :: "nat \<Rightarrow> nat \<Rightarrow> mem \<Rightarrow> nat \<Rightarrow> nat \<Rightarrow> siphash_key_t \<Rightarrow> u64" where
  "sip_aligned c d m data len key =
     (let fin = data + len - len mod 8; left = len mod 8; b = len_block len
      in POSTAMBLE c d (tail_bytes m fin left b) (word_loop c m data (len div 8) (PREAMBLE key)))"

definition siphash_aligned :: "mem \<Rightarrow> nat \<Rightarrow> nat \<Rightarrow> siphash_key_t \<Rightarrow> u64" where
  "siphash_aligned m data len key = sip_aligned 2 4 m data len key"

definition siphash_unaligned :: "mem \<Rightarrow> nat \<Rightarrow> nat \<Rightarrow> siphash_key_t \<Rightarrow> u64" where
  "siphash_unaligned m data len key = sip_aligned 2 4 m data len key"

definition siphash_1u64 :: "u64 \<Rightarrow> siphash_key_t \<Rightarrow> u64" where
  "siphash_1u64 first key = POSTAMBLE 2 4 (len_block 8) (absorb 2 first (PREAMBLE key))"

definition siphash_2u64 :: "u64 \<Rightarrow> u64 \<Rightarrow> siphash_key_t \<Rightarrow> u64" where
  "siphash_2u64 first second key = POSTAMBLE 2 4 (len_block 16) (absorb 2 second (absorb 2 first (PREAMBLE key)))"

definition siphash_3u64 :: "u64 \<Rightarrow> u64 \<Rightarrow> u64 \<Rightarrow> siphash_key_t \<Rightarrow> u64" where
  "siphash_3u64 first second third key =
     POSTAMBLE 2 4 (len_block 24) (absorb 2 third (absorb 2 second (absorb 2 first (PREAMBLE key))))"

definition siphash_4u64 :: "u64 \<Rightarrow> u64 \<Rightarrow> u64 \<Rightarrow> u64 \<Rightarrow> siphash_key_t \<Rightarrow> u64" where
  "siphash_4u64 first second third forth key =
     POSTAMBLE 2 4 (len_block 32) (absorb 2 forth (absorb 2 third (absorb 2 second (absorb 2 first (PREAMBLE key)))))"

definition siphash_1u32 :: "u32 \<Rightarrow> siphash_key_t \<Rightarrow> u64" where
  "siphash_1u32 first key = POSTAMBLE 2 4 (len_block 4 OR ucast first) (PREAMBLE key)"

definition combined :: "u32 \<Rightarrow> u32 \<Rightarrow> u64" where
  "combined first second = push_bit 32 (ucast second) OR ucast first"

definition siphash_3u32 :: "u32 \<Rightarrow> u32 \<Rightarrow> u32 \<Rightarrow> siphash_key_t \<Rightarrow> u64" where
  "siphash_3u32 first second third key =
     POSTAMBLE 2 4 (len_block 12 OR ucast third) (absorb 2 (combined first second) (PREAMBLE key))"

definition siphash_2u32 :: "u32 \<Rightarrow> u32 \<Rightarrow> siphash_key_t \<Rightarrow> u64" where
  "siphash_2u32 a b key = siphash_1u64 (combined a b) key"

definition siphash_4u32 :: "u32 \<Rightarrow> u32 \<Rightarrow> u32 \<Rightarrow> u32 \<Rightarrow> siphash_key_t \<Rightarrow> u64" where
  "siphash_4u32 a b c d key = siphash_2u64 (combined a b) (combined c d) key"

definition hsiphash_aligned :: "mem \<Rightarrow> nat \<Rightarrow> nat \<Rightarrow> siphash_key_t \<Rightarrow> u32" where
  "hsiphash_aligned m data len key = ucast (sip_aligned 1 3 m data len key)"

definition hsiphash_unaligned :: "mem \<Rightarrow> nat \<Rightarrow> nat \<Rightarrow> siphash_key_t \<Rightarrow> u32" where
  "hsiphash_unaligned m data len key = ucast (sip_aligned 1 3 m data len key)"

definition hsiphash_1u32 :: "u32 \<Rightarrow> siphash_key_t \<Rightarrow> u32" where
  "hsiphash_1u32 first key = ucast (POSTAMBLE 1 3 (len_block 4 OR ucast first) (PREAMBLE key))"

definition hsiphash_2u32 :: "u32 \<Rightarrow> u32 \<Rightarrow> siphash_key_t \<Rightarrow> u32" where
  "hsiphash_2u32 first second key = ucast (POSTAMBLE 1 3 (len_block 8) (absorb 1 (combined first second) (PREAMBLE key)))"

definition hsiphash_3u32 :: "u32 \<Rightarrow> u32 \<Rightarrow> u32 \<Rightarrow> siphash_key_t \<Rightarrow> u32" where
  "hsiphash_3u32 first second third key =
     ucast (POSTAMBLE 1 3 (len_block 12 OR ucast third) (absorb 1 (combined first second) (PREAMBLE key)))"

definition hsiphash_4u32 :: "u32 \<Rightarrow> u32 \<Rightarrow> u32 \<Rightarrow> u32 \<Rightarrow> siphash_key_t \<Rightarrow> u32" where
  "hsiphash_4u32 first second third forth key =
     ucast (POSTAMBLE 1 3 (len_block 16) (absorb 1 (combined third forth) (absorb 1 (combined first second) (PREAMBLE key))))"

text \<open>\<^verbatim>\<open>const\<close> says whether the compiler knows the length.\<close>

definition siphash_dispatch :: "bool \<Rightarrow> mem \<Rightarrow> nat \<Rightarrow> nat \<Rightarrow> siphash_key_t \<Rightarrow> u64" where
  "siphash_dispatch const m data len key =
     (if const \<and> len = 4 then siphash_1u32 (ucast (load_le m data 4)) key
      else if const \<and> len = 8 then siphash_1u64 (load_le m data 8) key
      else if const \<and> len = 16 then siphash_2u64 (load_le m data 8) (load_le m (data + 8) 8) key
      else if const \<and> len = 24 then siphash_3u64 (load_le m data 8) (load_le m (data + 8) 8) (load_le m (data + 16) 8) key
      else if const \<and> len = 32 then
        siphash_4u64 (load_le m data 8) (load_le m (data + 8) 8) (load_le m (data + 16) 8) (load_le m (data + 24) 8) key
      else siphash_aligned m data len key)"

definition siphash :: "bool \<Rightarrow> mem \<Rightarrow> nat \<Rightarrow> nat \<Rightarrow> siphash_key_t \<Rightarrow> u64" where
  "siphash const m data len key =
     (if data mod 8 \<noteq> 0 then siphash_unaligned m data len key else siphash_dispatch const m data len key)"

definition hsiphash_dispatch :: "bool \<Rightarrow> mem \<Rightarrow> nat \<Rightarrow> nat \<Rightarrow> siphash_key_t \<Rightarrow> u32" where
  "hsiphash_dispatch const m data len key =
     (let at = (\<lambda>i. ucast (load_le m (data + 4 * i) 4))
      in if const \<and> len = 4 then hsiphash_1u32 (at 0) key
         else if const \<and> len = 8 then hsiphash_2u32 (at 0) (at 1) key
         else if const \<and> len = 12 then hsiphash_3u32 (at 0) (at 1) (at 2) key
         else if const \<and> len = 16 then hsiphash_4u32 (at 0) (at 1) (at 2) (at 3) key
         else hsiphash_aligned m data len key)"

definition hsiphash :: "bool \<Rightarrow> mem \<Rightarrow> nat \<Rightarrow> nat \<Rightarrow> siphash_key_t \<Rightarrow> u32" where
  "hsiphash const m data len key =
     (if data mod 8 \<noteq> 0 then hsiphash_unaligned m data len key else hsiphash_dispatch const m data len key)"

section \<open>The hash of a string of bytes\<close>

text \<open>The reference: the message is cut into words of eight bytes; the last block holds the rest and the length.\<close>

fun le_word :: "u8 list \<Rightarrow> u64" where
  "le_word [] = 0"
| "le_word (x # xs) = ucast x OR push_bit 8 (le_word xs)"

fun sip_blocks :: "nat \<Rightarrow> u8 list \<Rightarrow> sip \<Rightarrow> sip \<times> u8 list" where
  "sip_blocks c (b0 # b1 # b2 # b3 # b4 # b5 # b6 # b7 # bs) s =
     sip_blocks c bs (absorb c (le_word [b0, b1, b2, b3, b4, b5, b6, b7]) s)"
| "sip_blocks c bs s = (s, bs)"

definition sip_hash :: "nat \<Rightarrow> nat \<Rightarrow> siphash_key_t \<Rightarrow> u8 list \<Rightarrow> u64" where
  "sip_hash c d key bs = (case sip_blocks c bs (PREAMBLE key) of (s, rest) \<Rightarrow> POSTAMBLE c d (len_block (length bs) OR le_word rest) s)"

abbreviation bytes_at :: "mem \<Rightarrow> nat \<Rightarrow> nat \<Rightarrow> u8 list" where
  "bytes_at m p n \<equiv> map m [p..<p + n]"

lemma load_le_bytes: "load_le m p n = le_word (bytes_at m p n)"
  by (induction n arbitrary: p) (simp_all add: upt_conv_Cons del: upt_Suc)

lemma bytes_8: "bytes_at m p 8 = [m p, m (p + 1), m (p + 2), m (p + 3), m (p + 4), m (p + 5), m (p + 6), m (p + 7)]"
  by (simp add: upt_conv_Cons numeral_eq_Suc)

lemma upt_8: "[p..<p + (8 + n)] = [p..<p + 8] @ [p + 8..<p + 8 + n]"
  using upt_add_eq_append [of p "p + 8" n] by (simp add: add.assoc)

lemma sip_blocks_short: "length bs < 8 \<Longrightarrow> sip_blocks c bs s = (s, bs)"
  by (cases "(c, bs, s)" rule: sip_blocks.cases) auto

lemma word_loop_blocks: "r < 8 \<Longrightarrow> sip_blocks c (bytes_at m p (8 * n + r)) s = (word_loop c m p n s, bytes_at m (p + 8 * n) r)"
proof (induction n arbitrary: p s)
  case 0
  then show ?case by (simp add: sip_blocks_short)
next
  case (Suc n)
  have "bytes_at m p (8 * Suc n + r) = bytes_at m p 8 @ bytes_at m (p + 8) (8 * n + r)"
    using upt_8 [of p "8 * n + r"] by (simp add: add.commute add.left_commute)
  then show ?case using Suc.IH [OF Suc.prems, of "p + 8"]
    by (simp add: bytes_8 load_le_bytes del: upt_Suc add: ac_simps)
qed

lemma load_le_add: "load_le m p (j + k) = load_le m p j OR push_bit (8 * j) (load_le m (p + j) k)"
  by (induction j arbitrary: p) (simp_all add: push_bit_or or.assoc push_bit_push_bit add.commute)

lemma load_le_1: "load_le m p 1 = ucast (m p)"
  by simp

lemma load_low: "n \<le> 4 \<Longrightarrow> ucast (ucast (load_le m p n) :: u32) = load_le m p n"
proof -
  assume n: "n \<le> 4"
  have b: "\<not> bit (load_le m p n) i" if "32 \<le> i" for i
    using n that by (intro load_le_high) simp
  show ?thesis by (rule bit_word_eqI) (use b in \<open>auto simp: bit_unsigned_iff not_le [symmetric]\<close>)
qed

lemma load_pair: "load_le m p 8 = combined (ucast (load_le m p 4)) (ucast (load_le m (p + 4) 4))"
  using load_le_add [of m p 4 4] by (simp add: combined_def load_low or.commute)

lemma tail_bytes_load:
  assumes "left < 8"
  shows "tail_bytes m fin left b = b OR load_le m fin left"
proof -
  have "left \<in> {0, 1, 2, 3, 4, 5, 6, 7}" using assms by auto
  moreover have s: "load_le m fin (Suc n) = load_le m fin n OR push_bit (8 * n) (ucast (m (fin + n)))" for n
    using load_le_add [of m fin n 1] by simp
  have "load_le m fin 3 = load_le m fin 2 OR push_bit 16 (ucast (m (fin + 2)))"
    "load_le m fin 5 = load_le m fin 4 OR push_bit 32 (ucast (m (fin + 4)))"
    "load_le m fin 6 = load_le m fin 5 OR push_bit 40 (ucast (m (fin + 5)))"
    "load_le m fin 7 = load_le m fin 6 OR push_bit 48 (ucast (m (fin + 6)))"
    using s [of 2] s [of 4] s [of 5] s [of 6] by simp_all
  ultimately show ?thesis unfolding tail_bytes_def Let_def insert_iff empty_iff
    by (elim disjE FalseE) (simp_all add: ac_simps)
qed

lemma sip_aligned_hash: "sip_aligned c d m p len key = sip_hash c d key (bytes_at m p len)"
proof -
  have "8 * (len div 8) + len mod 8 = len" "p + len - len mod 8 = p + 8 * (len div 8)"
    by (simp_all add: minus_mod_eq_mult_div [symmetric])
  then show ?thesis
    using word_loop_blocks [of "len mod 8" c m p "len div 8" "PREAMBLE key"]
    by (simp add: sip_aligned_def sip_hash_def tail_bytes_load load_le_bytes Let_def)
qed

lemma words_of: "word_loop c m p 1 s = absorb c (load_le m p 8) s"
  "word_loop c m p 2 s = absorb c (load_le m (p + 8) 8) (word_loop c m p 1 s)"
  "word_loop c m p 3 s = absorb c (load_le m (p + 16) 8) (word_loop c m p 2 s)"
  "word_loop c m p 4 s = absorb c (load_le m (p + 24) 8) (word_loop c m p 3 s)"
  by (simp_all add: numeral_eq_Suc del: load_le.simps absorb.simps)

lemma siphash_fixed:
  "siphash_1u32 (ucast (load_le m p 4)) key = sip_aligned 2 4 m p 4 key"
  "siphash_1u64 (load_le m p 8) key = sip_aligned 2 4 m p 8 key"
  "siphash_2u64 (load_le m p 8) (load_le m (p + 8) 8) key = sip_aligned 2 4 m p 16 key"
  "siphash_3u64 (load_le m p 8) (load_le m (p + 8) 8) (load_le m (p + 16) 8) key = sip_aligned 2 4 m p 24 key"
  "siphash_4u64 (load_le m p 8) (load_le m (p + 8) 8) (load_le m (p + 16) 8) (load_le m (p + 24) 8) key = sip_aligned 2 4 m p 32 key"
  by (simp_all add: siphash_1u32_def siphash_1u64_def siphash_2u64_def siphash_3u64_def siphash_4u64_def sip_aligned_def
      tail_bytes_load words_of load_low del: absorb.simps)

lemma hsiphash_fixed:
  "hsiphash_1u32 (ucast (load_le m p 4)) key = ucast (sip_aligned 1 3 m p 4 key)"
  "hsiphash_2u32 (ucast (load_le m p 4)) (ucast (load_le m (p + 4) 4)) key = ucast (sip_aligned 1 3 m p 8 key)"
  "hsiphash_3u32 (ucast (load_le m p 4)) (ucast (load_le m (p + 4) 4)) (ucast (load_le m (p + 8) 4)) key = ucast (sip_aligned 1 3 m p 12 key)"
  "hsiphash_4u32 (ucast (load_le m p 4)) (ucast (load_le m (p + 4) 4)) (ucast (load_le m (p + 8) 4)) (ucast (load_le m (p + 12) 4)) key
     = ucast (sip_aligned 1 3 m p 16 key)"
  using load_pair [of m p] load_pair [of m "p + 8"]
  by (simp_all add: hsiphash_1u32_def hsiphash_2u32_def hsiphash_3u32_def hsiphash_4u32_def sip_aligned_def
      tail_bytes_load words_of load_low add.commute [of _ p] del: absorb.simps)

section \<open>Properties\<close>

text \<open>
  (C35) However the length is known and the data aligned, the two hash functions give the hash of the bytes: the loop over words,
  the switch over the last bytes and each unrolled variant for a fixed number of words or half words agree with one reference
  that cuts the message into blocks of eight bytes and closes it with its length.
\<close>

theorem siphash_reference:
  "siphash const m data len key = sip_hash 2 4 key (map m [data..<data + len]) \<and>
   hsiphash const m data len key = ucast (sip_hash 1 3 key (map m [data..<data + len]))"
proof -
  have "siphash_dispatch const m data len key = sip_aligned 2 4 m data len key"
    unfolding siphash_dispatch_def siphash_aligned_def siphash_fixed by simp
  moreover have "hsiphash_dispatch const m data len key = ucast (sip_aligned 1 3 m data len key)"
    unfolding hsiphash_dispatch_def hsiphash_aligned_def Let_def mult_0_right add_0_right using hsiphash_fixed by simp
  ultimately show ?thesis
    by (simp add: siphash_def hsiphash_def siphash_unaligned_def hsiphash_unaligned_def flip: sip_aligned_hash)
qed

end
