(* ===== verification/Printf.thy ===== *)
theory Printf imports Printf_Number Siphash begin

text \<open>
  Formatted output, the rest of the compiled part of \<^verbatim>\<open>lib/src/vsprintf.c\<close>: strings, pointers, the decoding of a
  format and \<^verbatim>\<open>vsnprintf\<close>.  A format is the list of its characters up to the terminating NUL, which reads as 0; the decoder
  returns the rest of the format instead of the number of characters read.  The arguments are the list of the
  64-bit slots of the \<^verbatim>\<open>va_list\<close>; taking one from the empty list is a crash.  Strings and physical addresses that
  arguments point to are read from the memory that is being written.
\<close>

unbundle bit_operations_syntax

section \<open>Strings\<close>

definition move_right :: "mem \<Rightarrow> nat \<Rightarrow> nat \<Rightarrow> nat \<Rightarrow> nat \<Rightarrow> mem" where
  "move_right m buf fin len spaces =
     (if fin \<le> buf then m
      else
        let sz = fin - buf
        in if sz \<le> spaces then set_bytes m buf 32 sz
           else
             let m = (if len \<noteq> 0 then memmove m (buf + spaces) buf (if sz - spaces < len then sz - spaces else len) else m)
             in set_bytes m buf 32 spaces)"

fun space_loop :: "nat \<Rightarrow> nat \<Rightarrow> out \<Rightarrow> out" where
  "space_loop fin 0 out = out"
| "space_loop fin (Suc k) out = space_loop fin k (emit fin 32 out)"

definition widen_string :: "nat \<Rightarrow> nat \<Rightarrow> printf_spec \<Rightarrow> out \<Rightarrow> out" where
  "widen_string fin n spec = (\<lambda>(m, buf).
     if field_width spec \<le> int n then (m, buf)
     else
       let spaces = nat (field_width spec - int n)
       in if spec_flags spec AND LEFT = 0 then (move_right m (buf - n) fin n spaces, buf + spaces)
          else space_loop fin spaces (m, buf))"

text \<open>A string is in memory or a literal of the code.\<close>

datatype text_ptr = Mem nat | Lit "u8 list"

fun char_at :: "mem \<Rightarrow> text_ptr \<Rightarrow> u8" where
  "char_at m (Mem p) = m p"
| "char_at m (Lit []) = 0"
| "char_at m (Lit (c # s)) = c"

fun next_char :: "text_ptr \<Rightarrow> text_ptr" where
  "next_char (Mem p) = Mem (p + 1)"
| "next_char (Lit s) = Lit (tl s)"

function string_loop :: "nat \<Rightarrow> nat \<Rightarrow> text_ptr \<Rightarrow> nat \<Rightarrow> out \<Rightarrow> nat \<times> out" where
  "string_loop fin lim s len out =
     (if lim = 0 then (len, out)
      else
        let c = char_at (fst out) s
        in if c = 0 then (len, out) else string_loop fin (lim - 1) (next_char s) (len + 1) (emit fin c out))"
  by auto
termination by (relation "measure (\<lambda>(_, lim, _). lim)") auto

declare string_loop.simps [simp del]

text \<open>The counter is a 32-bit integer that runs down to zero; a precision of -1 allows \<open>2 ^ 32 - 1\<close> characters.\<close>

definition string_nocheck :: "nat \<Rightarrow> text_ptr \<Rightarrow> printf_spec \<Rightarrow> out \<Rightarrow> out" where
  "string_nocheck fin s spec out =
     (let lim = unat (of_int (precision spec) :: u32); (len, out) = string_loop fin lim s 0 out in widen_string fin len spec out)"

definition error_string :: "nat \<Rightarrow> u8 list \<Rightarrow> printf_spec \<Rightarrow> out \<Rightarrow> out" where
  "error_string fin s spec out =
     string_nocheck fin (Lit s) (if precision spec = - 1 then spec\<lparr>precision := 16\<rparr> else spec) out"

definition IS_ERR_VALUE :: "u64 \<Rightarrow> bool" where
  "IS_ERR_VALUE x \<longleftrightarrow> - 4095 \<le> x"

text \<open>``(null)'' and ``(efault)''.\<close>

definition check_pointer_msg :: "u64 \<Rightarrow> u8 list option" where
  "check_pointer_msg ptr =
     (if ptr = 0 then Some [40, 110, 117, 108, 108, 41]
      else if ptr < 4096 \<or> IS_ERR_VALUE ptr then Some [40, 101, 102, 97, 117, 108, 116, 41]
      else None)"

definition check_pointer :: "nat \<Rightarrow> u64 \<Rightarrow> printf_spec \<Rightarrow> out \<Rightarrow> out option" where
  "check_pointer fin ptr spec out = map_option (\<lambda>msg. error_string fin msg spec out) (check_pointer_msg ptr)"

definition string_print :: "nat \<Rightarrow> u64 \<Rightarrow> printf_spec \<Rightarrow> out \<Rightarrow> out" where
  "string_print fin s spec out =
     (case check_pointer fin s spec out of Some out \<Rightarrow> out | None \<Rightarrow> string_nocheck fin (Mem (unat s)) spec out)"

section \<open>Pointers\<close>

text \<open>The static variables that pointers are hashed with.\<close>

record ptr_state =
  debug_boot_weak_hash :: bool
  not_filled_random_ptr_key :: bool
  ptr_key :: siphash_key_t

definition pointer_string :: "nat \<Rightarrow> u64 \<Rightarrow> printf_spec \<Rightarrow> out \<Rightarrow> out" where
  "pointer_string fin ptr spec out =
     (let spec = spec\<lparr>spec_base := 16, spec_flags := spec_flags spec OR SMALL\<rparr>;
          spec = (if field_width spec = - 1 then spec\<lparr>field_width := 16, spec_flags := spec_flags spec OR ZEROPAD\<rparr> else spec)
      in number_print fin ptr spec out)"

definition hash_64 :: "u64 \<Rightarrow> nat \<Rightarrow> u32" where
  "hash_64 x bits = ucast (drop_bit (64 - bits) (x * 0x61C8864680B583EB))"

definition ptr_to_hashval :: "ptr_state \<Rightarrow> u64 \<Rightarrow> u64 option" where
  "ptr_to_hashval ps ptr =
     (if not_filled_random_ptr_key ps then None else Some (siphash_1u64 ptr (ptr_key ps) AND 0xffffffff))"

text \<open>``(____ptrval____)''.\<close>

definition ptrval :: "u8 list" where
  "ptrval = [40, 95, 95, 95, 95, 112, 116, 114, 118, 97, 108, 95, 95, 95, 95, 41]"

definition ptr_to_id :: "ptr_state \<Rightarrow> nat \<Rightarrow> u64 \<Rightarrow> printf_spec \<Rightarrow> out \<Rightarrow> out" where
  "ptr_to_id ps fin ptr spec out =
     (if ptr = 0 \<or> IS_ERR_VALUE ptr then pointer_string fin ptr spec out
      else if debug_boot_weak_hash ps then pointer_string fin (ucast (hash_64 ptr 32)) spec out
      else case ptr_to_hashval ps ptr of
        None \<Rightarrow> error_string fin ptrval (spec\<lparr>field_width := 16\<rparr>) out
      | Some hashval \<Rightarrow> pointer_string fin hashval spec out)"

text \<open>Both address types have 64 bits, so the two cases of \<^verbatim>\<open>fmt[1]\<close> read the same.\<close>

definition address_val :: "nat \<Rightarrow> u64 \<Rightarrow> printf_spec \<Rightarrow> out \<Rightarrow> out" where
  "address_val fin addr spec out =
     (case check_pointer fin addr spec out of
        Some out \<Rightarrow> out
      | None \<Rightarrow> special_hex_number fin (load_le (fst out) (unat addr) 8) 8 out)"

definition ch :: "u8 list \<Rightarrow> u8" where
  "ch fmt = (case fmt of [] \<Rightarrow> 0 | c # _ \<Rightarrow> c)"

definition pointer :: "ptr_state \<Rightarrow> u8 list \<Rightarrow> nat \<Rightarrow> u64 \<Rightarrow> printf_spec \<Rightarrow> out \<Rightarrow> out" where
  "pointer ps fmt fin ptr spec out =
     (if ch fmt = 97 then address_val fin ptr spec out else ptr_to_id ps fin ptr spec out)"

section \<open>The format\<close>

fun atoi_loop :: "u32 \<Rightarrow> u8 list \<Rightarrow> u32 \<times> u8 list" where
  "atoi_loop i [] = (i, [])"
| "atoi_loop i (c # s) = (let i = i * 10 + ucast c - 48 in if isdigit (ch s) then atoi_loop i s else (i, s))"

definition skip_atoi :: "u8 list \<Rightarrow> int \<times> u8 list" where
  "skip_atoi s = (case atoi_loop 0 s of (i, s) \<Rightarrow> (sint i, s))"

fun flag_loop :: "u8 \<Rightarrow> u8 list \<Rightarrow> u8 \<times> u8 list" where
  "flag_loop flags [] = (flags, [])"
| "flag_loop flags (c # fmt) =
     (if c = 45 then flag_loop (flags OR LEFT) fmt
      else if c = 43 then flag_loop (flags OR PLUS) fmt
      else if c = 32 then flag_loop (flags OR SPACE) fmt
      else if c = 35 then flag_loop (flags OR SPECIAL) fmt
      else if c = 48 then flag_loop (flags OR ZEROPAD) fmt
      else (flags, c # fmt))"

text \<open>Storing into the bit fields of 24 and 16 bits.\<close>

definition fit24 :: "int \<Rightarrow> int" where "fit24 x = signed_take_bit 23 x"
definition fit16 :: "int \<Rightarrow> int" where "fit16 x = signed_take_bit 15 x"

definition scan_qualifier :: "u8 list \<Rightarrow> u8 \<times> u8 list" where
  "scan_qualifier fmt =
     (let c = ch fmt
      in if c = 104 \<or> fast_tolower c = 108 \<or> c = 122 \<or> c = 116 then
           let fmt = tl fmt
           in if c = ch fmt then
                (if c = 108 then (76, tl fmt) else if c = 104 then (72, tl fmt) else (c, fmt))
              else (c, fmt)
         else (0, fmt))"

definition int_type :: "u8 \<Rightarrow> u8 \<Rightarrow> format_type" where
  "int_type qualifier flags =
     (let sgn = (flags AND SIGN \<noteq> 0)
      in if qualifier = 76 then FORMAT_TYPE_LONG_LONG
         else if qualifier = 108 then (if sgn then FORMAT_TYPE_LONG else FORMAT_TYPE_ULONG)
         else if qualifier = 122 then FORMAT_TYPE_SIZE_T
         else if qualifier = 116 then FORMAT_TYPE_PTRDIFF
         else if qualifier = 72 then (if sgn then FORMAT_TYPE_BYTE else FORMAT_TYPE_UBYTE)
         else if qualifier = 104 then (if sgn then FORMAT_TYPE_SHORT else FORMAT_TYPE_USHORT)
         else (if sgn then FORMAT_TYPE_INT else FORMAT_TYPE_UINT))"

definition decode_qualifier :: "u8 list \<Rightarrow> printf_spec \<Rightarrow> u8 list \<times> printf_spec" where
  "decode_qualifier fmt spec =
     (let (qualifier, fmt) = scan_qualifier fmt;
          spec = spec\<lparr>spec_base := 10\<rparr>;
          num = (\<lambda>spec. (tl fmt, spec\<lparr>spec_type := int_type qualifier (spec_flags spec)\<rparr>));
          c = ch fmt
      in if c = 99 then (tl fmt, spec\<lparr>spec_type := FORMAT_TYPE_CHAR\<rparr>)
         else if c = 115 then (tl fmt, spec\<lparr>spec_type := FORMAT_TYPE_STR\<rparr>)
         else if c = 112 then (tl fmt, spec\<lparr>spec_type := FORMAT_TYPE_PTR\<rparr>)
         else if c = 37 then (tl fmt, spec\<lparr>spec_type := FORMAT_TYPE_PERCENT_CHAR\<rparr>)
         else if c = 111 then num (spec\<lparr>spec_base := 8\<rparr>)
         else if c = 120 then num (spec\<lparr>spec_flags := spec_flags spec OR SMALL, spec_base := 16\<rparr>)
         else if c = 88 then num (spec\<lparr>spec_base := 16\<rparr>)
         else if c = 100 \<or> c = 105 then num (spec\<lparr>spec_flags := spec_flags spec OR SIGN\<rparr>)
         else if c = 117 then num spec
         else (fmt, spec\<lparr>spec_type := FORMAT_TYPE_INVALID\<rparr>))"

definition decode_precision :: "u8 list \<Rightarrow> printf_spec \<Rightarrow> u8 list \<times> printf_spec" where
  "decode_precision fmt spec =
     (let spec = spec\<lparr>precision := - 1\<rparr>
      in if ch fmt = 46 then
           let fmt = tl fmt
           in if isdigit (ch fmt) then
                (case skip_atoi fmt of (n, fmt) \<Rightarrow>
                   decode_qualifier fmt (spec\<lparr>precision := if fit16 n < 0 then 0 else fit16 n\<rparr>))
              else if ch fmt = 42 then (tl fmt, spec\<lparr>spec_type := FORMAT_TYPE_PRECISION\<rparr>)
              else decode_qualifier fmt spec
         else decode_qualifier fmt spec)"

definition format_decode :: "u8 list \<Rightarrow> printf_spec \<Rightarrow> u8 list \<times> printf_spec" where
  "format_decode fmt spec =
     (if spec_type spec = FORMAT_TYPE_WIDTH then
        decode_precision fmt
          ((if field_width spec < 0 then spec\<lparr>field_width := fit24 (- field_width spec), spec_flags := spec_flags spec OR LEFT\<rparr>
            else spec)\<lparr>spec_type := FORMAT_TYPE_NONE\<rparr>)
      else if spec_type spec = FORMAT_TYPE_PRECISION then
        decode_qualifier fmt
          ((if precision spec < 0 then spec\<lparr>precision := 0\<rparr> else spec)\<lparr>spec_type := FORMAT_TYPE_NONE\<rparr>)
      else
        let spec = spec\<lparr>spec_type := FORMAT_TYPE_NONE\<rparr>; start = fmt; fmt = dropWhile (\<lambda>c. c \<noteq> 37) fmt
        in if fmt \<noteq> start \<or> fmt = [] then (fmt, spec)
           else
             let (flags, fmt) = flag_loop 0 (tl fmt); spec = spec\<lparr>spec_flags := flags, field_width := - 1\<rparr>
             in if isdigit (ch fmt) then
                  (case skip_atoi fmt of (n, fmt) \<Rightarrow> decode_precision fmt (spec\<lparr>field_width := fit24 n\<rparr>))
                else if ch fmt = 42 then (tl fmt, spec\<lparr>spec_type := FORMAT_TYPE_WIDTH\<rparr>)
                else decode_precision fmt spec)"

definition set_field_width :: "int \<Rightarrow> printf_spec \<Rightarrow> printf_spec" where
  "set_field_width width spec =
     spec\<lparr>field_width := if fit24 width \<noteq> width then max (- (2 ^ 23 - 1)) (min width (2 ^ 23 - 1)) else fit24 width\<rparr>"

definition set_precision :: "int \<Rightarrow> printf_spec \<Rightarrow> printf_spec" where
  "set_precision prec spec = spec\<lparr>precision := if fit16 prec \<noteq> prec then max 0 (min prec (2 ^ 15 - 1)) else fit16 prec\<rparr>"

subsection \<open>Every step of the decoder reads something\<close>

lemma atoi_loop_shorter: "length (snd (atoi_loop i s)) \<le> length s"
  by (induction i s rule: atoi_loop.induct) (auto simp: Let_def)

lemma skip_atoi_shorter: "skip_atoi s = (n, t) \<Longrightarrow> length t \<le> length s"
  using atoi_loop_shorter [of 0 s] by (auto simp: skip_atoi_def split: prod.splits)

lemma flag_loop_shorter: "flag_loop f s = (g, t) \<Longrightarrow> length t \<le> length s"
proof (induction f s rule: flag_loop.induct)
  case (2 flags c fmt)
  then show ?case by (auto split: if_splits)
qed simp

lemma scan_qualifier_shorter: "scan_qualifier s = (q, t) \<Longrightarrow> length t \<le> length s"
  by (auto simp: scan_qualifier_def Let_def split: if_splits)

lemma ch_Nil [simp]: "ch [] = 0"
  by (simp add: ch_def)

lemma ch_Cons [simp]: "ch (c # s) = c"
  by (simp add: ch_def)

lemma decode_qualifier_shorter:
  assumes "decode_qualifier fmt spec = (t, spec')" and "spec_type spec' \<noteq> FORMAT_TYPE_INVALID"
  shows "length t < length fmt"
proof -
  obtain q r where q: "scan_qualifier fmt = (q, r)" by fastforce
  then have "length r \<le> length fmt" by (rule scan_qualifier_shorter)
  moreover have "t = tl r \<and> r \<noteq> []" using assms q by (cases r) (auto simp: decode_qualifier_def Let_def split: if_splits)
  ultimately show ?thesis by (cases r) auto
qed

lemma decode_precision_shorter:
  assumes "decode_precision fmt spec = (t, spec')" and "spec_type spec' \<noteq> FORMAT_TYPE_INVALID"
  shows "length t < length fmt"
proof (cases "ch fmt = 46")
  case True
  then obtain r where r: "fmt = 46 # r" by (cases fmt) auto
  consider n u where "skip_atoi r = (n, u)" "\<exists>s. decode_qualifier u s = (t, spec')" | "r \<noteq> [] \<and> t = tl r" | "\<exists>s. decode_qualifier r s = (t, spec')"
    using assms(1) r by (cases r) (auto simp: decode_precision_def Let_def split: if_splits prod.splits)
  then show ?thesis
  proof cases
    case 1
    then show ?thesis using skip_atoi_shorter [OF 1(1)] decode_qualifier_shorter [OF _ assms(2)] r by fastforce
  next
    case 2
    then show ?thesis using r by simp
  next
    case 3
    then show ?thesis using decode_qualifier_shorter [OF _ assms(2)] r by fastforce
  qed
next
  case False
  then show ?thesis using assms decode_qualifier_shorter by (auto simp: decode_precision_def Let_def)
qed

lemma format_decode_shorter:
  assumes "format_decode fmt spec = (t, spec')" and "spec_type spec' \<noteq> FORMAT_TYPE_INVALID" and "fmt \<noteq> []"
  shows "length t < length fmt"
proof -
  define r where "r = dropWhile (\<lambda>c. c \<noteq> 37) fmt"
  have le: "length r \<le> length fmt" unfolding r_def by (rule length_dropWhile_le)
  consider "\<exists>s. decode_precision fmt s = (t, spec')" | "\<exists>s. decode_qualifier fmt s = (t, spec')" | "t = r" "r \<noteq> fmt \<or> r = []"
    | f u where "r = fmt" "flag_loop 0 (tl r) = (f, u)" "(\<exists>n v s. skip_atoi u = (n, v) \<and> decode_precision v s = (t, spec')) \<or> t = tl u \<or> (\<exists>s. decode_precision u s = (t, spec'))"
    using assms(1) unfolding format_decode_def r_def [symmetric] Let_def
    by (simp split: if_splits prod.splits) (metis+)
  then show ?thesis
  proof cases
    case 1
    then show ?thesis using decode_precision_shorter assms(2) by blast
  next
    case 2
    then show ?thesis using decode_qualifier_shorter assms(2) by blast
  next
    case 3
    have "length r \<noteq> length fmt" if "r \<noteq> fmt"
      using takeWhile_dropWhile_id [of "\<lambda>c. c \<noteq> 37" fmt] that unfolding r_def by (metis append_eq_append_conv append_Nil)
    then show ?thesis using 3 le assms(3) by (cases "r = fmt") auto
  next
    case 4
    then have "length u \<le> length fmt - 1" using flag_loop_shorter [OF 4(2)] by simp
    moreover have "0 < length fmt" using assms(3) by simp
    ultimately have u: "length u < length fmt" by linarith
    from 4(3) show ?thesis
    proof (elim disjE exE conjE)
      fix n v s assume "skip_atoi u = (n, v)" "decode_precision v s = (t, spec')"
      then show ?thesis using skip_atoi_shorter decode_precision_shorter [OF _ assms(2)] u by (meson le_less_trans less_le_trans less_imp_le)
    next
      assume "t = tl u"
      then show ?thesis using u by simp
    next
      fix s assume "decode_precision u s = (t, spec')"
      then show ?thesis using decode_precision_shorter [OF _ assms(2)] u by (meson less_trans)
    qed
  qed
qed

section \<open>Formatted output\<close>

fun write_bytes :: "mem \<Rightarrow> nat \<Rightarrow> u8 list \<Rightarrow> mem" where
  "write_bytes m p [] = m"
| "write_bytes m p (c # cs) = write_bytes (m(p := c)) (p + 1) cs"

definition copy_literal :: "nat \<Rightarrow> u8 list \<Rightarrow> out \<Rightarrow> out" where
  "copy_literal fin lit = (\<lambda>(m, str). (if str < fin then write_bytes m str (take (fin - str) lit) else m, str + length lit))"

lemma fit24_less: "fit24 x < 2 ^ 23"
  unfolding fit24_def by (rule signed_take_bit_int_less_exp)

lemma fit24_self: "- (2 ^ 23) \<le> x \<Longrightarrow> x < 2 ^ 23 \<Longrightarrow> fit24 x = x"
  unfolding fit24_def by (rule signed_take_bit_int_eq_self)

text \<open>The width is decremented in its bit field of 24 bits.\<close>

function char_pad :: "nat \<Rightarrow> int \<Rightarrow> out \<Rightarrow> out \<times> int" where
  "char_pad fin fw out = (let fw = fit24 (fw - 1) in if 0 < fw then char_pad fin fw (emit fin 32 out) else (out, fw))"
  by auto
termination
proof (relation "measure (\<lambda>(_, fw, _). if 0 < fw \<and> fw < 2 ^ 23 then nat fw else 2 ^ 23)")
  fix fin :: nat and fw x :: int and out :: out
  assume x: "x = fit24 (fw - 1)" "0 < x"
  then have "x < 2 ^ 23" using fit24_less by simp
  moreover have "x = fw - 1" if "0 < fw" "fw < 2 ^ 23" using that x(1) fit24_self [of "fw - 1"] by simp
  ultimately show "((fin, x, emit fin 32 out), (fin, fw, out)) \<in> measure (\<lambda>(_, fw, _). if 0 < fw \<and> fw < 2 ^ 23 then nat fw else 2 ^ 23)"
    using x(2) by (auto simp: nat_less_iff)
qed simp

declare char_pad.simps [simp del]

definition char_print :: "nat \<Rightarrow> u8 \<Rightarrow> printf_spec \<Rightarrow> out \<Rightarrow> out \<times> int" where
  "char_print fin c spec out =
     (let (out, fw) = (if spec_flags spec AND LEFT = 0 then char_pad fin (field_width spec) out else (out, field_width spec));
          out = emit fin c out
      in char_pad fin fw out)"

definition arg_int :: "u64 \<Rightarrow> int" where
  "arg_int a = sint (ucast a :: u32)"

definition int_arg :: "format_type \<Rightarrow> u64 \<Rightarrow> u64" where
  "int_arg type a =
     (if type = FORMAT_TYPE_LONG_LONG \<or> type = FORMAT_TYPE_ULONG \<or> type = FORMAT_TYPE_LONG \<or> type = FORMAT_TYPE_SIZE_T \<or>
         type = FORMAT_TYPE_PTRDIFF then a
      else if type = FORMAT_TYPE_UBYTE then ucast (ucast a :: u8)
      else if type = FORMAT_TYPE_BYTE then scast (ucast a :: u8)
      else if type = FORMAT_TYPE_USHORT then ucast (ucast a :: u16)
      else if type = FORMAT_TYPE_SHORT then scast (ucast a :: u16)
      else if type = FORMAT_TYPE_INT then scast (ucast a :: u32)
      else ucast (ucast a :: u32))"

function vs_loop :: "ptr_state \<Rightarrow> nat \<Rightarrow> u8 list \<Rightarrow> printf_spec \<Rightarrow> u64 list \<Rightarrow> out \<Rightarrow> out run" where
  "vs_loop ps fin fmt spec args out =
     (if fmt = [] then Inr out
      else
        let old_fmt = fmt; (fmt, spec) = format_decode old_fmt spec; type = spec_type spec
        in if type = FORMAT_TYPE_NONE then
             vs_loop ps fin fmt spec args (copy_literal fin (take (length old_fmt - length fmt) old_fmt) out)
           else if type = FORMAT_TYPE_PERCENT_CHAR then vs_loop ps fin fmt spec args (emit fin 37 out)
           else if type = FORMAT_TYPE_INVALID then Inr out
           else case args of
             [] \<Rightarrow> Inl Crash
           | a # args \<Rightarrow>
               if type = FORMAT_TYPE_WIDTH then vs_loop ps fin fmt (set_field_width (arg_int a) spec) args out
               else if type = FORMAT_TYPE_PRECISION then vs_loop ps fin fmt (set_precision (arg_int a) spec) args out
               else if type = FORMAT_TYPE_CHAR then
                 (case char_print fin (ucast a) spec out of (out, fw) \<Rightarrow> vs_loop ps fin fmt (spec\<lparr>field_width := fw\<rparr>) args out)
               else if type = FORMAT_TYPE_STR then vs_loop ps fin fmt spec args (string_print fin a spec out)
               else if type = FORMAT_TYPE_PTR then vs_loop ps fin (dropWhile isalnum fmt) spec args (pointer ps fmt fin a spec out)
               else vs_loop ps fin fmt spec args (number_print fin (int_arg type a) spec out))"
  by pat_completeness auto
termination
  by (relation "measure (\<lambda>(_, _, fmt, _). length fmt)")
    (auto intro: format_decode_shorter [OF sym] le_less_trans [OF length_dropWhile_le format_decode_shorter [OF sym]])

declare vs_loop.simps [simp del]

definition vsnprintf :: "ptr_state \<Rightarrow> mem \<Rightarrow> nat \<Rightarrow> nat \<Rightarrow> u8 list \<Rightarrow> u64 list \<Rightarrow> (mem \<times> int) run" where
  "vsnprintf ps m buf sz fmt args =
     (if 2 ^ 31 - 1 < sz then Inr (m, 0)
      else
        let fin = buf + sz;
            (fin, sz) = (if 2 ^ 64 \<le> fin then (2 ^ 64 - 1, 2 ^ 64 - 1 - buf) else (fin, sz));
            spec = \<lparr>spec_type = FORMAT_TYPE_NONE, field_width = 0, spec_flags = 0, spec_base = 0, precision = 0\<rparr>
        in bind_run (vs_loop ps fin fmt spec args (m, buf)) (\<lambda>(m, str).
             Inr (if 0 < sz then (if str < fin then m(str := 0) else m(fin - 1 := 0)) else m, sint (of_nat (str - buf) :: u32))))"

text \<open>The result is compared with the size as an unsigned number.\<close>

definition vscnprintf :: "ptr_state \<Rightarrow> mem \<Rightarrow> nat \<Rightarrow> nat \<Rightarrow> u8 list \<Rightarrow> u64 list \<Rightarrow> (mem \<times> int) run" where
  "vscnprintf ps m buf sz fmt args =
     bind_run (vsnprintf ps m buf sz fmt args) (\<lambda>(m, i).
       Inr (m, if unat (of_int i :: u64) < sz then i else if sz \<noteq> 0 then int sz - 1 else 0))"

definition snprintf :: "ptr_state \<Rightarrow> mem \<Rightarrow> nat \<Rightarrow> nat \<Rightarrow> u8 list \<Rightarrow> u64 list \<Rightarrow> (mem \<times> int) run" where
  "snprintf ps m buf sz fmt args = vsnprintf ps m buf sz fmt args"

definition scnprintf :: "ptr_state \<Rightarrow> mem \<Rightarrow> nat \<Rightarrow> nat \<Rightarrow> u8 list \<Rightarrow> u64 list \<Rightarrow> (mem \<times> int) run" where
  "scnprintf ps m buf sz fmt args = vscnprintf ps m buf sz fmt args"

definition vsprintf :: "ptr_state \<Rightarrow> mem \<Rightarrow> nat \<Rightarrow> u8 list \<Rightarrow> u64 list \<Rightarrow> (mem \<times> int) run" where
  "vsprintf ps m buf fmt args = vsnprintf ps m buf (2 ^ 31 - 1) fmt args"

definition sprintf :: "ptr_state \<Rightarrow> mem \<Rightarrow> nat \<Rightarrow> u8 list \<Rightarrow> u64 list \<Rightarrow> (mem \<times> int) run" where
  "sprintf ps m buf fmt args = vsnprintf ps m buf (2 ^ 31 - 1) fmt args"

end
