(* ===== verification/Printf_Spec.thy ===== *)
theory Printf_Spec imports Printf begin

text \<open>
  What formatted output prints.  For every conversion there is a function that gives its text as a list of bytes,
  without a buffer; \<open>vs_text\<close> composes them along the format.  The lemmas show that the functions of \<open>Printf\<close>
  emit exactly this text, as long as what they read is not in the part of the buffer that they write.
\<close>

section \<open>Strings\<close>

fun addr_of :: "text_ptr \<Rightarrow> nat set" where
  "addr_of (Mem p) = {p}"
| "addr_of (Lit s) = {}"

text \<open>The characters of a string up to the NUL or the limit, and the addresses read for them.\<close>

function text_of :: "mem \<Rightarrow> nat \<Rightarrow> text_ptr \<Rightarrow> u8 list" where
  "text_of m lim s =
     (if lim = 0 then [] else let c = char_at m s in if c = 0 then [] else c # text_of m (lim - 1) (next_char s))"
  by auto
termination by (relation "measure (\<lambda>(_, lim, _). lim)") auto

function reads_of :: "mem \<Rightarrow> nat \<Rightarrow> text_ptr \<Rightarrow> nat set" where
  "reads_of m lim s =
     (if lim = 0 then {} else addr_of s \<union> (if char_at m s = 0 then {} else reads_of m (lim - 1) (next_char s)))"
  by auto
termination by (relation "measure (\<lambda>(_, lim, _). lim)") auto

declare text_of.simps [simp del] reads_of.simps [simp del]

lemma char_at_cong: "\<forall>a \<in> addr_of s. m' a = m a \<Longrightarrow> char_at m' s = char_at m s"
  by (cases "(m, s)" rule: char_at.cases) auto

lemma text_of_cong: "\<forall>a \<in> reads_of m lim s. m' a = m a \<Longrightarrow> text_of m' lim s = text_of m lim s \<and> reads_of m' lim s = reads_of m lim s"
proof (induction m lim s rule: text_of.induct)
  case (1 m lim s)
  show ?case
  proof (cases "lim = 0")
    case True
    then show ?thesis by (simp add: text_of.simps [of _ 0] reads_of.simps [of _ 0])
  next
    case False
    have r: "reads_of m lim s = addr_of s \<union> (if char_at m s = 0 then {} else reads_of m (lim - 1) (next_char s))"
      using False by (subst reads_of.simps) simp
    then have c: "char_at m' s = char_at m s" using "1.prems" by (intro char_at_cong) simp
    have "char_at m s \<noteq> 0 \<Longrightarrow> text_of m' (lim - 1) (next_char s) = text_of m (lim - 1) (next_char s) \<and>
        reads_of m' (lim - 1) (next_char s) = reads_of m (lim - 1) (next_char s)"
      using "1.IH" [OF False refl] "1.prems" r by simp
    then show ?thesis using False c
      by (subst text_of.simps, subst (2) text_of.simps, subst reads_of.simps, subst (2) reads_of.simps) simp
  qed
qed

lemma string_loop_emits:
  "reads_of m lim s \<inter> {buf..<fin} = {} \<Longrightarrow>
     string_loop fin lim s len (m, buf) = (len + length (text_of m lim s), fold (emit fin) (text_of m lim s) (m, buf))"
proof (induction lim arbitrary: m buf s len)
  case 0
  then show ?case by (subst string_loop.simps, subst (1 2) text_of.simps) simp
next
  case (Suc lim)
  show ?case
  proof (cases "char_at m s = 0")
    case True
    then show ?thesis by (subst string_loop.simps, subst (1 2) text_of.simps) simp
  next
    case False
    let ?m = "if buf < fin then m(buf := char_at m s) else m"
    have r: "reads_of m lim (next_char s) \<subseteq> reads_of m (Suc lim) s" using False by (subst (2) reads_of.simps) simp
    have "\<forall>a \<in> reads_of m lim (next_char s). ?m a = m a" using r Suc.prems by auto
    from text_of_cong [OF this] have t: "text_of ?m lim (next_char s) = text_of m lim (next_char s)"
      "reads_of ?m lim (next_char s) = reads_of m lim (next_char s)" by blast+
    have "reads_of ?m lim (next_char s) \<inter> {buf + 1..<fin} = {}" unfolding t(2) using r Suc.prems by auto
    from Suc.IH [OF this, of "len + 1"] have IH: "string_loop fin lim (next_char s) (len + 1) (?m, buf + 1) =
        (len + 1 + length (text_of m lim (next_char s)), fold (emit fin) (text_of m lim (next_char s)) (?m, buf + 1))"
      unfolding t(1) .
    have x: "text_of m (Suc lim) s = char_at m s # text_of m lim (next_char s)" using False by (subst text_of.simps) simp
    have "string_loop fin (Suc lim) s len (m, buf) = string_loop fin lim (next_char s) (len + 1) (?m, buf + 1)"
      using False by (subst string_loop.simps) (simp add: emit_pair)
    then show ?thesis unfolding x IH by (simp add: emit_pair)
  qed
qed

lemma space_loop_emits: "space_loop fin k out = fold (emit fin) (replicate k 32) out"
  by (induction k arbitrary: out) simp_all

lemma memmove_eq: "memmove m dest src n = (\<lambda>a. if dest \<le> a \<and> a < dest + n then m (src + (a - dest)) else m a)"
  unfolding memmove_def by (cases "dest \<le> src") (simp_all add: copy_bytes_eq copy_down_eq)

lemma move_right_emits:
  assumes "fold (emit fin) t (m, buf) = (m1, e)"
  shows "move_right m1 (e - length t) fin (length t) k = fst (fold (emit fin) (replicate k 32 @ t) (m, buf))"
proof -
  from assms have m1: "m1 = (\<lambda>a. if buf \<le> a \<and> a < buf + length t \<and> a < fin then t ! (a - buf) else m a)" and e: "e = buf + length t"
    by (auto simp: emits_eq)
  consider "fin \<le> buf" | "buf < fin" "fin - buf \<le> k" | "buf < fin" "k < fin - buf" by linarith
  then show ?thesis
  proof cases
    case 1
    then show ?thesis unfolding e by (auto simp: move_right_def m1 emits_eq fun_eq_iff simp del: fold_append)
  next
    case 2
    then show ?thesis unfolding e
      by (auto simp: move_right_def m1 emits_eq fun_eq_iff set_bytes_eq nth_append simp del: fold_append)
  next
    case 3
    define l where "l = (if fin - buf - k < length t then fin - buf - k else length t)"
    have l: "l \<le> length t" "buf + k + l \<le> fin" "l = length t \<or> buf + k + l = fin" using 3 by (auto simp: l_def)
    have mm: "(if length t \<noteq> 0 then memmove m1 (buf + k) buf l else m1) = memmove m1 (buf + k) buf l"
      by (cases t) (auto simp: memmove_eq fun_eq_iff l_def)
    have "move_right m1 buf fin (length t) k = set_bytes (memmove m1 (buf + k) buf l) buf 32 k"
      unfolding move_right_def Let_def l_def [symmetric] mm using 3 by simp
    then have mr: "move_right m1 buf fin (length t) k x =
        (if buf \<le> x \<and> x < buf + k then 32 else if buf + k \<le> x \<and> x < buf + k + l then m1 (x - k) else m1 x)" for x
      by (simp add: set_bytes_eq memmove_eq)
    have "move_right m1 buf fin (length t) k x = (if buf \<le> x \<and> x < buf + (k + length t) \<and> x < fin then (replicate k 32 @ t) ! (x - buf) else m x)" for x
    proof -
      consider "x < buf \<or> fin \<le> x" | "buf \<le> x" "x < buf + k" "x < fin" | "buf + k \<le> x" "x < buf + k + l" | "buf + k + length t \<le> x" "x < fin"
        using l by linarith
      then show ?thesis
      proof cases
        case 1
        then have "\<not> (buf \<le> x \<and> x < buf + k)" "\<not> (buf + k \<le> x \<and> x < buf + k + l)" "\<not> (buf \<le> x \<and> x < fin)" using l 3 by linarith+
        then show ?thesis unfolding mr by (auto simp: m1)
      next
        case 2
        then have "x - buf < k" by linarith
        then show ?thesis unfolding mr using 2 by (simp add: nth_append)
      next
        case a: 3
        then have "buf \<le> x - k" "x - k < buf + length t" "x - k < fin" "\<not> x < buf + k" "x < fin" "\<not> x - buf < k" using l by linarith+
        then show ?thesis unfolding mr using a l(1) by (simp add: m1 nth_append add.commute)
      next
        case 4
        then have "\<not> x < buf + k" "\<not> x < buf + k + l" "\<not> x < buf + length t" "\<not> x < buf + (k + length t)" using l by linarith+
        then show ?thesis unfolding mr by (simp add: m1)
      qed
    qed
    then show ?thesis unfolding e emits_eq fst_conv by (intro ext) simp
  qed
qed

text \<open>The text of a string conversion: the characters, padded to the width.\<close>

definition widened :: "u8 list \<Rightarrow> printf_spec \<Rightarrow> u8 list" where
  "widened t spec = (let sp = replicate (nat (field_width spec) - length t) 32 in if has LEFT spec then t @ sp else sp @ t)"

lemma widen_string_emits: "widen_string fin (length t) spec (fold (emit fin) t (m, buf)) = fold (emit fin) (widened t spec) (m, buf)"
proof -
  obtain m1 e where me: "fold (emit fin) t (m, buf) = (m1, e)" by fastforce
  have n: "nat (field_width spec - int (length t)) = nat (field_width spec) - length t" by simp
  show ?thesis
  proof (cases "field_width spec \<le> int (length t) \<or> has LEFT spec")
    case True
    then show ?thesis using space_loop_emits [of fin "nat (field_width spec) - length t" "(m1, e)"]
      by (auto simp: widen_string_def me widened_def has_def n Let_def)
  next
    case False
    then have "e + nat (field_width spec - int (length t)) = snd (fold (emit fin) (widened t spec) (m, buf))"
      using me by (auto simp: emits_eq widened_def n simp del: fold_append)
    then show ?thesis using False move_right_emits [OF me, of "nat (field_width spec) - length t"]
      by (auto simp: widen_string_def me widened_def has_def n prod_eq_iff simp del: fold_append)
  qed
qed

definition string_limit :: "printf_spec \<Rightarrow> nat" where
  "string_limit spec = unat (of_int (precision spec) :: u32)"

lemma string_nocheck_emits:
  assumes "reads_of m (string_limit spec) s \<inter> {buf..<fin} = {}"
  shows "string_nocheck fin s spec (m, buf) = fold (emit fin) (widened (text_of m (string_limit spec) s) spec) (m, buf)"
  using string_loop_emits [OF assms, of 0]
  by (simp add: string_nocheck_def string_limit_def Let_def widen_string_emits)

lemma reads_of_Lit [simp]: "reads_of m lim (Lit s) = {}"
  by (induction lim arbitrary: s) (simp_all add: reads_of.simps)

lemma text_of_Lit: "text_of m lim (Lit s) = take lim (takeWhile (\<lambda>c. c \<noteq> 0) s)"
proof (induction lim arbitrary: s)
  case (Suc lim)
  then show ?case by (cases s) (simp_all add: text_of.simps [of m "Suc lim"])
qed (simp add: text_of.simps)

definition error_text :: "u8 list \<Rightarrow> printf_spec \<Rightarrow> u8 list" where
  "error_text s spec =
     (let spec = (if precision spec = - 1 then spec\<lparr>precision := 16\<rparr> else spec)
      in widened (take (string_limit spec) (takeWhile (\<lambda>c. c \<noteq> 0) s)) spec)"

lemma error_string_emits: "error_string fin s spec (m, buf) = fold (emit fin) (error_text s spec) (m, buf)"
  unfolding error_string_def error_text_def Let_def by (subst string_nocheck_emits) (simp_all add: text_of_Lit)

definition string_text :: "mem \<Rightarrow> u64 \<Rightarrow> printf_spec \<Rightarrow> u8 list" where
  "string_text m s spec =
     (case check_pointer_msg s of
        Some msg \<Rightarrow> error_text msg spec
      | None \<Rightarrow> widened (text_of m (string_limit spec) (Mem (unat s))) spec)"

definition string_reads :: "mem \<Rightarrow> u64 \<Rightarrow> printf_spec \<Rightarrow> nat set" where
  "string_reads m s spec = (if check_pointer_msg s = None then reads_of m (string_limit spec) (Mem (unat s)) else {})"

lemma string_print_emits:
  "string_reads m s spec \<inter> {buf..<fin} = {} \<Longrightarrow> string_print fin s spec (m, buf) = fold (emit fin) (string_text m s spec) (m, buf)"
  by (auto simp: string_print_def check_pointer_def string_text_def string_reads_def error_string_emits string_nocheck_emits split: option.splits)

section \<open>Pointers\<close>

definition pointer_spec :: "printf_spec \<Rightarrow> printf_spec" where
  "pointer_spec spec =
     (let spec = spec\<lparr>spec_base := 16, spec_flags := spec_flags spec OR SMALL\<rparr>
      in if field_width spec = - 1 then spec\<lparr>field_width := 16, spec_flags := spec_flags spec OR ZEROPAD\<rparr> else spec)"

lemma pointer_string_emits: "pointer_string fin ptr spec out = fold (emit fin) (number_text ptr (pointer_spec spec)) out"
  unfolding pointer_string_def Let_def pointer_spec_def [symmetric, unfolded Let_def]
  by (rule number_print_emits) (simp add: pointer_spec_def Let_def)

definition ptr_id_text :: "ptr_state \<Rightarrow> u64 \<Rightarrow> printf_spec \<Rightarrow> u8 list" where
  "ptr_id_text ps ptr spec =
     (if ptr = 0 \<or> IS_ERR_VALUE ptr then number_text ptr (pointer_spec spec)
      else if debug_boot_weak_hash ps then number_text (ucast (hash_64 ptr 32)) (pointer_spec spec)
      else case ptr_to_hashval ps ptr of
        None \<Rightarrow> error_text ptrval (spec\<lparr>field_width := 16\<rparr>)
      | Some hashval \<Rightarrow> number_text hashval (pointer_spec spec))"

definition address_text :: "mem \<Rightarrow> u64 \<Rightarrow> printf_spec \<Rightarrow> u8 list" where
  "address_text m addr spec =
     (case check_pointer_msg addr of
        Some msg \<Rightarrow> error_text msg spec
      | None \<Rightarrow> number_text (load_le m (unat addr) 8)
          \<lparr>spec_type = FORMAT_TYPE_PTR, field_width = 18, spec_flags = SPECIAL OR SMALL OR ZEROPAD, spec_base = 16, precision = - 1\<rparr>)"

definition pointer_text :: "ptr_state \<Rightarrow> mem \<Rightarrow> u8 list \<Rightarrow> u64 \<Rightarrow> printf_spec \<Rightarrow> u8 list" where
  "pointer_text ps m fmt ptr spec = (if ch fmt = 97 then address_text m ptr spec else ptr_id_text ps ptr spec)"

definition pointer_reads :: "u8 list \<Rightarrow> u64 \<Rightarrow> nat set" where
  "pointer_reads fmt ptr = (if ch fmt = 97 \<and> check_pointer_msg ptr = None then {unat ptr..<unat ptr + 8} else {})"

lemma pointer_emits: "pointer ps fmt fin ptr spec (m, buf) = fold (emit fin) (pointer_text ps m fmt ptr spec) (m, buf)"
  by (simp add: pointer_def pointer_text_def address_val_def address_text_def ptr_to_id_def ptr_id_text_def check_pointer_def
      error_string_emits pointer_string_emits special_hex_number_emits split: option.splits)

section \<open>Characters and literal text\<close>

lemma write_bytes_eq: "write_bytes m p cs = (\<lambda>a. if p \<le> a \<and> a < p + length cs then cs ! (a - p) else m a)"
proof (induction cs arbitrary: m p)
  case (Cons c cs)
  show ?case by (auto simp: Cons.IH fun_eq_iff nth_Cons')
qed (auto simp: fun_eq_iff)

lemma copy_literal_emits: "copy_literal fin lit (m, buf) = fold (emit fin) lit (m, buf)"
  by (auto simp: copy_literal_def emits_eq write_bytes_eq fun_eq_iff)

definition pad_width :: "int \<Rightarrow> int" where
  "pad_width fw = (if 0 < fit24 (fw - 1) then 0 else fit24 (fw - 1))"

lemma char_pad_emits: "char_pad fin fw out = (fold (emit fin) (replicate (nat (fit24 (fw - 1))) 32) out, pad_width fw)"
proof (induction fin fw out rule: char_pad.induct)
  case (1 fin fw out)
  define w where "w = fit24 (fw - 1)"
  show ?case
  proof (cases "0 < w")
    case True
    have "w < 2 ^ 23" unfolding w_def by (rule fit24_less)
    then have s: "fit24 (w - 1) = w - 1" using True by (intro fit24_self) simp_all
    then have "char_pad fin w (emit fin 32 out) = (fold (emit fin) (replicate (nat (w - 1)) 32) (emit fin 32 out), 0)"
      using 1 [OF w_def True] True by (simp add: pad_width_def)
    moreover have "nat w = Suc (nat (w - 1))" using True by simp
    ultimately show ?thesis using True by (subst char_pad.simps) (simp add: pad_width_def flip: w_def)
  next
    case False
    then show ?thesis by (subst char_pad.simps) (simp add: pad_width_def flip: w_def)
  qed
qed

definition char_text :: "u8 \<Rightarrow> printf_spec \<Rightarrow> u8 list \<times> int" where
  "char_text c spec =
     (let (t, fw) = (if has LEFT spec then ([], field_width spec)
                     else (replicate (nat (fit24 (field_width spec - 1))) 32, pad_width (field_width spec)))
      in (t @ c # replicate (nat (fit24 (fw - 1))) 32, pad_width fw))"

lemma char_print_emits: "char_print fin c spec out = (fold (emit fin) (fst (char_text c spec)) out, snd (char_text c spec))"
  by (simp add: char_print_def char_text_def char_pad_emits has_def Let_def)

section \<open>The text of a format\<close>

lemma decode_qualifier_base: "spec_base (snd (decode_qualifier fmt spec)) \<in> {8, 10, 16}"
  by (simp add: decode_qualifier_def Let_def split: prod.split)

text \<open>The base is set whenever something is going to be printed.\<close>

definition base_set :: "u8 list \<times> printf_spec \<Rightarrow> bool" where
  "base_set r \<longleftrightarrow> spec_type (snd r) \<in> {FORMAT_TYPE_NONE, FORMAT_TYPE_WIDTH, FORMAT_TYPE_PRECISION} \<or> spec_base (snd r) \<in> {8, 10, 16}"

lemma base_set_pair: "spec_type s \<in> {FORMAT_TYPE_NONE, FORMAT_TYPE_WIDTH, FORMAT_TYPE_PRECISION} \<Longrightarrow> base_set (f, s)"
  by (simp add: base_set_def)

lemma base_set_qualifier [simp]: "base_set (decode_qualifier f s)"
  using decode_qualifier_base [of f s] by (simp add: base_set_def)

lemma base_set_precision [simp]: "base_set (decode_precision f s)"
proof -
  obtain n u where "skip_atoi (tl f) = (n, u)" by fastforce
  then show ?thesis unfolding decode_precision_def Let_def by (simp add: base_set_pair)
qed

lemma base_set_if: "base_set a \<Longrightarrow> base_set b \<Longrightarrow> base_set (if P then a else b)"
  by simp

lemma base_set_format: "base_set (format_decode fmt spec)"
proof -
  obtain g r where g: "flag_loop 0 (tl (dropWhile (\<lambda>c. c \<noteq> 37) fmt)) = (g, r)" by (rule prod.exhaust)
  obtain n u where u: "skip_atoi r = (n, u)" by (rule prod.exhaust)
  show ?thesis unfolding format_decode_def Let_def g u prod.case
    by (intro base_set_if base_set_pair base_set_qualifier base_set_precision) simp_all
qed

lemma format_decode_base:
  assumes "format_decode fmt spec = (t, spec')"
    and "spec_type spec' \<notin> {FORMAT_TYPE_NONE, FORMAT_TYPE_WIDTH, FORMAT_TYPE_PRECISION}"
  shows "spec_base spec' \<in> {8, 10, 16}"
  using base_set_format [of fmt spec] assms by (simp add: base_set_def)

function vs_text :: "ptr_state \<Rightarrow> mem \<Rightarrow> u8 list \<Rightarrow> printf_spec \<Rightarrow> u64 list \<Rightarrow> u8 list run" where
  "vs_text ps m fmt spec args =
     (if fmt = [] then Inr []
      else
        let old_fmt = fmt; (fmt, spec) = format_decode old_fmt spec; type = spec_type spec
        in if type = FORMAT_TYPE_NONE then
             map_sum id (append (take (length old_fmt - length fmt) old_fmt)) (vs_text ps m fmt spec args)
           else if type = FORMAT_TYPE_PERCENT_CHAR then map_sum id (append [37]) (vs_text ps m fmt spec args)
           else if type = FORMAT_TYPE_INVALID then Inr []
           else case args of
             [] \<Rightarrow> Inl Crash
           | a # args \<Rightarrow>
               if type = FORMAT_TYPE_WIDTH then vs_text ps m fmt (set_field_width (arg_int a) spec) args
               else if type = FORMAT_TYPE_PRECISION then vs_text ps m fmt (set_precision (arg_int a) spec) args
               else if type = FORMAT_TYPE_CHAR then
                 map_sum id (append (fst (char_text (ucast a) spec))) (vs_text ps m fmt (spec\<lparr>field_width := snd (char_text (ucast a) spec)\<rparr>) args)
               else if type = FORMAT_TYPE_STR then map_sum id (append (string_text m a spec)) (vs_text ps m fmt spec args)
               else if type = FORMAT_TYPE_PTR then
                 map_sum id (append (pointer_text ps m fmt a spec)) (vs_text ps m (dropWhile isalnum fmt) spec args)
               else map_sum id (append (number_text (int_arg type a) spec)) (vs_text ps m fmt spec args))"
  by pat_completeness auto
termination
  by (relation "measure (\<lambda>(_, _, fmt, _). length fmt)")
    (auto intro: format_decode_shorter [OF sym] le_less_trans [OF length_dropWhile_le format_decode_shorter [OF sym]])

text \<open>The addresses that are read for the arguments.\<close>

function vs_reads :: "mem \<Rightarrow> u8 list \<Rightarrow> printf_spec \<Rightarrow> u64 list \<Rightarrow> nat set" where
  "vs_reads m fmt spec args =
     (if fmt = [] then {}
      else
        let (fmt, spec) = format_decode fmt spec; type = spec_type spec
        in if type = FORMAT_TYPE_NONE \<or> type = FORMAT_TYPE_PERCENT_CHAR then vs_reads m fmt spec args
           else if type = FORMAT_TYPE_INVALID then {}
           else case args of
             [] \<Rightarrow> {}
           | a # args \<Rightarrow>
               if type = FORMAT_TYPE_WIDTH then vs_reads m fmt (set_field_width (arg_int a) spec) args
               else if type = FORMAT_TYPE_PRECISION then vs_reads m fmt (set_precision (arg_int a) spec) args
               else if type = FORMAT_TYPE_CHAR then vs_reads m fmt (spec\<lparr>field_width := snd (char_text (ucast a) spec)\<rparr>) args
               else if type = FORMAT_TYPE_STR then string_reads m a spec \<union> vs_reads m fmt spec args
               else if type = FORMAT_TYPE_PTR then pointer_reads fmt a \<union> vs_reads m (dropWhile isalnum fmt) spec args
               else vs_reads m fmt spec args)"
  by pat_completeness auto
termination
  by (relation "measure (\<lambda>(_, fmt, _). length fmt)")
    (auto intro: format_decode_shorter [OF sym] le_less_trans [OF length_dropWhile_le format_decode_shorter [OF sym]])

declare vs_text.simps [simp del] vs_reads.simps [simp del]

text \<open>The memory outside the buffer is what it was.\<close>

definition kept_outside :: "nat \<Rightarrow> nat \<Rightarrow> mem \<Rightarrow> mem \<Rightarrow> bool" where
  "kept_outside b fin m m' \<longleftrightarrow> (\<forall>a. a < b \<or> fin \<le> a \<longrightarrow> m' a = m a)"

lemma kept_outside_emits:
  "kept_outside b fin m m' \<Longrightarrow> b \<le> buf \<Longrightarrow> fold (emit fin) t (m', buf) = (m'', e) \<Longrightarrow> kept_outside b fin m m'' \<and> b \<le> e"
  by (auto simp: kept_outside_def emits_eq)

lemma string_text_outside:
  assumes "kept_outside b fin m m'" and "string_reads m s spec \<inter> {b..<fin} = {}"
  shows "string_text m' s spec = string_text m s spec" "string_reads m' s spec = string_reads m s spec"
proof -
  have "\<forall>a \<in> string_reads m s spec. m' a = m a" using assms by (fastforce simp: kept_outside_def not_less)
  then have "check_pointer_msg s = None \<Longrightarrow> text_of m' (string_limit spec) (Mem (unat s)) = text_of m (string_limit spec) (Mem (unat s)) \<and>
      reads_of m' (string_limit spec) (Mem (unat s)) = reads_of m (string_limit spec) (Mem (unat s))"
    by (intro text_of_cong) (simp add: string_reads_def)
  then show "string_text m' s spec = string_text m s spec" "string_reads m' s spec = string_reads m s spec"
    by (auto simp: string_text_def string_reads_def split: option.splits)
qed

lemma load_le_cong: "\<forall>i < n. m' (p + i) = m (p + i) \<Longrightarrow> load_le m' p n = load_le m p n"
proof (induction n arbitrary: p)
  case (Suc n)
  have "\<forall>i < n. m' (Suc p + i) = m (Suc p + i)" using Suc.prems by (metis Suc_less_eq add_Suc_right add_Suc)
  from Suc.IH [OF this] show ?case using Suc.prems by (metis load_le.simps(2) add_0_right zero_less_Suc)
qed simp

lemma pointer_text_outside:
  assumes "kept_outside b fin m m'" and "pointer_reads fmt p \<inter> {b..<fin} = {}"
  shows "pointer_text ps m' fmt p spec = pointer_text ps m fmt p spec"
proof -
  have "load_le m' (unat p) 8 = load_le m (unat p) 8" if "ch fmt = 97" "check_pointer_msg p = None"
  proof (rule load_le_cong, intro allI impI)
    fix i :: nat assume "i < 8"
    then have "unat p + i \<in> pointer_reads fmt p" using that by (simp add: pointer_reads_def)
    then have "unat p + i \<notin> {b..<fin}" using assms(2) by blast
    then show "m' (unat p + i) = m (unat p + i)" using assms(1) by (auto simp: kept_outside_def)
  qed
  then show ?thesis by (auto simp: pointer_text_def address_text_def split: option.splits)
qed

lemma vs_loop_emits:
  "kept_outside b fin m m' \<Longrightarrow> b \<le> buf \<Longrightarrow> vs_reads m fmt spec args \<inter> {b..<fin} = {} \<Longrightarrow>
     vs_loop ps fin fmt spec args (m', buf) = map_sum id (\<lambda>t. fold (emit fin) t (m', buf)) (vs_text ps m fmt spec args)"
proof (induction "length fmt" arbitrary: fmt spec args m' buf rule: less_induct)
  case less
  have step: "vs_loop ps fin f s as (fold (emit fin) t (m', buf)) =
      map_sum id (\<lambda>u. fold (emit fin) u (m', buf)) (map_sum id (append t) (vs_text ps m f s as))"
    if "length f < length fmt" "vs_reads m f s as \<inter> {b..<fin} = {}" for f s as t
  proof -
    obtain m1 e where me: "fold (emit fin) t (m', buf) = (m1, e)" by fastforce
    then have "kept_outside b fin m m1" "b \<le> e" using kept_outside_emits less.prems(1,2) by blast+
    from less.hyps [OF that(1) this that(2)] show ?thesis unfolding me [symmetric] by (simp add: sum.map_comp comp_def id_def)
  qed
  show ?case
  proof (cases "fmt = []")
    case True
    then show ?thesis by (simp add: vs_loop.simps [of _ _ "[]"] vs_text.simps [of _ _ "[]"])
  next
    case ne: False
    obtain f s where fd: "format_decode fmt spec = (f, s)" by (rule prod.exhaust)
    have lt: "length f < length fmt" if "spec_type s \<noteq> FORMAT_TYPE_INVALID" using format_decode_shorter [OF fd that ne] .
    note L = vs_loop.simps [of ps fin fmt spec args "(m', buf)", unfolded fd Let_def prod.case if_not_P [OF ne]]
      and T = vs_text.simps [of ps m fmt spec args, unfolded fd Let_def prod.case if_not_P [OF ne]]
      and R = vs_reads.simps [of m fmt spec args, unfolded fd Let_def prod.case if_not_P [OF ne]]
    note reads = less.prems(3) [unfolded R]
    consider (none) "spec_type s = FORMAT_TYPE_NONE" | (percent) "spec_type s = FORMAT_TYPE_PERCENT_CHAR"
      | (invalid) "spec_type s = FORMAT_TYPE_INVALID"
      | (arg) "spec_type s \<noteq> FORMAT_TYPE_NONE" "spec_type s \<noteq> FORMAT_TYPE_PERCENT_CHAR" "spec_type s \<noteq> FORMAT_TYPE_INVALID" by blast
    then show ?thesis
    proof cases
      case none
      then show ?thesis unfolding L T using step [OF lt, of s args] reads by (simp add: copy_literal_emits)
    next
      case percent
      then show ?thesis unfolding L T using step [OF lt, of s args "[37]"] reads by simp
    next
      case invalid
      then show ?thesis unfolding L T by simp
    next
      case arg
      show ?thesis
      proof (cases args)
        case Nil
        then show ?thesis unfolding L T using arg by simp
      next
        case (Cons a as)
        note L2 = L [unfolded Cons list.case, unfolded if_not_P [OF arg(1)] if_not_P [OF arg(2)] if_not_P [OF arg(3)]]
          and T2 = T [unfolded Cons list.case, unfolded if_not_P [OF arg(1)] if_not_P [OF arg(2)] if_not_P [OF arg(3)]]
        have R2: "(if spec_type s = FORMAT_TYPE_WIDTH then vs_reads m f (set_field_width (arg_int a) s) as
            else if spec_type s = FORMAT_TYPE_PRECISION then vs_reads m f (set_precision (arg_int a) s) as
            else if spec_type s = FORMAT_TYPE_CHAR then vs_reads m f (s\<lparr>field_width := snd (char_text (ucast a) s)\<rparr>) as
            else if spec_type s = FORMAT_TYPE_STR then string_reads m a s \<union> vs_reads m f s as
            else if spec_type s = FORMAT_TYPE_PTR then pointer_reads f a \<union> vs_reads m (dropWhile isalnum f) s as
            else vs_reads m f s as) \<inter> {b..<fin} = {}"
          using reads arg Cons by simp
        note lt = lt [OF arg(3)]
        note here = less.prems(1,2)
        consider (width) "spec_type s = FORMAT_TYPE_WIDTH" | (prec) "spec_type s = FORMAT_TYPE_PRECISION" | (chr) "spec_type s = FORMAT_TYPE_CHAR"
          | (str) "spec_type s = FORMAT_TYPE_STR" | (ptr) "spec_type s = FORMAT_TYPE_PTR"
          | (num) "spec_type s \<notin> {FORMAT_TYPE_WIDTH, FORMAT_TYPE_PRECISION, FORMAT_TYPE_CHAR, FORMAT_TYPE_STR, FORMAT_TYPE_PTR}" by blast
        then show ?thesis
        proof cases
          case width
          then show ?thesis unfolding Cons L2 T2 using less.hyps [OF lt here] R2 by simp
        next
          case prec
          then show ?thesis unfolding Cons L2 T2 using less.hyps [OF lt here] R2 by simp
        next
          case chr
          then show ?thesis unfolding Cons L2 T2 char_print_emits prod.case using step [OF lt] R2 by simp
        next
          case str
          then have r: "string_reads m a s \<inter> {b..<fin} = {}" "vs_reads m f s as \<inter> {b..<fin} = {}" using R2 by auto
          note o = string_text_outside [OF here(1) r(1)]
          have "string_reads m' a s \<inter> {buf..<fin} = {}" unfolding o using r(1) here(2) by auto
          from string_print_emits [OF this] show ?thesis unfolding Cons L2 T2 using step [OF lt r(2)] str o by simp
        next
          case ptr
          then have r: "pointer_reads f a \<inter> {b..<fin} = {}" "vs_reads m (dropWhile isalnum f) s as \<inter> {b..<fin} = {}" using R2 by auto
          have "length (dropWhile isalnum f) < length fmt" using length_dropWhile_le lt by (rule le_less_trans)
          from step [OF this r(2)] show ?thesis unfolding Cons L2 T2 pointer_emits
            using ptr pointer_text_outside [OF here(1) r(1)] by simp
        next
          case num
          then have "spec_base s \<in> {8, 10, 16}" using format_decode_base [OF fd] arg by simp
          from number_print_emits [OF this] show ?thesis unfolding Cons L2 T2 using num step [OF lt] R2 by simp
        qed
      qed
    qed
  qed
qed

section \<open>Properties\<close>

abbreviation no_spec :: printf_spec where
  "no_spec \<equiv> \<lparr>spec_type = FORMAT_TYPE_NONE, field_width = 0, spec_flags = 0, spec_base = 0, precision = 0\<rparr>"

lemma sint_of_nat_u32: "n < 2 ^ 31 \<Longrightarrow> sint (of_nat n :: u32) = int n"
  by (simp add: signed_of_nat signed_take_bit_int_eq_self)

lemma vsnprintf_run:
  assumes "vs_text ps m fmt no_spec args = Inr t" and "length t < 2 ^ 31" and "0 < sz" and "sz < 2 ^ 31" and "buf + sz < 2 ^ 64"
    and "vs_reads m fmt no_spec args \<inter> {buf..<buf + sz} = {}"
  shows "vsnprintf ps m buf sz fmt args =
    Inr (\<lambda>a. if buf \<le> a \<and> a < buf + min (length t + 1) sz then (take (sz - 1) t @ [0]) ! (a - buf) else m a, int (length t))"
proof -
  have "kept_outside buf (buf + sz) m m" by (simp add: kept_outside_def)
  from vs_loop_emits [OF this order_refl assms(6), of ps] assms(1)
  have run: "vs_loop ps (buf + sz) fmt no_spec args (m, buf) = Inr (fold (emit (buf + sz)) t (m, buf))" by simp
  have c: "\<not> 2 ^ 31 - 1 < sz" "\<not> 2 ^ 64 \<le> buf + sz" using assms(4,5) by simp_all
  define m1 where "m1 = (\<lambda>a. if buf \<le> a \<and> a < buf + length t \<and> a < buf + sz then t ! (a - buf) else m a)"
  have "vsnprintf ps m buf sz fmt args =
      Inr (if buf + length t < buf + sz then m1(buf + length t := 0) else m1(buf + sz - 1 := 0), sint (of_nat (buf + length t - buf) :: u32))"
    unfolding vsnprintf_def if_not_P [OF c(1)] Let_def if_not_P [OF c(2)] prod.case run emits_eq m1_def [symmetric] using assms(3) by (simp add: bind_run_def)
  moreover have "(if buf + length t < buf + sz then m1(buf + length t := 0) else m1(buf + sz - 1 := 0)) =
      (\<lambda>a. if buf \<le> a \<and> a < buf + min (length t + 1) sz then (take (sz - 1) t @ [0]) ! (a - buf) else m a)"
  proof (cases "length t < sz")
    case True
    then have "take (sz - 1) t = t" "min (length t + 1) sz = length t + 1" by simp_all
    then show ?thesis using True by (auto simp: m1_def fun_eq_iff nth_append)
  next
    case False
    then show ?thesis using assms(3) by (auto simp: m1_def fun_eq_iff nth_append)
  qed
  ultimately show ?thesis using assms(2) by (simp add: sint_of_nat_u32)
qed

text \<open>
  (C36) Formatted output refines the text of its format: \<^verbatim>\<open>vsnprintf\<close> leaves the beginning of the text that fits, closed by a
  NUL, in the buffer, changes nothing outside of the buffer however long the text is, and returns the length of the whole
  text; \<^verbatim>\<open>vscnprintf\<close> does the same and returns the number of characters in the buffer.  If the arguments run
  out, both crash.  Widths, precisions, padding, the move to the right that pads a string and the hashed pointers are
  part of the text; what the arguments point to must not lie in the buffer.
\<close>

theorem vsnprintf_refines:
  assumes "0 < sz" and "sz < 2 ^ 31" and "buf + sz < 2 ^ 64" and "vs_reads m fmt no_spec args \<inter> {buf..<buf + sz} = {}"
    and "case vs_text ps m fmt no_spec args of Inl e \<Rightarrow> True | Inr t \<Rightarrow> length t < 2 ^ 31"
  shows "case vs_text ps m fmt no_spec args of
      Inl e \<Rightarrow> vsnprintf ps m buf sz fmt args = Inl e \<and> vscnprintf ps m buf sz fmt args = Inl e
    | Inr t \<Rightarrow> \<exists>m'. vsnprintf ps m buf sz fmt args = Inr (m', int (length t)) \<and>
        vscnprintf ps m buf sz fmt args = Inr (m', int (min (length t) (sz - 1))) \<and>
        map m' [buf..<buf + min (length t + 1) sz] = take (sz - 1) t @ [0] \<and>
        kept_outside buf (buf + min (length t + 1) sz) m m'"
proof (cases "vs_text ps m fmt no_spec args")
  case (Inl e)
  have "kept_outside buf (buf + sz) m m" by (simp add: kept_outside_def)
  from vs_loop_emits [OF this order_refl assms(4), of ps] have "vs_loop ps (buf + sz) fmt no_spec args (m, buf) = Inl e" by (simp add: Inl)
  then have "vsnprintf ps m buf sz fmt args = Inl e" using assms(2,3) by (simp add: vsnprintf_def bind_run_def)
  then show ?thesis by (simp add: Inl vscnprintf_def bind_run_def)
next
  case (Inr t)
  then have len: "length t < 2 ^ 31" using assms(5) by simp
  let ?m = "\<lambda>a. if buf \<le> a \<and> a < buf + min (length t + 1) sz then (take (sz - 1) t @ [0]) ! (a - buf) else m a"
  have v: "vsnprintf ps m buf sz fmt args = Inr (?m, int (length t))" by (rule vsnprintf_run [OF Inr len assms(1,2,3,4)])
  have "unat (of_int (int (length t)) :: u64) = length t" using len by (simp add: unsigned_of_nat take_bit_nat_eq_self)
  then have "vscnprintf ps m buf sz fmt args = Inr (?m, int (min (length t) (sz - 1)))"
    using assms(1) by (auto simp: vscnprintf_def v bind_run_def)
  moreover have "map ?m [buf..<buf + min (length t + 1) sz] = take (sz - 1) t @ [0]"
    using assms(1) by (intro nth_equalityI) (auto simp: min_def)
  moreover have "kept_outside buf (buf + min (length t + 1) sz) m ?m" by (simp add: kept_outside_def)
  ultimately show ?thesis unfolding Inr sum.case v by blast
qed

text \<open>The format ``a%5d'' prints 42 as ``a   42''; a buffer of four bytes holds its beginning.\<close>

lemmas decode_eval = format_decode_def decode_precision_def decode_qualifier_def scan_qualifier_def skip_atoi_def isdigit_def fast_tolower_def
  int_type_def Let_def

lemma sample_decode:
  "format_decode [97, 37, 53, 100] no_spec = ([37, 53, 100], no_spec)"
  "format_decode [37, 53, 100] no_spec =
     ([], \<lparr>spec_type = FORMAT_TYPE_INT, field_width = 5, spec_flags = SIGN, spec_base = 10, precision = - 1\<rparr>)"
  by (simp_all add: decode_eval SIGN_def fit24_self)

lemma sample_text: "vs_text ps m [97, 37, 53, 100] no_spec [42] = Inr [97, 32, 32, 32, 52, 50]"
proof -
  let ?s = "\<lparr>spec_type = FORMAT_TYPE_INT, field_width = 5, spec_flags = SIGN, spec_base = 10, precision = - 1\<rparr>"
  have "(scast (ucast (42 :: u64) :: u32) :: u64) = 42" by simp
  then have "number_text (int_arg FORMAT_TYPE_INT 42) ?s = [32, 32, 32, 52, 50]"
    by (simp add: int_arg_def number_text_def sign_text_def prefix_text_def digits_text_def Let_def has_def SIGN_def LEFT_def PLUS_def SPACE_def
        ZEROPAD_def SMALL_def SPECIAL_def radix_digits_step radix_digits_less case_digit_def hex_asc_upper_def numeral_3_eq_3)
  then have "vs_text ps m [37, 53, 100] no_spec [42] = Inr [32, 32, 32, 52, 50]"
    by (subst vs_text.simps) (simp add: sample_decode vs_text.simps [of _ _ "[]"])
  then show ?thesis by (subst vs_text.simps) (simp add: sample_decode)
qed

lemma sample_reads: "vs_reads m [97, 37, 53, 100] no_spec [42] = {}"
proof -
  have "vs_reads m [37, 53, 100] no_spec [42] = {}"
    by (subst vs_reads.simps) (simp add: sample_decode vs_reads.simps [of _ "[]"])
  then show ?thesis by (subst vs_reads.simps) (simp add: sample_decode)
qed

definition ps0 :: ptr_state where
  "ps0 = \<lparr>debug_boot_weak_hash = False, not_filled_random_ptr_key = True, ptr_key = (0, 0)\<rparr>"

theorem vsnprintf_refines_witness:
  "\<exists>m'. vsnprintf ps0 (\<lambda>_. 9) 100 4 [97, 37, 53, 100] [42] = Inr (m', 6) \<and> vscnprintf ps0 (\<lambda>_. 9) 100 4 [97, 37, 53, 100] [42] = Inr (m', 3) \<and>
    map m' [100..<104] = [97, 32, 32, 0] \<and> kept_outside 100 104 (\<lambda>_. 9) m'"
  using vsnprintf_refines [of 4 100 "\<lambda>_. 9" "[97, 37, 53, 100]" "[42]" ps0] by (simp add: sample_text sample_reads)

end
