(* ===== verification/Cmdline.thy ===== *)
theory Cmdline imports Kstrtox begin

text \<open>
  The parsers of the kernel command line, \<^verbatim>\<open>lib/src/cmdline.c\<close>, with the conversions \<^verbatim>\<open>simple_strtoull\<close> and its
  relatives of \<^verbatim>\<open>lib/src/vsprintf.c\<close> that they use.  An array of integers is a function from indices, which may be
  negative, as \<^verbatim>\<open>ints + i\<close> is in C; \<^verbatim>\<open>int\<close> wraps around at 32 bits.  \<open>None\<close> means that a scan does not end.
\<close>

unbundle bit_operations_syntax

section \<open>Operations\<close>

definition simple_strtoull :: "mem \<Rightarrow> nat \<Rightarrow> nat \<Rightarrow> (u64 \<times> nat) option" where
  "simple_strtoull m cp base =
     (case parse_integer_fixup_radix m cp base of
        (cp, base) \<Rightarrow> map_option (\<lambda>(res, rv). (res, cp + unat (rv AND NOT KSTRTOX_OVERFLOW))) (parse_integer m cp base))"

definition simple_strtoul :: "mem \<Rightarrow> nat \<Rightarrow> nat \<Rightarrow> (u64 \<times> nat) option" where
  "simple_strtoul m cp base = simple_strtoull m cp base"

definition simple_strtol :: "mem \<Rightarrow> nat \<Rightarrow> nat \<Rightarrow> (u64 \<times> nat) option" where
  "simple_strtol m cp base =
     (if m cp = 45 then map_option (\<lambda>(v, endp). (- v, endp)) (simple_strtoul m (cp + 1) base) else simple_strtoul m cp base)"

definition simple_strtoll :: "mem \<Rightarrow> nat \<Rightarrow> nat \<Rightarrow> (u64 \<times> nat) option" where
  "simple_strtoll m cp base =
     (if m cp = 45 then map_option (\<lambda>(v, endp). (- v, endp)) (simple_strtoull m (cp + 1) base) else simple_strtoull m cp base)"

text \<open>A \<^verbatim>\<open>long\<close> stored in an \<^verbatim>\<open>int\<close>, and the result of \<^verbatim>\<open>int\<close> arithmetic.\<close>

definition to_int :: "u64 \<Rightarrow> int" where
  "to_int v = sint (ucast v :: u32)"

definition wrap :: "int \<Rightarrow> int" where
  "wrap x = signed_take_bit 31 x"

function fill_range :: "(int \<Rightarrow> int) \<Rightarrow> int \<Rightarrow> int \<Rightarrow> int \<Rightarrow> nat \<Rightarrow> (int \<Rightarrow> int)" where
  "fill_range ints p x upper n =
     (if n \<noteq> 0 \<and> x < upper then fill_range (ints(p := x)) (p + 1) (x + 1) upper (n - 1) else ints)"
  by auto
termination by (relation "measure (\<lambda>(_, _, _, _, n). n)") auto

declare fill_range.simps [simp del]

definition get_range :: "mem \<Rightarrow> nat \<Rightarrow> (int \<Rightarrow> int) \<Rightarrow> int \<Rightarrow> nat \<Rightarrow> (nat \<times> (int \<Rightarrow> int) \<times> int) option" where
  "get_range m str ints p n =
     (let str = str + 1
      in map_option (\<lambda>(v, _).
           let upper_range = to_int v; inc_counter = wrap (upper_range - ints p)
           in (str, fill_range ints p (ints p) upper_range n, inc_counter)) (simple_strtol m str 0))"

text \<open>The result, the new value of the string pointer and the integer, if one is stored.\<close>

definition get_option :: "mem \<Rightarrow> nat \<Rightarrow> (nat \<times> nat \<times> int option) option" where
  "get_option m cur =
     (if cur = 0 \<or> m cur = 0 then Some (0, cur, None)
      else map_option (\<lambda>(v, str).
        let pint = Some (to_int v)
        in if cur = str then (0, str, pint)
           else if m str = 44 then (2, str + 1, pint)
           else if m str = 45 then (3, str, pint)
           else (1, str, pint)) (simple_strtol m cur 0))"

definition store_int :: "(int \<Rightarrow> int) \<Rightarrow> int \<Rightarrow> int option \<Rightarrow> (int \<Rightarrow> int)" where
  "store_int ints i v = (case v of None \<Rightarrow> ints | Some x \<Rightarrow> ints(i := x))"

partial_function (option) options_loop :: "mem \<Rightarrow> nat \<Rightarrow> int \<Rightarrow> int \<Rightarrow> (int \<Rightarrow> int) \<Rightarrow> (nat \<times> int \<times> (int \<Rightarrow> int)) option" where
  "options_loop m str nints i ints =
     (if i < nints then
        Option.bind (get_option m str) (\<lambda>(res, str, v).
          let ints = store_int ints i v
          in if res = 0 then Some (str, i, ints)
             else if res = 3 then
               Option.bind (get_range m str ints i (nat (nints - i))) (\<lambda>(str, ints, range_nums).
                 if range_nums < 0 then Some (str, i, ints)
                 else options_loop m str nints (wrap (wrap (i + (range_nums - 1)) + 1)) ints)
             else if res = 1 then Some (str, wrap (i + 1), ints)
             else options_loop m str nints (wrap (i + 1)) ints)
      else Some (str, i, ints))"

definition get_options :: "mem \<Rightarrow> nat \<Rightarrow> int \<Rightarrow> (int \<Rightarrow> int) \<Rightarrow> (nat \<times> (int \<Rightarrow> int)) option" where
  "get_options m str nints ints =
     map_option (\<lambda>(str, i, ints). (str, ints(0 := wrap (i - 1)))) (options_loop m str nints 1 ints)"

text \<open>The cases of the switch fall through, so the position of the letter in ``KMGTPE'' is the number of shifts.\<close>

definition suffix_shifts :: "u8 \<Rightarrow> nat" where
  "suffix_shifts c =
     (if c \<in> {69, 101} then 6 else if c \<in> {80, 112} then 5 else if c \<in> {84, 116} then 4
      else if c \<in> {71, 103} then 3 else if c \<in> {77, 109} then 2 else if c \<in> {75, 107} then 1 else 0)"

definition memparse :: "mem \<Rightarrow> nat \<Rightarrow> (u64 \<times> nat) option" where
  "memparse m ptr =
     map_option (\<lambda>(ret, endptr).
       let k = suffix_shifts (m endptr) in ((push_bit 10 ^^ k) ret, if k \<noteq> 0 then endptr + 1 else endptr)) (simple_strtoull m ptr 0)"

partial_function (option) skip_item :: "mem \<Rightarrow> nat \<Rightarrow> nat option" where
  "skip_item m str = (if m str \<noteq> 0 \<and> m str \<noteq> 44 then skip_item m (str + 1) else Some str)"

partial_function (option) parse_option_str :: "mem \<Rightarrow> nat \<Rightarrow> nat \<Rightarrow> bool option" where
  "parse_option_str m str opt =
     (if m str \<noteq> 0 then
        Option.bind (strlen m opt) (\<lambda>len.
          let hit = (strncmp m str opt len = 0); str = (if hit then str + len else str)
          in if hit \<and> (m str = 0 \<or> m str = 44) then Some True
             else Option.bind (skip_item m str) (\<lambda>str. parse_option_str m (if m str = 44 then str + 1 else str) opt))
      else Some False)"

text \<open>The loop that finds the end of an argument: the index, the place of the equals sign and whether a quote is open.\<close>

partial_function (option) arg_loop :: "mem \<Rightarrow> nat \<Rightarrow> nat \<Rightarrow> nat \<Rightarrow> bool \<Rightarrow> (nat \<times> nat) option" where
  "arg_loop m args i equals in_quote =
     (let c = m (args + i)
      in if c = 0 \<or> isspace c \<and> \<not> in_quote then Some (i, equals)
         else arg_loop m args (i + 1) (if equals = 0 \<and> c = 61 then i else equals) (if c = 34 then \<not> in_quote else in_quote))"

text \<open>The index \<^verbatim>\<open>i - 1\<close> is an unsigned 32-bit number.\<close>

definition cut_quote :: "mem \<Rightarrow> nat \<Rightarrow> nat \<Rightarrow> mem" where
  "cut_quote m args i =
     (let a = args + unat (of_nat i - 1 :: u32) in if m a = 34 then m(a := 0) else m)"

definition next_arg :: "mem \<Rightarrow> nat \<Rightarrow> (mem \<times> nat \<times> nat \<times> nat) option" where
  "next_arg m args0 =
     (let quoted = (m args0 = 34); args = (if quoted then args0 + 1 else args0)
      in Option.bind (arg_loop m args 0 0 quoted) (\<lambda>(i, equals).
           let (m, val) =
             (if equals = 0 then (m, 0)
              else
                let m = m(args + equals := 0); val = args + equals + 1
                in if m val = 34 then (cut_quote m args i, val + 1) else (m, val));
               m = (if quoted then cut_quote m args i else m);
               (m, nxt) = (if m (args + i) \<noteq> 0 then (m(args + i := 0), args + i + 1) else (m, args + i))
           in map_option (\<lambda>nxt. (m, nxt, args, val)) (skip_spaces m nxt)))"

section \<open>Numbers\<close>

text \<open>What is left of a string behind the number at its beginning.\<close>

definition behind :: "nat \<Rightarrow> u8 list \<Rightarrow> u8 list" where
  "behind base s = dropWhile (is_digit (radix_of base s)) (digits_of base s)"

definition leading :: "nat \<Rightarrow> u8 list \<Rightarrow> nat" where
  "leading base s = number (radix_of base s) 0 (takeWhile (is_digit (radix_of base s)) (digits_of base s))"

lemma flagged_count: "k < 2 ^ 31 \<Longrightarrow> unat (flagged k f AND NOT KSTRTOX_OVERFLOW) = k"
proof -
  assume k: "k < 2 ^ 31"
  have "flagged k f AND NOT KSTRTOX_OVERFLOW = (of_nat k :: u32)"
  proof (rule bit_word_eqI)
    fix n assume "n < LENGTH(32)"
    have "\<not> bit ((of_nat k :: u32) AND KSTRTOX_OVERFLOW) 31" unfolding low_and_flag [OF k] by simp
    then have "\<not> bit (of_nat k :: u32) 31" by (simp only: bit_and_iff bit_KSTRTOX_OVERFLOW simp_thms)
    with \<open>n < LENGTH(32)\<close> show "bit (flagged k f AND NOT KSTRTOX_OVERFLOW) n \<longleftrightarrow> bit (of_nat k :: u32) n"
      unfolding flagged_or [OF k] by (auto simp: bit_and_iff bit_or_iff bit_not_iff)
  qed
  then show ?thesis using k by (simp add: unsigned_of_nat take_bit_nat_eq_self)
qed

lemma simple_strtoull_cstr:
  assumes c: "cstr m p s" and len: "length s < 2 ^ 31" and base: "base \<le> 16"
  shows "simple_strtoull m p base = Some (of_nat (leading base s), p + (length s - length (behind base s)))"
    and "cstr m (p + (length s - length (behind base s))) (behind base s)"
proof -
  define b where "b = radix_of base s"
  define d where "d = digits_of base s"
  define q where "q = p + (length s - length d)"
  define ds where "ds = takeWhile (is_digit b) d"
  have b: "1 \<le> b" "b \<le> 16" using radix_of_range [OF base, of s] by (simp_all add: b_def)
  have q: "cstr m q d" unfolding q_def d_def using fixup_radix(2) [OF c] .
  have le: "length d \<le> length s" unfolding d_def by (rule length_digits_of)
  have split: "d = ds @ behind base s" by (simp add: ds_def behind_def b_def d_def)
  then have ld: "length d = length ds + length (behind base s)" by (metis length_append)
  have parse: "parse_integer m q b = Some (of_nat (leading base s), flagged (length ds) (2 ^ 64 \<le> leading base s))"
    using parse_loop_digits [OF b q, of 0 0] len le by (simp add: parse_integer_def flagged_def leading_def ds_def b_def d_def)
  have e: "q + length ds = p + (length s - length (behind base s))" using ld le by (simp add: q_def)
  have "length ds < 2 ^ 31" using ld le len by linarith
  then show "simple_strtoull m p base = Some (of_nat (leading base s), p + (length s - length (behind base s)))"
    unfolding simple_strtoull_def fixup_radix(1) [OF c] prod.case b_def [symmetric] d_def [symmetric] q_def [symmetric] parse
    by (simp only: option.map prod.case flagged_count e)
  show "cstr m (p + (length s - length (behind base s))) (behind base s)"
    unfolding e [symmetric] using q cstr_suffix unfolding split by blast
qed

text \<open>A number in decimal at the beginning of a string, with something behind it that is not a digit.\<close>

lemma show_number_hd_zero: "0 < n \<Longrightarrow> hd (show_number 10 n) \<noteq> 48"
proof (induction n rule: less_induct)
  case (less n)
  show ?case
  proof (cases "n < 10")
    case True
    then have "hd (show_number 10 n) = digit_char n" by (simp add: show_number.simps [of 10 n])
    moreover have "\<forall>d \<in> set [1..<10]. digit_char d \<noteq> 48" by code_simp
    ultimately show ?thesis using True less.prems by simp
  next
    case False
    then have "show_number 10 n = show_number 10 (n div 10) @ [digit_char (n mod 10)]" by (simp add: show_number.simps [of 10 n])
    moreover have "show_number 10 (n div 10) \<noteq> []" using show_number_digits [of 10] by simp
    ultimately show ?thesis using less.IH [of "n div 10"] False by simp
  qed
qed

lemma show_number_is_digit: "\<forall>c \<in> set (show_number 10 n). is_digit 10 c \<and> c \<noteq> 45 \<and> c \<noteq> 0"
proof
  fix c assume "c \<in> set (show_number 10 n)"
  then obtain d where "d < 10" "c = digit_char d" using show_number_digits [of 10 n] by auto
  then show "is_digit 10 c \<and> c \<noteq> 45 \<and> c \<noteq> 0" using digit_char_digit [of d] by (simp add: is_digit_def)
qed

lemma leading_show:
  assumes "t = [] \<or> hd t \<in> {44, 45}"
  shows "leading 0 (show_number 10 n @ t) = n" "behind 0 (show_number 10 n @ t) = t"
proof -
  have "\<not> is_digit b 44" "\<not> is_digit b 45" for b by (simp_all add: is_digit_def digit_of_def)
  then have stop: "takeWhile (is_digit b) t = []" "dropWhile (is_digit b) t = t" for b using assms by (cases t; auto)+
  have "fast_tolower 44 \<noteq> 120" "fast_tolower 45 \<noteq> 120" by (simp_all add: fast_tolower_def)
  then have hex: "\<not> hex_prefix (48 # t)" using assms by (cases t) (auto simp: hex_prefix_def)
  have "leading 0 (show_number 10 n @ t) = n \<and> behind 0 (show_number 10 n @ t) = t"
  proof (cases "n = 0")
    case True
    have z: "show_number 10 0 = [48]" by (simp add: show_number.simps [of 10 0] digit_char_def)
    have "radix_of 0 (48 # t) = 8" "digits_of 0 (48 # t) = 48 # t" using hex by (simp_all add: radix_of_def digits_of_def)
    then show ?thesis using True z by (simp add: stop leading_def behind_def is_digit_def digit_of_def digit_val_def)
  next
    case False
    have ne: "show_number 10 n \<noteq> []" using show_number_digits [of 10 n] by simp
    then have h: "hd (show_number 10 n @ t) \<noteq> 48" using show_number_hd_zero [of n] False by simp
    then have r: "radix_of 0 (show_number 10 n @ t) = 10" "digits_of 0 (show_number 10 n @ t) = show_number 10 n @ t"
      using ne by (simp_all add: radix_of_def digits_of_def)
    show ?thesis using show_number_is_digit [of n] show_number_digits [of 10 n]
      by (simp add: stop leading_def behind_def r)
  qed
  then show "leading 0 (show_number 10 n @ t) = n" "behind 0 (show_number 10 n @ t) = t" by blast+
qed

lemma to_int_of_nat: "n < 2 ^ 31 \<Longrightarrow> to_int (of_nat n) = int n"
proof -
  assume n: "n < 2 ^ 31"
  have "(ucast (of_nat n :: u64) :: u32) = of_nat n" using n by (simp add: word_unat_eq_iff unsigned_ucast_eq unsigned_of_nat take_bit_nat_eq_self)
  then show ?thesis using n by (simp add: to_int_def signed_of_nat signed_take_bit_int_eq_self)
qed

section \<open>Lists of integers\<close>

fun commas :: "nat list \<Rightarrow> u8 list" where
  "commas [] = []"
| "commas [n] = show_number 10 n"
| "commas (n # k # ns) = show_number 10 n @ 44 # commas (k # ns)"

lemma commas_split: "\<exists>t. commas (n # ns) = show_number 10 n @ t \<and> (t = [] \<and> ns = [] \<or> t = 44 # commas ns \<and> ns \<noteq> [])"
  by (cases ns) auto

lemma simple_strtol_show:
  assumes "cstr m p (show_number 10 n @ t)" and "t = [] \<or> hd t \<in> {44, 45}" and "length (show_number 10 n @ t) < 2 ^ 31"
  shows "simple_strtol m p 0 = Some (of_nat n, p + length (show_number 10 n))" and "cstr m (p + length (show_number 10 n)) t"
proof -
  have "show_number 10 n \<noteq> []" using show_number_digits [of 10 n] by simp
  then obtain c r where "show_number 10 n = c # r" by (cases "show_number 10 n") auto
  then have mp: "m p = c" "c \<noteq> 45" using assms(1) show_number_is_digit [of n] by simp_all
  note st = simple_strtoull_cstr [OF assms(1,3), of 0]
  show "simple_strtol m p 0 = Some (of_nat n, p + length (show_number 10 n))"
    using st(1) mp by (simp add: simple_strtol_def simple_strtoul_def leading_show [OF assms(2)])
  show "cstr m (p + length (show_number 10 n)) t" using st(2) by (simp add: leading_show [OF assms(2)])
qed

lemma get_option_number:
  assumes "cstr m p (show_number 10 n @ t)" and "t = [] \<or> hd t = 44" and "p \<noteq> 0" and "n < 2 ^ 31" and "length (show_number 10 n @ t) < 2 ^ 31"
  shows "get_option m p = Some (if t = [] then (1, p + length (show_number 10 n), Some (int n)) else (2, p + length (show_number 10 n) + 1, Some (int n)))"
proof -
  let ?s = "show_number 10 n @ t"
  have ne: "show_number 10 n \<noteq> []" using show_number_digits [of 10 n] by simp
  then obtain c r where cr: "show_number 10 n = c # r" by (cases "show_number 10 n") auto
  then have mp: "m p = c" "c \<noteq> 0" using assms(1) show_number_is_digit [of n] by simp_all
  have "t = [] \<or> hd t \<in> {44, 45}" using assms(2) by blast
  note run = simple_strtol_show [OF assms(1) this assms(5)]
  have "cstr m (p + length (show_number 10 n)) t" by (rule run(2))
  then have "m (p + length (show_number 10 n)) = (if t = [] then 0 else 44)" using assms(2) by (cases t) auto
  then show ?thesis using mp assms(2,3) ne run(1) by (simp add: get_option_def to_int_of_nat [OF assms(4)] Let_def)
qed

lemma wrap_self: "- (2 ^ 31) \<le> x \<Longrightarrow> x < 2 ^ 31 \<Longrightarrow> wrap x = x"
  unfolding wrap_def by (rule signed_take_bit_int_eq_self)

lemma empty_range: "(\<lambda>j :: int. if i \<le> j \<and> j < i then f j else g j) = g"
  by (auto simp: fun_eq_iff)

lemma options_loop_list:
  assumes "nints < 2 ^ 31"
  shows "cstr m p (commas ns) \<Longrightarrow> p \<noteq> 0 \<Longrightarrow> \<forall>n \<in> set ns. n < 2 ^ 31 \<Longrightarrow> length (commas ns) < 2 ^ 31 \<Longrightarrow> 1 \<le> i \<Longrightarrow> i \<le> nints \<Longrightarrow>
    (let k = min (length ns) (nat (nints - i))
     in \<exists>q. options_loop m p nints i ints = Some (q, i + int k, \<lambda>j. if i \<le> j \<and> j < i + int k then int (ns ! nat (j - i)) else ints j) \<and>
        cstr m q (commas (drop k ns)))"
proof (induction ns arbitrary: p i ints)
  case Nil
  have "options_loop m p nints i ints = Some (p, i, ints)"
    using Nil.prems by (subst options_loop.simps) (simp add: get_option_def store_int_def)
  then show ?case using Nil.prems by (simp add: empty_range)
next
  case (Cons n ns)
  obtain t where t: "commas (n # ns) = show_number 10 n @ t" "t = [] \<and> ns = [] \<or> t = 44 # commas ns \<and> ns \<noteq> []"
    using commas_split by blast
  show ?case
  proof (cases "i < nints")
    case False
    then have "options_loop m p nints i ints = Some (p, i, ints)" by (subst options_loop.simps) simp
    then show ?thesis using Cons.prems False by (simp add: empty_range)
  next
    case True
    have c: "cstr m p (show_number 10 n @ t)" "length (show_number 10 n @ t) < 2 ^ 31" using Cons.prems(1,4) t(1) by simp_all
    have opt: "get_option m p = Some (if t = [] then (1, p + length (show_number 10 n), Some (int n)) else (2, p + length (show_number 10 n) + 1, Some (int n)))"
      by (rule get_option_number [OF c(1) _ Cons.prems(2) _ c(2)]) (use t(2) Cons.prems(3) in auto)
    have w: "wrap (i + 1) = i + 1" using True Cons.prems(5) assms by (intro wrap_self) simp_all
    show ?thesis
    proof (cases "ns = []")
      case last: True
      then have "options_loop m p nints i ints = Some (p + length (show_number 10 n), i + 1, ints(i := int n))"
        using True t(2) opt w by (subst options_loop.simps) (simp add: store_int_def)
      moreover have "cstr m (p + length (show_number 10 n)) []" using cstr_suffix [OF c(1)] last t(2) by simp
      moreover have "min (length (n # ns)) (nat (nints - i)) = 1" using last True by simp
      ultimately show ?thesis using last by (auto simp: fun_eq_iff)
    next
      case more: False
      let ?p = "p + length (show_number 10 n) + 1"
      have "options_loop m p nints i ints = options_loop m ?p nints (i + 1) (ints(i := int n))"
        using True t(2) more opt w by (subst options_loop.simps) (simp add: store_int_def)
      moreover have "cstr m ?p (commas ns)" using cstr_suffix [OF c(1)] more t(2) by simp
      moreover have "length (commas ns) < 2 ^ 31" using c(2) t(2) more by simp
      ultimately obtain q where q: "options_loop m p nints i ints =
          Some (q, i + 1 + int (min (length ns) (nat (nints - (i + 1)))),
            \<lambda>j. if i + 1 \<le> j \<and> j < i + 1 + int (min (length ns) (nat (nints - (i + 1)))) then int (ns ! nat (j - (i + 1))) else (ints(i := int n)) j)"
        "cstr m q (commas (drop (min (length ns) (nat (nints - (i + 1)))) ns))"
        using Cons.IH [of ?p "i + 1" "ints(i := int n)"] Cons.prems True unfolding Let_def by auto
      define k where "k = min (length ns) (nat (nints - (i + 1)))"
      have k: "min (length (n # ns)) (nat (nints - i)) = Suc k" using True by (auto simp: k_def)
      have "(\<lambda>j. if i + 1 \<le> j \<and> j < i + 1 + int k then int (ns ! nat (j - (i + 1))) else (ints(i := int n)) j) =
          (\<lambda>j. if i \<le> j \<and> j < i + int (Suc k) then int ((n # ns) ! nat (j - i)) else ints j)"
      proof
        fix j
        have "nat (j - i) = Suc (nat (j - (i + 1)))" if "i < j" using that by simp
        then show "(if i + 1 \<le> j \<and> j < i + 1 + int k then int (ns ! nat (j - (i + 1))) else (ints(i := int n)) j) =
          (if i \<le> j \<and> j < i + int (Suc k) then int ((n # ns) ! nat (j - i)) else ints j)" by (cases "i < j") auto
      qed
      then show ?thesis unfolding Let_def k using q unfolding k_def [symmetric] by (auto simp: add.assoc)
    qed
  qed
qed

text \<open>A list of numbers that is longer than the array is cut off, and the pointer returned is to the numbers that did not fit.\<close>

lemma get_options_list:
  assumes "cstr m p (commas ns)" and "p \<noteq> 0" and "\<forall>n \<in> set ns. n < 2 ^ 31" and "length (commas ns) < 2 ^ 31"
    and "1 \<le> nints" and "nints < 2 ^ 31"
  shows "\<exists>q. get_options m p nints ints =
      Some (q, \<lambda>j. if j = 0 then int (min (length ns) (nat nints - 1))
        else if 1 \<le> j \<and> j \<le> int (min (length ns) (nat nints - 1)) then int (ns ! (nat j - 1)) else ints j) \<and>
    cstr m q (commas (drop (nat nints - 1) ns))"
proof -
  define k where "k = min (length ns) (nat (nints - 1))"
  have k: "k = min (length ns) (nat nints - 1)" "int k < 2 ^ 31" using assms(6) by (auto simp: k_def)
  obtain q where q: "options_loop m p nints 1 ints = Some (q, 1 + int k, \<lambda>j. if 1 \<le> j \<and> j < 1 + int k then int (ns ! nat (j - 1)) else ints j)"
    "cstr m q (commas (drop k ns))"
    using options_loop_list [OF assms(6,1,2,3,4) order_refl assms(5), of ints] unfolding Let_def k_def [symmetric] by blast
  have w: "wrap (int k) = int k" using k(2) by (intro wrap_self) simp_all
  have d: "drop k ns = drop (nat nints - 1) ns" unfolding k(1) by (simp add: min_def)
  show ?thesis unfolding k(1) [symmetric]
    by (rule exI [of _ q]) (use q w in \<open>auto simp: get_options_def d fun_eq_iff nat_diff_distrib\<close>)
qed

text \<open>Numbers and ranges, as the comment on \<^verbatim>\<open>get_options\<close> describes them, and the integers they stand for.\<close>

datatype opt_item = One nat | Range nat nat

fun item_text :: "opt_item \<Rightarrow> u8 list" where
  "item_text (One n) = show_number 10 n"
| "item_text (Range a b) = show_number 10 a @ 45 # show_number 10 b"

fun item_values :: "opt_item \<Rightarrow> nat list" where
  "item_values (One n) = [n]"
| "item_values (Range a b) = [a..<Suc b]"

fun item_ok :: "opt_item \<Rightarrow> bool" where
  "item_ok (One n) \<longleftrightarrow> n < 2 ^ 31"
| "item_ok (Range a b) \<longleftrightarrow> a \<le> b \<and> b < 2 ^ 31"

fun join :: "opt_item list \<Rightarrow> u8 list" where
  "join [] = []"
| "join [x] = item_text x"
| "join (x # y # xs) = item_text x @ 44 # join (y # xs)"

definition expand :: "opt_item list \<Rightarrow> nat list" where
  "expand xs = concat (map item_values xs)"

definition put_ints :: "(int \<Rightarrow> int) \<Rightarrow> int \<Rightarrow> nat list \<Rightarrow> (int \<Rightarrow> int)" where
  "put_ints ints i vs = (\<lambda>j. if i \<le> j \<and> j < i + int (length vs) then int (vs ! nat (j - i)) else ints j)"

lemma put_ints_append: "put_ints (put_ints ints i xs) (i + int (length xs)) ys = put_ints ints i (xs @ ys)"
proof
  fix j
  have "nat (j - i) - length xs = nat (j - (i + int (length xs)))" if "i + int (length xs) \<le> j" using that by simp
  then show "put_ints (put_ints ints i xs) (i + int (length xs)) ys j = put_ints ints i (xs @ ys) j"
    by (auto simp: put_ints_def nth_append)
qed

lemma put_ints_one: "put_ints ints i [n] = ints(i := int n)"
  by (auto simp: put_ints_def fun_eq_iff)

lemma put_ints_Nil: "put_ints ints i [] = ints"
  by (auto simp: put_ints_def fun_eq_iff)

lemma put_ints_overwrite: "vs \<noteq> [] \<Longrightarrow> put_ints (ints(i := x)) i vs = put_ints ints i vs"
  by (cases vs) (auto simp: put_ints_def fun_eq_iff)

lemma fill_range_put:
  "a \<le> b \<Longrightarrow> b - a \<le> n \<Longrightarrow> fill_range ints p (int a) (int b) n = put_ints ints p [a..<b]"
proof (induction "b - a" arbitrary: a n p ints)
  case 0
  then show ?case by (subst fill_range.simps) (simp add: put_ints_Nil)
next
  case (Suc k)
  then have "a < b" "n \<noteq> 0" by simp_all
  then have "fill_range ints p (int a) (int b) n = fill_range (ints(p := int a)) (p + 1) (int (Suc a)) (int b) (n - 1)"
    by (subst fill_range.simps) (simp add: add.commute)
  also have "\<dots> = put_ints (put_ints ints p [a]) (p + int (length [a])) [Suc a..<b]"
    using Suc.hyps(1) [of "Suc a" "n - 1" "ints(p := int a)" "p + 1"] Suc.hyps(2) Suc.prems by (simp add: put_ints_one)
  also have "\<dots> = put_ints ints p [a..<b]" unfolding put_ints_append using Suc.hyps(2) by (simp add: upt_conv_Cons)
  finally show ?case .
qed

lemma get_option_range:
  assumes "cstr m p (show_number 10 a @ 45 # t)" and "p \<noteq> 0" and "a < 2 ^ 31" and "length (show_number 10 a @ 45 # t) < 2 ^ 31"
  shows "get_option m p = Some (3, p + length (show_number 10 a), Some (int a))"
proof -
  have ne: "show_number 10 a \<noteq> []" using show_number_digits [of 10 a] by simp
  then obtain c r where "show_number 10 a = c # r" by (cases "show_number 10 a") auto
  then have "m p = c" "c \<noteq> 0" using assms(1) show_number_is_digit [of a] by simp_all
  moreover note run = simple_strtol_show [OF assms(1) _ assms(4), simplified]
  moreover have "m (p + length (show_number 10 a)) = 45" using run(2) by simp
  ultimately show ?thesis using assms(2) ne by (simp add: get_option_def to_int_of_nat [OF assms(3)] Let_def)
qed

text \<open>A range stores all its numbers but the last, and leaves the last one to the next round.\<close>

lemma options_loop_range:
  assumes c: "cstr m p (show_number 10 a @ 45 # show_number 10 b @ t)" and "t = [] \<or> hd t = 44" and "p \<noteq> 0" and "a \<le> b" "b < 2 ^ 31"
    and len: "length (show_number 10 a @ 45 # show_number 10 b @ t) < 2 ^ 31"
    and "1 \<le> i" "i + int (b - a) < nints" "nints < 2 ^ 31"
  defines "q \<equiv> p + length (show_number 10 a) + 1"
  shows "\<exists>ints'. options_loop m p nints i ints = options_loop m q nints (i + int (b - a)) ints' \<and>
    ints'(i + int (b - a) := int b) = put_ints ints i [a..<Suc b]"
proof (intro exI conjI)
  let ?ints = "put_ints (ints(i := int a)) i [a..<b]"
  have opt: "get_option m p = Some (3, p + length (show_number 10 a), Some (int a))"
    using get_option_range [OF c assms(3) _ len] assms(4,5) by simp
  have cq: "cstr m q (show_number 10 b @ t)" using cstr_suffix [OF c] by (simp add: q_def)
  have lq: "length (show_number 10 b @ t) < 2 ^ 31" using len by simp
  have tq: "t = [] \<or> hd t \<in> {44, 45}" using assms(2) by blast
  have up: "to_int (of_nat b) = int b" by (rule to_int_of_nat [OF assms(5)])
  have w: "wrap (int b - int a) = int (b - a)" using assms(4,5) by (subst wrap_self) (simp_all add: of_nat_diff)
  have n: "b - a \<le> nat (nints - i)" using assms(8) by linarith
  have rng: "get_range m (p + length (show_number 10 a)) (ints(i := int a)) i (nat (nints - i)) = Some (q, ?ints, int (b - a))"
    using simple_strtol_show(1) [OF cq tq lq] fill_range_put [OF assms(4) n] unfolding get_range_def Let_def q_def [symmetric]
    by (simp add: up w)
  have ww: "wrap (wrap (i + (int (b - a) - 1)) + 1) = i + int (b - a)" using assms(7-9) by (simp add: wrap_self)
  have "i < nints" using assms(8) by simp
  then show "options_loop m p nints i ints = options_loop m q nints (i + int (b - a)) ?ints"
    by (subst options_loop.simps) (simp add: opt rng ww store_int_def)
  have "?ints(i + int (b - a) := int b) = put_ints ?ints (i + int (length [a..<b])) [b]" by (simp add: put_ints_one)
  also have "\<dots> = put_ints ints i [a..<Suc b]" unfolding put_ints_append using assms(4) by (simp add: put_ints_overwrite)
  finally show "?ints(i + int (b - a) := int b) = put_ints ints i [a..<Suc b]" .
qed

lemma options_loop_last:
  assumes "cstr m p (show_number 10 n)" and "p \<noteq> 0" and "n < 2 ^ 31" and "length (show_number 10 n) < 2 ^ 31" and "1 \<le> i" "i < nints" "nints < 2 ^ 31"
  shows "options_loop m p nints i ints = Some (p + length (show_number 10 n), i + 1, ints(i := int n))"
proof -
  have "wrap (i + 1) = i + 1" using assms(5-7) by (intro wrap_self) simp_all
  then show ?thesis using get_option_number [of m p n "[]"] assms by (subst options_loop.simps) (simp add: store_int_def)
qed

lemma options_loop_more:
  assumes "cstr m p (show_number 10 n @ 44 # t)" and "p \<noteq> 0" and "n < 2 ^ 31" and "length (show_number 10 n @ 44 # t) < 2 ^ 31"
    and "1 \<le> i" "i < nints" "nints < 2 ^ 31"
  shows "options_loop m p nints i ints = options_loop m (p + length (show_number 10 n) + 1) nints (i + 1) (ints(i := int n))"
proof -
  have "wrap (i + 1) = i + 1" using assms(5-7) by (intro wrap_self) simp_all
  then show ?thesis using get_option_number [of m p n "44 # t"] assms by (subst options_loop.simps) (simp add: store_int_def)
qed

text \<open>The number at the end of an item is where the next item begins.\<close>

lemma options_loop_item:
  assumes "cstr m p (item_text x @ t)" and "t = [] \<or> hd t = 44" and "p \<noteq> 0" and "item_ok x" and "length (item_text x @ t) < 2 ^ 31"
    and "1 \<le> i" "i + int (length (item_values x)) \<le> nints" "nints < 2 ^ 31"
  shows "options_loop m p nints i ints =
    (if t = [] then Some (p + length (item_text x), i + int (length (item_values x)), put_ints ints i (item_values x))
     else options_loop m (p + length (item_text x) + 1) nints (i + int (length (item_values x))) (put_ints ints i (item_values x)))"
proof -
  have number: "options_loop m q nints k ints' =
      (if t = [] then Some (q + length (show_number 10 n), k + 1, ints'(k := int n))
       else options_loop m (q + length (show_number 10 n) + 1) nints (k + 1) (ints'(k := int n)))"
    if "cstr m q (show_number 10 n @ t)" "q \<noteq> 0" "n < 2 ^ 31" "length (show_number 10 n @ t) < 2 ^ 31" "1 \<le> k" "k < nints" for q n k ints'
  proof (cases t)
    case Nil
    then show ?thesis using options_loop_last [of m q n k nints ints'] that assms(8) by simp
  next
    case (Cons c u)
    then have "t = 44 # u" using assms(2) by simp
    then show ?thesis using options_loop_more [of m q n u k nints ints'] that assms(8) by simp
  qed
  show ?thesis
  proof (cases x)
    case (One n)
    then show ?thesis using number [of p n i ints] assms by (simp add: put_ints_one)
  next
    case (Range a b)
    let ?q = "p + length (show_number 10 a) + 1"
    have ab: "a \<le> b" "b < 2 ^ 31" using assms(4) Range by simp_all
    have fits: "i + int (b - a) < nints" using assms(7) Range ab by simp
    obtain ints' where r: "options_loop m p nints i ints = options_loop m ?q nints (i + int (b - a)) ints'"
      "ints'(i + int (b - a) := int b) = put_ints ints i [a..<Suc b]"
      using options_loop_range [of m p a b t i nints ints] assms(1-3,5,6,8) ab fits Range by auto
    have "cstr m ?q (show_number 10 b @ t)" using assms(1) cstr_suffix [of m p "show_number 10 a" "45 # show_number 10 b @ t"] Range by simp
    note step = number [OF this _ ab(2), of "i + int (b - a)" ints']
    have "i + int (b - a) + 1 = i + int (length [a..<Suc b])" using ab by simp
    then show ?thesis using r step assms(5,6) fits Range by (simp add: add.assoc)
  qed
qed

lemma join_split: "\<exists>t. join (x # xs) = item_text x @ t \<and> (t = [] \<and> xs = [] \<or> t = 44 # join xs \<and> xs \<noteq> [])"
  by (cases xs) auto

lemma options_loop_items:
  assumes "nints < 2 ^ 31"
  shows "cstr m p (join xs) \<Longrightarrow> p \<noteq> 0 \<Longrightarrow> \<forall>x \<in> set xs. item_ok x \<Longrightarrow> length (join xs) < 2 ^ 31 \<Longrightarrow> 1 \<le> i \<Longrightarrow>
    i + int (length (expand xs)) \<le> nints \<Longrightarrow>
    options_loop m p nints i ints = Some (p + length (join xs), i + int (length (expand xs)), put_ints ints i (expand xs))"
proof (induction xs arbitrary: p i ints)
  case Nil
  then show ?case by (subst options_loop.simps) (simp add: get_option_def store_int_def expand_def put_ints_Nil)
next
  case (Cons x xs)
  obtain t where t: "join (x # xs) = item_text x @ t" "t = [] \<and> xs = [] \<or> t = 44 # join xs \<and> xs \<noteq> []"
    using join_split by blast
  have e: "expand (x # xs) = item_values x @ expand xs" by (simp add: expand_def)
  have c: "cstr m p (item_text x @ t)" "length (item_text x @ t) < 2 ^ 31" using Cons.prems(1,4) t(1) by simp_all
  have fits: "i + int (length (item_values x)) \<le> nints" using Cons.prems(6) e by simp
  have hd: "t = [] \<or> hd t = 44" using t(2) by auto
  have ok: "item_ok x" using Cons.prems(3) by simp
  note step = options_loop_item [OF c(1) hd Cons.prems(2) ok c(2) Cons.prems(5) fits assms, of ints]
  show ?case
  proof (cases "xs = []")
    case True
    then show ?thesis using step t by (simp add: expand_def)
  next
    case False
    then have t44: "t = 44 # join xs" using t(2) by simp
    let ?p = "p + length (item_text x) + 1" and ?i = "i + int (length (item_values x))"
    have "cstr m ?p (join xs)" using cstr_suffix [OF c(1)] t44 by simp
    moreover have "length (join xs) < 2 ^ 31" using c(2) t44 by simp
    moreover have "?i + int (length (expand xs)) \<le> nints" using Cons.prems(6) e by simp
    ultimately have "options_loop m ?p nints ?i (put_ints ints i (item_values x)) =
        Some (?p + length (join xs), ?i + int (length (expand xs)), put_ints (put_ints ints i (item_values x)) ?i (expand xs))"
      using Cons.prems(3,5) by (intro Cons.IH) simp_all
    then show ?thesis using step t44 t(1) by (simp add: put_ints_append e add.assoc)
  qed
qed

section \<open>Options\<close>

function items :: "u8 list \<Rightarrow> u8 list list" where
  "items s = takeWhile (\<lambda>c. c \<noteq> 44) s # (case dropWhile (\<lambda>c. c \<noteq> 44) s of [] \<Rightarrow> [] | c # r \<Rightarrow> items r)"
  by auto
termination
proof (relation "measure length")
  fix s c and r :: "u8 list" assume "dropWhile (\<lambda>c. c \<noteq> 44) s = c # r"
  then show "(r, s) \<in> measure length" using length_dropWhile_le [of "\<lambda>c. c \<noteq> 44" s] by simp
qed simp

declare items.simps [simp del]

lemma skip_item_cstr: "cstr m p s \<Longrightarrow> skip_item m p = Some (p + length (takeWhile (\<lambda>c. c \<noteq> 44) s))"
proof (induction s arbitrary: p)
  case (Cons c s)
  then show ?case by (subst skip_item.simps) auto
qed (simp add: skip_item.simps)

lemma lex_sign_zero: "lex_sign s t = 0 \<longleftrightarrow> s = t"
  by (simp add: lex_sign_def)

lemma parse_option_str_items:
  assumes q: "cstr m q opt" and "opt \<noteq> []" and "44 \<notin> set opt"
  shows "cstr m p s \<Longrightarrow> parse_option_str m p q = Some (opt \<in> set (items s))"
proof (induction s arbitrary: p rule: length_induct)
  case (1 s)
  define hit where "hit \<longleftrightarrow> take (length opt) s = opt"
  define s' where "s' = (if hit then drop (length opt) s else s)"
  define p' where "p' = (if hit then p + length opt else p)"
  define r where "r = dropWhile (\<lambda>c. c \<noteq> 44) s'"
  define it where "it = takeWhile (\<lambda>c. c \<noteq> 44) s'"
  have split: "s = opt @ s'" if hit using that unfolding hit_def s'_def by (metis append_take_drop_id that)
  have c': "cstr m p' s'"
  proof (cases hit)
    case True
    then show ?thesis using "1.prems" split [OF True] cstr_suffix [of m p opt s'] by (simp add: p'_def)
  qed (use "1.prems" in \<open>simp add: p'_def s'_def\<close>)
  have "strncmp m p q (length opt) = 0 \<longleftrightarrow> hit" unfolding strncmp_cstr [OF "1.prems" q] lex_sign_zero hit_def by simp
  note cmp = this
  have first: "takeWhile (\<lambda>c. c \<noteq> 44) s = (if hit then opt @ it else it)" "dropWhile (\<lambda>c. c \<noteq> 44) s = r"
  proof -
    have "takeWhile (\<lambda>c. c \<noteq> 44) (opt @ s') = opt @ it" "dropWhile (\<lambda>c. c \<noteq> 44) (opt @ s') = r"
      unfolding it_def r_def using assms(3) by (auto intro: takeWhile_append2 dropWhile_append2)
    then have "takeWhile (\<lambda>c. c \<noteq> 44) s = opt @ it \<and> dropWhile (\<lambda>c. c \<noteq> 44) s = r" if hit using split [OF that] by metis
    moreover have "takeWhile (\<lambda>c. c \<noteq> 44) s = it \<and> dropWhile (\<lambda>c. c \<noteq> 44) s = r" if "\<not> hit"
      using that by (simp add: it_def r_def s'_def)
    ultimately show "takeWhile (\<lambda>c. c \<noteq> 44) s = (if hit then opt @ it else it)" "dropWhile (\<lambda>c. c \<noteq> 44) s = r"
      by (cases hit; simp)+
  qed
  have list: "items s = takeWhile (\<lambda>c. c \<noteq> 44) s # (case r of [] \<Rightarrow> [] | c # u \<Rightarrow> items u)"
    by (subst items.simps) (simp only: first(2))
  show ?case
  proof (cases "s = []")
    case True
    then show ?thesis using "1.prems" assms(2) by (subst parse_option_str.simps) (simp add: items.simps [of "[]"])
  next
    case ne: False
    then have mp: "m p \<noteq> 0" using "1.prems" by (cases s) auto
    note unf = parse_option_str.simps [of m p q, unfolded strlen_cstr [OF q] cmp Option.bind.simps Let_def if_P [OF mp], folded p'_def]
    have m': "m p' = 0 \<or> m p' = 44 \<longleftrightarrow> it = []" using c' unfolding it_def by (cases s') auto
    show ?thesis
    proof (cases "hit \<and> it = []")
      case True
      then have "opt \<in> set (items s)" using first(1) unfolding list by simp
      then show ?thesis using True m' by (simp add: unf)
    next
      case False
      have e: "cstr m (p' + length it) r" using c' cstr_suffix [of m p' it r] unfolding it_def r_def by simp
      have adv: "parse_option_str m p q = parse_option_str m (if m (p' + length it) = 44 then p' + length it + 1 else p' + length it) q"
      proof -
        have "\<not> (hit \<and> (m p' = 0 \<or> m p' = 44))" using False m' by blast
        then show ?thesis using skip_item_cstr [OF c'] unfolding it_def [symmetric] unf by (simp only: if_False Option.bind.simps)
      qed
      have no: "takeWhile (\<lambda>c. c \<noteq> 44) s \<noteq> opt"
      proof
        assume a: "takeWhile (\<lambda>c. c \<noteq> 44) s = opt"
        then have "take (length opt) s = opt" by (metis takeWhile_eq_take)
        then have hit by (simp add: hit_def)
        then show False using first(1) a False by simp
      qed
      show ?thesis
      proof (cases r)
        case Nil
        then have "m (p' + length it) = 0" using e by simp
        then have "parse_option_str m p q = Some False"
          using adv by (simp add: parse_option_str.simps [of m "p' + length it"])
        then show ?thesis using no Nil unfolding list by simp
      next
        case (Cons c u)
        then have c: "c = 44" using hd_dropWhile [of "\<lambda>c. c \<noteq> 44" s'] by (simp flip: r_def)
        have "length u < length s" using length_dropWhile_le [of "\<lambda>c. c \<noteq> 44" s] unfolding first(2) Cons by simp
        moreover have "cstr m (p' + length it + 1) u" "m (p' + length it) = 44" using e Cons c by simp_all
        ultimately have "parse_option_str m p q = Some (opt \<in> set (items u))"
          using "1.IH" adv by simp
        then show ?thesis using no Cons unfolding list by simp
      qed
    qed
  qed
qed

section \<open>Arguments\<close>

lemma arg_loop_plain:
  "cstr m (args + i) (t @ u) \<Longrightarrow> \<forall>c \<in> set t. \<not> isspace c \<and> c \<noteq> 34 \<and> (equals = 0 \<longrightarrow> c \<noteq> 61) \<Longrightarrow>
     arg_loop m args i equals False = arg_loop m args (i + length t) equals False"
proof (induction t arbitrary: i)
  case (Cons c t)
  have "arg_loop m args i equals False = arg_loop m args (i + 1) equals False"
    using Cons.prems by (subst arg_loop.simps) (auto simp: Let_def)
  then show ?case using Cons.IH [of "i + 1"] Cons.prems by simp
qed simp

lemma isspace_equals [simp]: "\<not> isspace 61" and isspace_blank [simp]: "isspace 32"
  by code_simp+

text \<open>A word of the form \<open>name=val\<close> without quotes, with a blank behind it.\<close>

lemma next_arg_pair:
  assumes c: "cstr m p (name @ 61 # val @ 32 # rest)" and n: "\<forall>c \<in> set name. \<not> isspace c \<and> c \<noteq> 34 \<and> c \<noteq> 61" "name \<noteq> []"
    and v: "\<forall>c \<in> set val. \<not> isspace c \<and> c \<noteq> 34" and len: "length name + length val < 2 ^ 31"
  defines "vp \<equiv> p + length name + 1" and "np \<equiv> p + length name + length val + 2"
  shows "\<exists>m'. next_arg m p = Some (m', np + length (takeWhile isspace rest), p, vp) \<and>
    cstr m' p name \<and> cstr m' vp val \<and> cstr m' np rest \<and> (\<forall>a. a \<noteq> p + length name \<and> a \<noteq> vp + length val \<longrightarrow> m' a = m a)"
proof -
  obtain c0 r0 where cr: "name = c0 # r0" using n(2) by (cases name) auto
  then have q: "m p \<noteq> 34" using c n(1) by simp
  define m' where "m' = m(p + length name := 0, vp + length val := 0)"
  have c1: "cstr m (p + length name) (61 # val @ 32 # rest)" using cstr_suffix [OF c] .
  then have c2: "cstr m vp (val @ 32 # rest)" by (simp add: vp_def)
  then have c3: "cstr m (vp + length val) (32 # rest)" by (rule cstr_suffix)
  then have sp: "m (vp + length val) = 32" "cstr m np rest" by (simp_all add: np_def vp_def)
  have "arg_loop m p 0 0 False = arg_loop m p (length name) 0 False"
    using arg_loop_plain [of m p 0 name "61 # val @ 32 # rest" 0] c n(1) by simp
  also have "\<dots> = arg_loop m p (length name + 1) (length name) False"
    using c1 n(2) by (subst arg_loop.simps) (simp add: Let_def)
  also have "\<dots> = arg_loop m p (length name + 1 + length val) (length name) False"
    using c2 v n(2) by (intro arg_loop_plain [where u = "32 # rest"]) (auto simp: vp_def add.assoc)
  also have "\<dots> = Some (length name + 1 + length val, length name)"
    using sp(1) by (subst arg_loop.simps) (simp add: vp_def add.assoc)
  finally have loop: "arg_loop m p 0 0 False = Some (length name + 1 + length val, length name)" .
  have "m vp \<noteq> 34" using c2 v by (cases val) auto
  then have run: "next_arg m p = map_option (\<lambda>nxt. (m', nxt, p, vp)) (skip_spaces m' np)"
    using q loop n(2) sp(1) by (simp add: next_arg_def m'_def vp_def np_def Let_def add.assoc)
  have far: "m' (p + i) = m (p + i)" if "i < length name" for i using that by (simp add: m'_def vp_def)
  have "cstr m' p name" using c far unfolding cstr_append by (auto simp: cstr_nth m'_def vp_def)
  moreover have "cstr m' vp val" using c2 unfolding cstr_append by (auto simp: cstr_nth m'_def vp_def)
  moreover have r: "cstr m' np rest" using sp(2) by (subst cstr_cong [of _ _ _ m]) (auto simp: m'_def vp_def np_def)
  moreover have "skip_spaces m' np = Some (np + length (takeWhile isspace rest))" by (rule skip_spaces_cstr [OF r])
  ultimately show ?thesis using run by (intro exI [of _ m']) (simp add: m'_def vp_def)
qed

text \<open>A lone quote at the end of the command line: the index before the first character is 4294967295, and a quote that stands
  there, far behind the string, is overwritten.\<close>

lemma next_arg_lone_quote:
  assumes "m p = 34" and "m (p + 1) = 0" and "m (p + 2 ^ 32) = 34"
  shows "next_arg m p = Some (m(p + 2 ^ 32 := 0), p + 1, p + 1, 0)"
proof -
  have "arg_loop m (p + 1) 0 0 True = Some (0, 0)" using assms(2) by (subst arg_loop.simps) simp
  moreover have "unat (- 1 :: u32) = 4294967295" by (simp add: unsigned_minus_1_eq_mask mask_eq_exp_minus_1)
  then have "cut_quote m (p + 1) 0 = m(p + 2 ^ 32 := 0)" using assms(3) by (simp add: cut_quote_def Let_def add.commute)
  moreover have "skip_spaces (m(p + 2 ^ 32 := 0)) (p + 1) = Some (p + 1)"
    using skip_spaces_cstr [of "m(p + 2 ^ 32 := 0)" "p + 1" "[]"] assms(2) by simp
  ultimately show ?thesis using assms(1,2) by (simp add: next_arg_def Let_def)
qed

section \<open>Properties\<close>

text \<open>
  (C38) \<^verbatim>\<open>get_options\<close> returns, and a string of numbers and ranges separated by commas whose integers fit in the array is
  read exactly: the integers of the items, ranges expanded, are stored from index 1 on, their count at index 0, nothing is
  written anywhere else, and the pointer returned is to the end of the string.
\<close>

theorem get_options_expands:
  assumes "cstr m p (join xs)" and "p \<noteq> 0" and "\<forall>x \<in> set xs. item_ok x" and "length (join xs) < 2 ^ 31"
    and "int (length (expand xs)) < nints" and "nints < 2 ^ 31"
  shows "get_options m p nints ints =
    Some (p + length (join xs), (put_ints ints 1 (expand xs))(0 := int (length (expand xs))))"
proof -
  have "options_loop m p nints 1 ints = Some (p + length (join xs), 1 + int (length (expand xs)), put_ints ints 1 (expand xs))"
    using options_loop_items [OF assms(6,1-4), of 1 ints] assms(5) by simp
  then show ?thesis using assms(5,6) by (simp add: get_options_def wrap_self)
qed

lemma sample_options:
  "cstr (mem_at 100 [50, 45, 52, 44, 55]) 100 (join [Range 2 4, One 7])" "expand [Range 2 4, One 7] = [2, 3, 4, 7]"
  "length (join [Range 2 4, One 7]) = 5"
  by (simp_all add: show_number.simps digit_char_def mem_at_def expand_def upt_rec)

theorem get_options_expands_witness:
  "get_options (mem_at 100 [50, 45, 52, 44, 55]) 100 6 (\<lambda>_. 0) = Some (105, (put_ints (\<lambda>_. 0) 1 [2, 3, 4, 7])(0 := 4))"
  using get_options_expands [OF sample_options(1), of 6 "\<lambda>_. 0"] unfolding sample_options(2,3) by simp


end
