(* ===== verification/Llist.thy ===== *)
theory Llist imports Prelude begin

text \<open>
  The lock-less list, \<^verbatim>\<open>lib/src/llist.c\<close> and \<^verbatim>\<open>include/linux/llist.h\<close>.  The operations that retry are given step by step, one
  step for each access to memory that other threads can see, so that their steps can be interleaved; memory is sequentially
  consistent and \<^verbatim>\<open>cmpxchg\<close> and \<^verbatim>\<open>xchg\<close> are atomic.  A node is its address and \<^verbatim>\<open>NULL\<close> is 0.  The step relation puts any number
  of threads on one list under the rules of the table in \<^verbatim>\<open>llist.h\<close>; the list then behaves as a stack.
\<close>

section \<open>Operations\<close>

record llist =
  nxt :: "nat \<Rightarrow> nat"
  first :: nat

definition init_llist_head :: "llist \<Rightarrow> llist" where
  "init_llist_head l = l\<lparr>first := 0\<rparr>"

definition llist_empty :: "llist \<Rightarrow> bool" where
  "llist_empty l \<longleftrightarrow> first l = 0"

text \<open>The old value of \<^verbatim>\<open>first\<close>, which is replaced if it is the one expected.\<close>

definition cmpxchg :: "llist \<Rightarrow> nat \<Rightarrow> nat \<Rightarrow> nat \<times> llist" where
  "cmpxchg l old new = (first l, if first l = old then l\<lparr>first := new\<rparr> else l)"

datatype add_pc = Add_Read | Add_Link nat | Add_Swap nat

text \<open>One step of \<^verbatim>\<open>llist_add_batch\<close>: the place where it continues or the result.\<close>

fun llist_add_batch :: "nat \<Rightarrow> nat \<Rightarrow> add_pc \<Rightarrow> llist \<Rightarrow> (add_pc + bool) \<times> llist" where
  "llist_add_batch new_first new_last Add_Read l = (Inl (Add_Link (first l)), l)"
| "llist_add_batch new_first new_last (Add_Link f) l = (Inl (Add_Swap f), l\<lparr>nxt := (nxt l)(new_last := f)\<rparr>)"
| "llist_add_batch new_first new_last (Add_Swap f) l =
     (let (old, l) = cmpxchg l f new_first in (if old \<noteq> f then Inl Add_Read else Inr (f = 0), l))"

definition llist_add :: "nat \<Rightarrow> add_pc \<Rightarrow> llist \<Rightarrow> (add_pc + bool) \<times> llist" where
  "llist_add new = llist_add_batch new new"

datatype del_pc = Del_Read | Del_Next nat | Del_Swap nat nat

text \<open>The head of the loop of \<^verbatim>\<open>llist_del_first\<close>.\<close>

definition del_entry :: "nat \<Rightarrow> del_pc + nat" where
  "del_entry entry = (if entry = 0 then Inr 0 else Inl (Del_Next entry))"

fun llist_del_first :: "del_pc \<Rightarrow> llist \<Rightarrow> (del_pc + nat) \<times> llist" where
  "llist_del_first Del_Read l = (del_entry (first l), l)"
| "llist_del_first (Del_Next entry) l = (Inl (Del_Swap entry (nxt l entry)), l)"
| "llist_del_first (Del_Swap old_entry n) l =
     (let (entry, l) = cmpxchg l old_entry n in (if entry = old_entry then Inr entry else del_entry entry, l))"

definition llist_del_all :: "llist \<Rightarrow> nat \<times> llist" where
  "llist_del_all l = (first l, l\<lparr>first := 0\<rparr>)"

partial_function (option) reverse_loop :: "(nat \<Rightarrow> nat) \<Rightarrow> nat \<Rightarrow> nat \<Rightarrow> ((nat \<Rightarrow> nat) \<times> nat) option" where
  "reverse_loop n head new_head =
     (if head \<noteq> 0 then reverse_loop (n(head := new_head)) (n head) head else Some (n, new_head))"

definition llist_reverse_order :: "(nat \<Rightarrow> nat) \<Rightarrow> nat \<Rightarrow> ((nat \<Rightarrow> nat) \<times> nat) option" where
  "llist_reverse_order n head = reverse_loop n head 0"

section \<open>Chains\<close>

fun chain :: "(nat \<Rightarrow> nat) \<Rightarrow> nat \<Rightarrow> nat list \<Rightarrow> nat \<Rightarrow> bool" where
  "chain n p [] q \<longleftrightarrow> p = q"
| "chain n p (x # xs) q \<longleftrightarrow> p = x \<and> chain n (n x) xs q"

lemma chain_append [simp]: "chain n p (xs @ ys) q \<longleftrightarrow> (\<exists>r. chain n p xs r \<and> chain n r ys q)"
  by (induction xs arbitrary: p) auto

lemma chain_upd [simp]: "x \<notin> set xs \<Longrightarrow> chain (n(x := y)) p xs q \<longleftrightarrow> chain n p xs q"
  by (induction xs arbitrary: p) auto

lemma chain_hd: "chain n p xs 0 \<Longrightarrow> 0 \<notin> set xs \<Longrightarrow> p = 0 \<longleftrightarrow> xs = []"
  by (cases xs) auto

text \<open>A batch: nodes that are linked with each other; what the last one points to does not matter.\<close>

definition batch :: "(nat \<Rightarrow> nat) \<Rightarrow> nat list \<Rightarrow> bool" where
  "batch n b \<longleftrightarrow> b \<noteq> [] \<and> distinct b \<and> 0 \<notin> set b \<and> chain n (hd b) b (n (last b))"

lemma batch_upd: "x \<notin> set b \<Longrightarrow> batch (n(x := y)) b \<longleftrightarrow> batch n b"
  by (auto simp: batch_def)

lemma batch_link:
  assumes "batch n b"
  shows "batch (n(last b := f)) b"
proof -
  obtain a z where b: "b = a @ [z]" using assms by (metis append_butlast_last_id batch_def)
  then show ?thesis using assms by (auto simp: batch_def)
qed

lemma batch_chain: "batch n b \<Longrightarrow> n (last b) = f \<Longrightarrow> chain n f xs 0 \<Longrightarrow> chain n (hd b) (b @ xs) 0"
  by (auto simp: batch_def)

lemma reverse_loop_chain:
  "chain n p xs 0 \<Longrightarrow> chain n r ys 0 \<Longrightarrow> distinct xs \<Longrightarrow> 0 \<notin> set xs \<Longrightarrow> set xs \<inter> set ys = {} \<Longrightarrow>
     \<exists>n' q. reverse_loop n p r = Some (n', q) \<and> chain n' q (rev xs @ ys) 0 \<and> (\<forall>x. x \<notin> set xs \<longrightarrow> n' x = n x)"
proof (induction xs arbitrary: n p r ys)
  case Nil
  then show ?case by (subst reverse_loop.simps) simp
next
  case (Cons x xs)
  then have "reverse_loop n p r = reverse_loop (n(x := r)) (n x) x" by (subst reverse_loop.simps) simp
  moreover have "\<exists>n' q. reverse_loop (n(x := r)) (n x) x = Some (n', q) \<and> chain n' q (rev xs @ x # ys) 0 \<and>
      (\<forall>y. y \<notin> set xs \<longrightarrow> n' y = (n(x := r)) y)"
  proof (rule Cons.IH)
    have "x \<notin> set xs" "x \<notin> set ys" using Cons.prems by auto
    then show "chain (n(x := r)) (n x) xs 0" "chain (n(x := r)) x (x # ys) 0" using Cons.prems by simp_all
  qed (use Cons.prems in auto)
  ultimately show ?case by (auto simp del: chain_append)
qed

section \<open>Threads\<close>

text \<open>A thread that adds knows the nodes of its batch.\<close>

datatype thread = Idle | Adding "nat list" add_pc | Deleting del_pc

record sys =
  shared :: llist
  thr :: "nat \<Rightarrow> thread"

text \<open>The operations that returned, with their results.\<close>

datatype event = Added "nat list" bool | Deleted nat | Emptied nat

inductive on_list :: "llist \<Rightarrow> nat \<Rightarrow> bool" for l where
  first_on: "first l \<noteq> 0 \<Longrightarrow> on_list l (first l)"
| next_on: "on_list l x \<Longrightarrow> nxt l x \<noteq> 0 \<Longrightarrow> on_list l (nxt l x)"

text \<open>A node that its owner may use: not on the list, and not in a batch that is being added.\<close>

definition free_node :: "sys \<Rightarrow> nat \<Rightarrow> bool" where
  "free_node s x \<longleftrightarrow> \<not> on_list (shared s) x \<and> (\<forall>t b pc. thr s t = Adding b pc \<longrightarrow> x \<notin> set b)"

definition no_deleter :: "sys \<Rightarrow> bool" where
  "no_deleter s \<longleftrightarrow> (\<forall>t pc. thr s t \<noteq> Deleting pc)"

fun continue :: "('pc \<Rightarrow> thread) \<Rightarrow> 'pc + 'r \<Rightarrow> thread" where
  "continue f (Inl pc) = f pc"
| "continue f (Inr r) = Idle"

fun returned :: "('r \<Rightarrow> event) \<Rightarrow> 'pc + 'r \<Rightarrow> event list" where
  "returned f (Inl pc) = []"
| "returned f (Inr r) = [f r]"

text \<open>
  The rules of use: batches consist of free nodes, \<^verbatim>\<open>llist_del_first\<close> is called only while no other thread is inside it, and so
  is \<^verbatim>\<open>llist_del_all\<close>.  Owners write the links of free nodes at any time.
\<close>

inductive step :: "sys \<Rightarrow> event list \<Rightarrow> sys \<Rightarrow> bool" where
  own: "x \<noteq> 0 \<Longrightarrow> free_node s x \<Longrightarrow>
    step s [] (s\<lparr>shared := (shared s)\<lparr>nxt := (nxt (shared s))(x := y)\<rparr>\<rparr>)"
| start_add: "thr s t = Idle \<Longrightarrow> batch (nxt (shared s)) b \<Longrightarrow> \<forall>x \<in> set b. free_node s x \<Longrightarrow>
    step s [] (s\<lparr>thr := (thr s)(t := Adding b Add_Read)\<rparr>)"
| add: "thr s t = Adding b pc \<Longrightarrow> llist_add_batch (hd b) (last b) pc (shared s) = (r, l) \<Longrightarrow>
    step s (returned (Added b) r) (s\<lparr>shared := l, thr := (thr s)(t := continue (Adding b) r)\<rparr>)"
| start_del: "thr s t = Idle \<Longrightarrow> no_deleter s \<Longrightarrow> step s [] (s\<lparr>thr := (thr s)(t := Deleting Del_Read)\<rparr>)"
| del: "thr s t = Deleting pc \<Longrightarrow> llist_del_first pc (shared s) = (r, l) \<Longrightarrow>
    step s (returned Deleted r) (s\<lparr>shared := l, thr := (thr s)(t := continue Deleting r)\<rparr>)"
| del_all: "thr s t = Idle \<Longrightarrow> no_deleter s \<Longrightarrow> llist_del_all (shared s) = (r, l) \<Longrightarrow>
    step s [Emptied r] (s\<lparr>shared := l\<rparr>)"

inductive steps :: "sys \<Rightarrow> event list \<Rightarrow> sys \<Rightarrow> bool" for s where
  no_step: "steps s [] s"
| one_more: "steps s es u \<Longrightarrow> step u e v \<Longrightarrow> steps s (es @ e) v"

text \<open>The contract: a stack.  An operation with a result that a stack does not give is refused.\<close>

fun stack_op :: "event \<Rightarrow> nat list \<Rightarrow> nat list option" where
  "stack_op (Added b e) xs = (if e = (xs = []) then Some (b @ xs) else None)"
| "stack_op (Deleted r) [] = (if r = 0 then Some [] else None)"
| "stack_op (Deleted r) (x # xs) = (if r = x then Some xs else None)"
| "stack_op (Emptied r) xs = (if r = (if xs = [] then 0 else hd xs) then Some [] else None)"

fun stack_ops :: "event list \<Rightarrow> nat list \<Rightarrow> nat list option" where
  "stack_ops [] xs = Some xs"
| "stack_ops (e # es) xs = Option.bind (stack_op e xs) (stack_ops es)"

lemma stack_ops_append: "stack_ops (es @ fs) xs = Option.bind (stack_ops es xs) (stack_ops fs)"
  by (induction es arbitrary: xs) (auto simp: Option.bind_eq_Some_conv split: Option.bind_splits)

section \<open>Simulation\<close>

fun add_ok :: "(nat \<Rightarrow> nat) \<Rightarrow> nat list \<Rightarrow> add_pc \<Rightarrow> bool" where
  "add_ok n b (Add_Swap f) \<longleftrightarrow> n (last b) = f"
| "add_ok n b _ \<longleftrightarrow> True"

fun del_ok :: "(nat \<Rightarrow> nat) \<Rightarrow> nat list \<Rightarrow> del_pc \<Rightarrow> bool" where
  "del_ok n xs Del_Read \<longleftrightarrow> True"
| "del_ok n xs (Del_Next e) \<longleftrightarrow> e \<in> set xs"
| "del_ok n xs (Del_Swap e f) \<longleftrightarrow> e \<in> set xs \<and> n e = f"

fun thread_ok :: "(nat \<Rightarrow> nat) \<Rightarrow> nat list \<Rightarrow> thread \<Rightarrow> bool" where
  "thread_ok n xs Idle \<longleftrightarrow> True"
| "thread_ok n xs (Adding b pc) \<longleftrightarrow> batch n b \<and> set b \<inter> set xs = {} \<and> add_ok n b pc"
| "thread_ok n xs (Deleting pc) \<longleftrightarrow> del_ok n xs pc"

fun compatible :: "thread \<Rightarrow> thread \<Rightarrow> bool" where
  "compatible (Adding b _) (Adding c _) \<longleftrightarrow> set b \<inter> set c = {}"
| "compatible (Deleting _) (Deleting _) \<longleftrightarrow> False"
| "compatible _ _ \<longleftrightarrow> True"

definition list_of :: "llist \<Rightarrow> nat list \<Rightarrow> bool" where
  "list_of l xs \<longleftrightarrow> chain (nxt l) (first l) xs 0 \<and> distinct xs \<and> 0 \<notin> set xs"

definition inv :: "sys \<Rightarrow> nat list \<Rightarrow> bool" where
  "inv s xs \<longleftrightarrow> list_of (shared s) xs \<and> (\<forall>t. thread_ok (nxt (shared s)) xs (thr s t)) \<and>
     (\<forall>t u. t \<noteq> u \<longrightarrow> compatible (thr s t) (thr s u))"

lemma on_list_iff:
  assumes "list_of l xs"
  shows "on_list l x \<longleftrightarrow> x \<in> set xs"
proof
  have suffix: "x \<in> set ys \<Longrightarrow> chain (nxt l) p ys 0 \<Longrightarrow> nxt l x = 0 \<or> nxt l x \<in> set ys" for x p ys
  proof (induction ys arbitrary: p)
    case (Cons y ys)
    then show ?case by (cases ys) auto
  qed simp
  show "on_list l x \<Longrightarrow> x \<in> set xs"
  proof (induction rule: on_list.induct)
    case first_on
    then show ?case using assms by (cases xs) (auto simp: list_of_def)
  next
    case (next_on x)
    then show ?case using suffix [of x xs] assms by (auto simp: list_of_def)
  qed
  have "x \<in> set ys \<Longrightarrow> chain (nxt l) p ys 0 \<Longrightarrow> 0 \<notin> set ys \<Longrightarrow> on_list l p \<Longrightarrow> on_list l x" for x p ys
  proof (induction ys arbitrary: p)
    case (Cons y ys)
    then show ?case by (cases ys) (auto intro: on_list.next_on)
  qed simp
  moreover have "on_list l (first l)" if "x \<in> set xs"
    using that assms chain_hd [of "nxt l" "first l" xs] by (intro on_list.first_on) (auto simp: list_of_def)
  ultimately show "x \<in> set xs \<Longrightarrow> on_list l x" using assms by (auto simp: list_of_def)
qed

text \<open>Every step of a thread gives an operation of the stack when it returns and keeps the invariant.\<close>

lemma inv_thread: "inv s xs \<Longrightarrow> thread_ok (nxt (shared s)) xs (thr s t)"
  by (simp add: inv_def)

lemma inv_apart: "inv s xs \<Longrightarrow> t \<noteq> u \<Longrightarrow> compatible (thr s t) (thr s u)"
  by (simp add: inv_def)

lemma compatible_sym: "compatible a b \<Longrightarrow> compatible b a"
  by (cases a; cases b) auto

text \<open>A step of thread \<open>t\<close> has to be checked for \<open>t\<close> and for the threads that are compatible with it.\<close>

lemma inv_step:
  assumes "inv s xs" and "list_of l ys" and "thread_ok (nxt l) ys th"
    and "\<And>u. u \<noteq> t \<Longrightarrow> compatible (thr s t) (thr s u) \<Longrightarrow> thread_ok (nxt (shared s)) xs (thr s u) \<Longrightarrow>
      thread_ok (nxt l) ys (thr s u) \<and> compatible th (thr s u)"
  shows "inv (s\<lparr>shared := l, thr := (thr s)(t := th)\<rparr>) ys"
  unfolding inv_def using assms inv_thread [OF assms(1)] inv_apart [OF assms(1)] compatible_sym by auto

lemma thread_ok_upd:
  assumes "x \<notin> set xs" and "\<And>b pc. th = Adding b pc \<Longrightarrow> x \<notin> set b"
  shows "thread_ok (n(x := y)) xs th \<longleftrightarrow> thread_ok n xs th"
proof (cases th)
  case (Adding b pc)
  moreover have "x \<noteq> last b" if "batch n b" using that assms(2) [OF Adding] by (auto simp: batch_def)
  ultimately show ?thesis using assms(2) [OF Adding] by (cases pc) (auto simp: batch_upd)
next
  case (Deleting pc)
  then show ?thesis using assms(1) by (cases pc) auto
qed simp

lemma list_of_upd: "x \<notin> set xs \<Longrightarrow> list_of (l\<lparr>nxt := (nxt l)(x := y)\<rparr>) xs \<longleftrightarrow> list_of l xs"
  by (simp add: list_of_def)

lemma list_of_empty: "list_of l xs \<Longrightarrow> first l = 0 \<longleftrightarrow> xs = []"
  using chain_hd by (auto simp: list_of_def)

lemma add_sim:
  assumes i: "inv s xs" and t: "thr s t = Adding b pc" and run: "llist_add_batch (hd b) (last b) pc (shared s) = (r, l)"
  shows "\<exists>ys. stack_ops (returned (Added b) r) xs = Some ys \<and> inv (s\<lparr>shared := l, thr := (thr s)(t := continue (Adding b) r)\<rparr>) ys"
proof -
  let ?l = "shared s"
  have b: "batch (nxt ?l) b" "set b \<inter> set xs = {}" "add_ok (nxt ?l) b pc" using inv_thread [OF i, of t] t by simp_all
  have xs: "list_of ?l xs" using i by (simp add: inv_def)
  have last: "last b \<in> set b" using b(1) by (simp add: batch_def)
  then have last_new: "last b \<notin> set xs" using b(2) by blast
  show ?thesis
  proof (cases pc)
    case Add_Read
    then have "r = Inl (Add_Link (first ?l))" "l = ?l" using run by auto
    moreover have "inv (s\<lparr>shared := ?l, thr := (thr s)(t := Adding b (Add_Link (first ?l)))\<rparr>) xs"
      using t b by (intro inv_step [OF i xs]) (auto elim: compatible.elims)
    ultimately show ?thesis by simp
  next
    case (Add_Link f)
    let ?m = "?l\<lparr>nxt := (nxt ?l)(last b := f)\<rparr>"
    have "inv (s\<lparr>shared := ?m, thr := (thr s)(t := Adding b (Add_Swap f))\<rparr>) xs"
    proof (rule inv_step [OF i])
      show "list_of ?m xs" using xs last_new by (simp add: list_of_upd)
      show "thread_ok (nxt ?m) xs (Adding b (Add_Swap f))" using b(2) batch_link [OF b(1)] by simp
      fix u assume u: "u \<noteq> t" "compatible (thr s t) (thr s u)" "thread_ok (nxt ?l) xs (thr s u)"
      have "last b \<notin> set c" if "thr s u = Adding c q" for c q using u(2) that t last by auto
      then have "thread_ok (nxt ?m) xs (thr s u)" using u(3) last_new by (simp add: thread_ok_upd)
      moreover have "compatible (Adding b (Add_Swap f)) (thr s u)" using u(2) t by (cases "thr s u") auto
      ultimately show "thread_ok (nxt ?m) xs (thr s u) \<and> compatible (Adding b (Add_Swap f)) (thr s u)" by simp
    qed
    then show ?thesis using run Add_Link by auto
  next
    case (Add_Swap f)
    show ?thesis
    proof (cases "first ?l = f")
      case False
      then have "r = Inl Add_Read" "l = ?l" using run Add_Swap by (auto simp: cmpxchg_def)
      moreover have "inv (s\<lparr>shared := ?l, thr := (thr s)(t := Adding b Add_Read)\<rparr>) xs"
        using t b by (intro inv_step [OF i xs]) (auto elim: compatible.elims)
      ultimately show ?thesis by simp
    next
      case True
      let ?m = "?l\<lparr>first := hd b\<rparr>"
      have rl: "r = Inr (f = 0)" "l = ?m" using run Add_Swap True by (auto simp: cmpxchg_def)
      have "inv (s\<lparr>shared := ?m, thr := (thr s)(t := Idle)\<rparr>) (b @ xs)"
      proof (rule inv_step [OF i])
        have "chain (nxt ?l) (hd b) (b @ xs) 0"
          using batch_chain [OF b(1)] b(3) Add_Swap xs True by (simp add: list_of_def del: chain_append)
        then show "list_of ?m (b @ xs)" using b(1,2) xs by (auto simp: list_of_def batch_def simp del: chain_append)
        fix u assume u: "u \<noteq> t" "compatible (thr s t) (thr s u)" "thread_ok (nxt ?l) xs (thr s u)"
        show "thread_ok (nxt ?m) (b @ xs) (thr s u) \<and> compatible Idle (thr s u)"
        proof (cases "thr s u")
          case (Adding c q)
          then show ?thesis using u t by auto
        next
          case (Deleting q)
          then show ?thesis using u(3) by (cases q) auto
        qed simp
      qed simp
      moreover have "(f = 0) = (xs = [])" using list_of_empty [OF xs] True by simp
      ultimately show ?thesis using rl by simp
    qed
  qed
qed

lemma only_deleter:
  assumes "inv s xs" and "thr s t = Deleting pc" and "u \<noteq> t"
  shows "\<nexists>q. thr s u = Deleting q"
  using inv_apart [OF assms(1,3)] assms(2) by auto

lemma del_return:
  assumes i: "inv s xs" and t: "thr s t = Deleting pc" and ys: "list_of l ys" and n: "nxt l = nxt (shared s)" "set ys \<subseteq> set xs"
  shows "inv (s\<lparr>shared := l, thr := (thr s)(t := Idle)\<rparr>) ys"
proof (rule inv_step [OF i ys])
  fix u assume u: "u \<noteq> t" "thread_ok (nxt (shared s)) xs (thr s u)"
  then show "thread_ok (nxt l) ys (thr s u) \<and> compatible Idle (thr s u)"
    using n only_deleter [OF i t u(1)] by (cases "thr s u") auto
qed simp

lemma del_goes_on:
  assumes i: "inv s xs" and t: "thr s t = Deleting pc" and "del_ok (nxt (shared s)) xs q"
  shows "inv (s\<lparr>thr := (thr s)(t := Deleting q)\<rparr>) xs"
proof -
  have "list_of (shared s) xs" using i by (simp add: inv_def)
  then have "inv (s\<lparr>shared := shared s, thr := (thr s)(t := Deleting q)\<rparr>) xs"
  proof (rule inv_step [OF i])
    fix u assume u: "u \<noteq> t" "thread_ok (nxt (shared s)) xs (thr s u)"
    then show "thread_ok (nxt (shared s)) xs (thr s u) \<and> compatible (Deleting q) (thr s u)"
      using only_deleter [OF i t u(1)] by (cases "thr s u") auto
  qed (use assms(3) in simp)
  then show ?thesis by simp
qed

lemma del_entry_sim:
  assumes i: "inv s xs" and t: "thr s t = Deleting pc"
  shows "\<exists>ys. stack_ops (returned Deleted (del_entry (first (shared s)))) xs = Some ys \<and>
    inv (s\<lparr>thr := (thr s)(t := continue Deleting (del_entry (first (shared s))))\<rparr>) ys"
proof -
  have xs: "list_of (shared s) xs" using i by (simp add: inv_def)
  show ?thesis
  proof (cases xs)
    case Nil
    then show ?thesis using del_return [OF i t xs] list_of_empty [OF xs] by (simp add: del_entry_def)
  next
    case (Cons x zs)
    then have "first (shared s) = x" "x \<noteq> 0" using xs by (auto simp: list_of_def)
    then show ?thesis using del_goes_on [OF i t, of "Del_Next x"] Cons by (simp add: del_entry_def)
  qed
qed

lemma del_sim:
  assumes i: "inv s xs" and t: "thr s t = Deleting pc" and run: "llist_del_first pc (shared s) = (r, l)"
  shows "\<exists>ys. stack_ops (returned Deleted r) xs = Some ys \<and> inv (s\<lparr>shared := l, thr := (thr s)(t := continue Deleting r)\<rparr>) ys"
proof -
  let ?l = "shared s"
  have ok: "del_ok (nxt ?l) xs pc" using inv_thread [OF i, of t] t by simp
  have xs: "list_of ?l xs" using i by (simp add: inv_def)
  show ?thesis
  proof (cases pc)
    case Del_Read
    then show ?thesis using run del_entry_sim [OF i t] by auto
  next
    case (Del_Next e)
    then show ?thesis using run ok del_goes_on [OF i t, of "Del_Swap e (nxt ?l e)"] by auto
  next
    case (Del_Swap e n)
    show ?thesis
    proof (cases "first ?l = e")
      case False
      then show ?thesis using run Del_Swap del_entry_sim [OF i t] by (auto simp: cmpxchg_def)
    next
      case True
      then obtain zs where zs: "xs = e # zs" using ok Del_Swap xs by (cases xs) (auto simp: list_of_def)
      let ?m = "?l\<lparr>first := n\<rparr>"
      have "list_of ?m zs" using xs ok zs Del_Swap by (simp add: list_of_def)
      then have "inv (s\<lparr>shared := ?m, thr := (thr s)(t := Idle)\<rparr>) zs" using zs by (intro del_return [OF i t]) auto
      then show ?thesis using run Del_Swap True zs by (auto simp: cmpxchg_def)
    qed
  qed
qed

text \<open>What the other rules do to the invariant.\<close>

lemma free_node_inv:
  assumes "inv s xs" and "free_node s x"
  shows "x \<notin> set xs" and "\<And>t b pc. thr s t = Adding b pc \<Longrightarrow> x \<notin> set b"
  using assms on_list_iff [of "shared s" xs x] by (auto simp: free_node_def inv_def)

lemma own_sim:
  assumes "inv s xs" and "free_node s x"
  shows "inv (s\<lparr>shared := (shared s)\<lparr>nxt := (nxt (shared s))(x := y)\<rparr>\<rparr>) xs"
proof -
  have "thread_ok ((nxt (shared s))(x := y)) xs (thr s t)" for t
    using free_node_inv [OF assms] inv_thread [OF assms(1), of t] by (subst thread_ok_upd) auto
  then show ?thesis using assms(1) free_node_inv(1) [OF assms] by (simp add: inv_def list_of_upd)
qed

lemma start_add_sim:
  assumes "inv s xs" and "thr s t = Idle" and "batch (nxt (shared s)) b" and "\<forall>x \<in> set b. free_node s x"
  shows "inv (s\<lparr>thr := (thr s)(t := Adding b Add_Read)\<rparr>) xs"
proof -
  have out: "set b \<inter> set xs = {}" "\<And>u c pc. thr s u = Adding c pc \<Longrightarrow> set b \<inter> set c = {}"
    using assms(4) free_node_inv [OF assms(1)] by blast+
  have "list_of (shared s) xs" using assms(1) by (simp add: inv_def)
  then have "inv (s\<lparr>shared := shared s, thr := (thr s)(t := Adding b Add_Read)\<rparr>) xs"
  proof (rule inv_step [OF assms(1)])
    fix u assume "thread_ok (nxt (shared s)) xs (thr s u)"
    then show "thread_ok (nxt (shared s)) xs (thr s u) \<and> compatible (Adding b Add_Read) (thr s u)"
      using out(2) [of u] by (cases "thr s u") auto
  qed (use assms(3) out(1) in simp)
  then show ?thesis by simp
qed

lemma start_del_sim:
  assumes "inv s xs" and "no_deleter s"
  shows "inv (s\<lparr>thr := (thr s)(t := Deleting Del_Read)\<rparr>) xs"
proof -
  have "list_of (shared s) xs" using assms(1) by (simp add: inv_def)
  then have "inv (s\<lparr>shared := shared s, thr := (thr s)(t := Deleting Del_Read)\<rparr>) xs"
  proof (rule inv_step [OF assms(1)])
    fix u assume "thread_ok (nxt (shared s)) xs (thr s u)"
    then show "thread_ok (nxt (shared s)) xs (thr s u) \<and> compatible (Deleting Del_Read) (thr s u)"
      using assms(2) by (cases "thr s u") (auto simp: no_deleter_def)
  qed simp
  then show ?thesis by simp
qed

lemma del_all_sim:
  assumes "inv s xs" and "no_deleter s" and "llist_del_all (shared s) = (r, l)"
  shows "stack_ops [Emptied r] xs = Some [] \<and> inv (s\<lparr>shared := l\<rparr>) []"
proof -
  have xs: "list_of (shared s) xs" using assms(1) by (simp add: inv_def)
  have "thread_ok (nxt (shared s)) [] (thr s t)" for t
    using inv_thread [OF assms(1), of t] assms(2) by (cases "thr s t") (auto simp: no_deleter_def)
  then have "inv (s\<lparr>shared := (shared s)\<lparr>first := 0\<rparr>\<rparr>) []" using assms(1) by (simp add: inv_def list_of_def)
  moreover have "first (shared s) = (if xs = [] then 0 else hd xs)" using xs by (cases xs) (auto simp: list_of_def)
  ultimately show ?thesis using assms(3) by (auto simp: llist_del_all_def)
qed

lemma step_sim:
  assumes "step s es u" and i: "inv s xs"
  shows "\<exists>ys. stack_ops es xs = Some ys \<and> inv u ys"
  using assms(1)
proof cases
  case own
  then show ?thesis using own_sim [OF i] by simp
next
  case start_add
  then show ?thesis using start_add_sim [OF i] by simp
next
  case add
  then show ?thesis using add_sim [OF i] by blast
next
  case start_del
  then show ?thesis using start_del_sim [OF i] by simp
next
  case del
  then show ?thesis using del_sim [OF i] by blast
next
  case (del_all t r l)
  then show ?thesis using del_all_sim [OF i] by blast
qed

lemma steps_sim:
  assumes "steps s es u" and "inv s xs"
  shows "\<exists>ys. stack_ops es xs = Some ys \<and> inv u ys"
  using assms(1)
proof induction
  case no_step
  then show ?case using assms(2) by simp
next
  case (one_more es u e v)
  then obtain ys where "stack_ops es xs = Some ys" "inv u ys" by blast
  then show ?case using step_sim [OF one_more.hyps(2), of ys] by (auto simp: stack_ops_append)
qed

text \<open>An addition that no other thread disturbs returns after three steps.\<close>

lemma add_alone:
  "llist_add_batch a z Add_Read l = (Inl (Add_Link (first l)), l)"
  "llist_add_batch a z (Add_Link (first l)) l = (Inl (Add_Swap (first l)), l\<lparr>nxt := (nxt l)(z := first l)\<rparr>)"
  "llist_add_batch a z (Add_Swap (first l)) (l\<lparr>nxt := n\<rparr>) = (Inr (llist_empty l), l\<lparr>nxt := n, first := a\<rparr>)"
  by (simp_all add: cmpxchg_def llist_empty_def)

lemma llist_reverse_order_chain:
  assumes "chain n p xs 0" and "distinct xs" and "0 \<notin> set xs"
  shows "\<exists>n' q. llist_reverse_order n p = Some (n', q) \<and> chain n' q (rev xs) 0 \<and> (\<forall>x. x \<notin> set xs \<longrightarrow> n' x = n x)"
  unfolding llist_reverse_order_def using reverse_loop_chain [OF assms(1), of 0 "[]"] assms(2,3) by simp

section \<open>Properties\<close>

text \<open>
  (C40) However the steps of any number of threads interleave, as long as the table of \<^verbatim>\<open>llist.h\<close> is kept, the operations on a
  list that starts empty return what a stack returns: \<^verbatim>\<open>llist_add_batch\<close> pushes its batch and tells whether the list was empty,
  \<^verbatim>\<open>llist_del_first\<close> pops, \<^verbatim>\<open>llist_del_all\<close> empties the list.  At every moment the chain from \<^verbatim>\<open>first\<close> is finite and without a
  cycle and consists of the nodes of that stack, batches that are being added are off the list and apart from each other,
  and the chain can be reversed.
\<close>

theorem llist_linearizable:
  assumes "steps \<lparr>shared = init_llist_head l, thr = (\<lambda>_. Idle)\<rparr> es u"
  shows "\<exists>xs. stack_ops es [] = Some xs \<and> chain (nxt (shared u)) (first (shared u)) xs 0 \<and> distinct xs \<and> 0 \<notin> set xs \<and>
    (\<forall>t b pc. thr u t = Adding b pc \<longrightarrow> set b \<inter> set xs = {} \<and> (\<forall>t' b' pc'. t' \<noteq> t \<and> thr u t' = Adding b' pc' \<longrightarrow> set b \<inter> set b' = {})) \<and>
    (\<exists>n q. llist_reverse_order (nxt (shared u)) (first (shared u)) = Some (n, q) \<and> chain n q (rev xs) 0)"
proof -
  have "inv \<lparr>shared = init_llist_head l, thr = (\<lambda>_. Idle)\<rparr> []" by (simp add: inv_def list_of_def init_llist_head_def)
  then obtain xs where xs: "stack_ops es [] = Some xs" "inv u xs" using steps_sim [OF assms] by blast
  then have c: "chain (nxt (shared u)) (first (shared u)) xs 0" "distinct xs" "0 \<notin> set xs" by (simp_all add: inv_def list_of_def)
  have "set b \<inter> set xs = {}" if "thr u t = Adding b pc" for t b pc using inv_thread [OF xs(2), of t] that by simp
  moreover have "set b \<inter> set b' = {}" if "thr u t = Adding b pc" "t' \<noteq> t" "thr u t' = Adding b' pc'" for t t' b b' pc pc'
    using inv_apart [OF xs(2), of t t'] that by simp
  ultimately show ?thesis using xs(1) c llist_reverse_order_chain [OF c] by blast
qed

text \<open>Two threads that add a node each: both read the empty list, the second one to swap fails and starts again.\<close>

definition two_adders :: "thread \<Rightarrow> thread \<Rightarrow> (nat \<Rightarrow> nat) \<Rightarrow> nat \<Rightarrow> sys" where
  "two_adders a b n f = \<lparr>shared = \<lparr>nxt = n, first = f\<rparr>, thr = (\<lambda>_. Idle)(0 := a, 1 := b)\<rparr>"

lemma two_adders_step:
  "llist_add_batch (hd c) (last c) pc \<lparr>nxt = n, first = f\<rparr> = (r, \<lparr>nxt = n', first = f'\<rparr>) \<Longrightarrow>
     step (two_adders (Adding c pc) b n f) (returned (Added c) r) (two_adders (continue (Adding c) r) b n' f')"
  "llist_add_batch (hd c) (last c) pc \<lparr>nxt = n, first = f\<rparr> = (r, \<lparr>nxt = n', first = f'\<rparr>) \<Longrightarrow>
     step (two_adders a (Adding c pc) n f) (returned (Added c) r) (two_adders a (continue (Adding c) r) n' f')"
  using step.add [of "two_adders (Adding c pc) b n f" 0 c pc r "\<lparr>nxt = n', first = f'\<rparr>"]
    step.add [of "two_adders a (Adding c pc) n f" 1 c pc r "\<lparr>nxt = n', first = f'\<rparr>"]
  by (simp_all add: two_adders_def fun_upd_twist)

lemma two_adders_start:
  "step (two_adders Idle Idle (\<lambda>_. 0) 0) [] (two_adders (Adding [1] Add_Read) Idle (\<lambda>_. 0) 0)"
  "step (two_adders (Adding [1] Add_Read) Idle (\<lambda>_. 0) 0) [] (two_adders (Adding [1] Add_Read) (Adding [2] Add_Read) (\<lambda>_. 0) 0)"
proof -
  have "\<not> on_list \<lparr>nxt = \<lambda>_. 0, first = 0\<rparr> x" for x by (auto elim: on_list.cases)
  then have free: "free_node (two_adders Idle Idle (\<lambda>_. 0) 0) 1" "free_node (two_adders (Adding [1] Add_Read) Idle (\<lambda>_. 0) 0) 2"
    by (auto simp: free_node_def two_adders_def)
  show "step (two_adders Idle Idle (\<lambda>_. 0) 0) [] (two_adders (Adding [1] Add_Read) Idle (\<lambda>_. 0) 0)"
    using step.start_add [of "two_adders Idle Idle (\<lambda>_. 0) 0" 0 "[1]"] free(1) by (simp add: two_adders_def batch_def fun_upd_twist)
  show "step (two_adders (Adding [1] Add_Read) Idle (\<lambda>_. 0) 0) [] (two_adders (Adding [1] Add_Read) (Adding [2] Add_Read) (\<lambda>_. 0) 0)"
    using step.start_add [of "two_adders (Adding [1] Add_Read) Idle (\<lambda>_. 0) 0" 1 "[2]"] free(2) by (simp add: two_adders_def batch_def)
qed

lemma two_adders_run:
  "steps (two_adders Idle Idle (\<lambda>_. 0) 0) [Added [1] True, Added [2] False] (two_adders Idle Idle ((\<lambda>_. 0)(2 := 1)) 2)"
proof -
  let ?n = "\<lambda>_ :: nat. 0 :: nat" and ?m = "(\<lambda>_ :: nat. 0 :: nat)(2 := 1)"
  note add = two_adders_step [where c = "[1]"] two_adders_step [where c = "[2]"]
  have "steps (two_adders Idle Idle ?n 0) [] (two_adders (Adding [1] Add_Read) (Adding [2] Add_Read) ?n 0)"
    using steps.one_more [OF steps.one_more [OF steps.no_step two_adders_start(1)] two_adders_start(2)] by simp
  from steps.one_more [OF this add(1) [of Add_Read ?n 0 "Inl (Add_Link 0)" ?n 0]]
  have "steps (two_adders Idle Idle ?n 0) [] (two_adders (Adding [1] (Add_Link 0)) (Adding [2] Add_Read) ?n 0)" by simp
  from steps.one_more [OF this add(4) [of Add_Read ?n 0 "Inl (Add_Link 0)" ?n 0]]
  have "steps (two_adders Idle Idle ?n 0) [] (two_adders (Adding [1] (Add_Link 0)) (Adding [2] (Add_Link 0)) ?n 0)" by simp
  from steps.one_more [OF this add(4) [of "Add_Link 0" ?n 0 "Inl (Add_Swap 0)" ?n 0]]
  have "steps (two_adders Idle Idle ?n 0) [] (two_adders (Adding [1] (Add_Link 0)) (Adding [2] (Add_Swap 0)) ?n 0)"
    by (simp add: fun_upd_idem)
  from steps.one_more [OF this add(1) [of "Add_Link 0" ?n 0 "Inl (Add_Swap 0)" ?n 0]]
  have "steps (two_adders Idle Idle ?n 0) [] (two_adders (Adding [1] (Add_Swap 0)) (Adding [2] (Add_Swap 0)) ?n 0)"
    by (simp add: fun_upd_idem)
  from steps.one_more [OF this add(1) [of "Add_Swap 0" ?n 0 "Inr True" ?n 1]]
  have "steps (two_adders Idle Idle ?n 0) [Added [1] True] (two_adders Idle (Adding [2] (Add_Swap 0)) ?n 1)" by (simp add: cmpxchg_def)
  from steps.one_more [OF this add(4) [of "Add_Swap 0" ?n 1 "Inl Add_Read" ?n 1]]
  have "steps (two_adders Idle Idle ?n 0) [Added [1] True] (two_adders Idle (Adding [2] Add_Read) ?n 1)" by (simp add: cmpxchg_def)
  from steps.one_more [OF this add(4) [of Add_Read ?n 1 "Inl (Add_Link 1)" ?n 1]]
  have "steps (two_adders Idle Idle ?n 0) [Added [1] True] (two_adders Idle (Adding [2] (Add_Link 1)) ?n 1)" by simp
  from steps.one_more [OF this add(4) [of "Add_Link 1" ?n 1 "Inl (Add_Swap 1)" ?m 1]]
  have "steps (two_adders Idle Idle ?n 0) [Added [1] True] (two_adders Idle (Adding [2] (Add_Swap 1)) ?m 1)" by simp
  from steps.one_more [OF this add(4) [of "Add_Swap 1" ?m 1 "Inr False" ?m 2]]
  show ?thesis by (simp add: cmpxchg_def)
qed

theorem llist_linearizable_witness:
  "\<exists>es u. steps \<lparr>shared = init_llist_head \<lparr>nxt = \<lambda>_. 0, first = 7\<rparr>, thr = (\<lambda>_. Idle)\<rparr> es u \<and> es = [Added [1] True, Added [2] False] \<and>
     stack_ops es [] = Some [2, 1] \<and> chain (nxt (shared u)) (first (shared u)) [2, 1] 0"
proof -
  have s: "two_adders Idle Idle (\<lambda>_. 0) 0 = \<lparr>shared = init_llist_head \<lparr>nxt = \<lambda>_. 0, first = 7\<rparr>, thr = (\<lambda>_. Idle)\<rparr>"
    by (simp add: two_adders_def init_llist_head_def fun_upd_idem)
  let ?u = "two_adders Idle Idle ((\<lambda>_. 0)(2 := 1)) 2"
  have ops: "stack_ops [Added [1] True, Added [2] False] [] = Some [2, 1]" by simp
  then have "chain (nxt (shared ?u)) (first (shared ?u)) [2, 1] 0"
    using llist_linearizable [OF two_adders_run [unfolded s]] by (metis option.inject)
  then show ?thesis using two_adders_run [unfolded s] ops by (intro exI [of _ "[Added [1] True, Added [2] False]"] exI [of _ ?u]) blast
qed

end
