(* ===== verification/Bitops.thy ===== *)
theory Bitops imports Prelude begin

text \<open>
  Bit searches in one word, \<^verbatim>\<open>include/asm-generic/bitops\<close>: \<^verbatim>\<open>__ffs\<close>, \<^verbatim>\<open>__fls\<close>, \<^verbatim>\<open>fls\<close>, \<^verbatim>\<open>fls64\<close> and \<^verbatim>\<open>ffz\<close>.  Each halves the
  width it looks at with every comparison; the lemmas show which bit they find.
\<close>

unbundle bit_operations_syntax

section \<open>Operations\<close>

text \<open>One halving step: if the bits under the mask are clear, skip them.\<close>

definition ffs_step :: "'a :: len word \<Rightarrow> nat \<Rightarrow> 'a word \<times> nat \<Rightarrow> 'a word \<times> nat" where
  "ffs_step m k = (\<lambda>(word, num). if word AND m = 0 then (drop_bit k word, num + k) else (word, num))"

definition fls_step :: "'a :: len word \<Rightarrow> nat \<Rightarrow> 'a word \<times> nat \<Rightarrow> 'a word \<times> nat" where
  "fls_step m k = (\<lambda>(word, num). if word AND m = 0 then (push_bit k word, num - k) else (word, num))"

definition ffs_long :: "u64 \<Rightarrow> nat" where
  "ffs_long word =
     (case ffs_step 0x3 2 (ffs_step 0xf 4 (ffs_step 0xff 8 (ffs_step 0xffff 16 (ffs_step 0xffffffff 32 (word, 0))))) of
        (word, num) \<Rightarrow> if word AND 0x1 = 0 then num + 1 else num)"

definition fls_long :: "u64 \<Rightarrow> nat" where
  "fls_long word =
     (case fls_step (push_bit (64 - 2) (- 1)) 2 (fls_step (push_bit (64 - 4) (- 1)) 4 (fls_step (push_bit (64 - 8) (- 1)) 8
             (fls_step (push_bit (64 - 16) (- 1)) 16 (fls_step (push_bit 32 (- 1)) 32 (word, 64 - 1))))) of
        (word, num) \<Rightarrow> if word AND push_bit (64 - 1) (- 1) = 0 then num - 1 else num)"

definition fls :: "u32 \<Rightarrow> nat" where
  "fls x =
     (if x = 0 then 0
      else snd (fls_step 0x80000000 1 (fls_step 0xc0000000 2 (fls_step 0xf0000000 4 (fls_step 0xff000000 8
             (fls_step 0xffff0000 16 (x, 32)))))))"

definition fls64 :: "u64 \<Rightarrow> nat" where
  "fls64 x = (if x = 0 then 0 else fls_long x + 1)"

definition ffz :: "u64 \<Rightarrow> nat" where
  "ffz x = ffs_long (NOT x)"

section \<open>The lowest set bit\<close>

text \<open>The state of the search from below: the low bits of \<open>w0\<close> are gone and one of the next \<open>k\<close> is set.\<close>

definition ffs_inv :: "'a :: len word \<Rightarrow> nat \<Rightarrow> 'a word \<times> nat \<Rightarrow> bool" where
  "ffs_inv w0 k = (\<lambda>(word, num). word = drop_bit num w0 \<and> (\<forall>i < num. \<not> bit w0 i) \<and>
     (\<exists>i. num \<le> i \<and> i < num + k \<and> bit w0 i))"

lemma drop_and_mask: "drop_bit n w AND mask k = 0 \<longleftrightarrow> (\<forall>i. n \<le> i \<and> i < n + k \<longrightarrow> \<not> bit (w :: 'a :: len word) i)"
proof
  assume a: "drop_bit n w AND mask k = 0"
  show "\<forall>i. n \<le> i \<and> i < n + k \<longrightarrow> \<not> bit w i"
  proof (intro allI impI notI)
    fix i assume i: "n \<le> i \<and> i < n + k" "bit w i"
    then have "bit (drop_bit n w AND mask k) (i - n)"
      using bit_imp_le_length [OF i(2)] by (auto simp: bit_simps)
    then show False using a by simp
  qed
next
  assume "\<forall>i. n \<le> i \<and> i < n + k \<longrightarrow> \<not> bit w i"
  then show "drop_bit n w AND mask k = 0" by (intro bit_word_eqI) (auto simp: bit_simps)
qed

lemma ffs_step_inv:
  assumes "ffs_inv w0 (k + k) s" and "m = mask k"
  shows "ffs_inv w0 k (ffs_step m k s)"
proof (cases s)
  case (Pair word num)
  have inv: "word = drop_bit num w0" "\<forall>i < num. \<not> bit w0 i" "\<exists>i. num \<le> i \<and> i < num + (k + k) \<and> bit w0 i"
    using assms(1) Pair by (simp_all add: ffs_inv_def)
  show ?thesis
  proof (cases "word AND m = 0")
    case True
    then have low: "\<forall>i. num \<le> i \<and> i < num + k \<longrightarrow> \<not> bit w0 i" using drop_and_mask inv(1) assms(2) by blast
    obtain i where i: "num \<le> i" "i < num + (k + k)" "bit w0 i" using inv(3) by blast
    then have "num + k \<le> i" using low by (meson not_le)
    moreover have "\<forall>i < num + k. \<not> bit w0 i" using low inv(2) by (meson not_le)
    ultimately show ?thesis using True Pair inv(1) i by (auto simp: ffs_inv_def ffs_step_def add.commute)
  next
    case False
    then have "\<exists>i. num \<le> i \<and> i < num + k \<and> bit w0 i" using drop_and_mask inv(1) assms(2) by blast
    then show ?thesis using False Pair inv(1,2) by (simp add: ffs_inv_def ffs_step_def)
  qed
qed

lemma ffs_inv_1: "ffs_inv w0 1 s \<Longrightarrow> bit w0 (snd s) \<and> (\<forall>i < snd s. \<not> bit w0 i)"
  by (auto simp: ffs_inv_def less_Suc_eq_le dest: le_antisym)

lemma nonzero_bit:
  fixes w :: "'a :: len word"
  assumes "w \<noteq> 0"
  shows "\<exists>i < LENGTH('a). bit w i"
proof (rule ccontr)
  assume "\<not> ?thesis"
  then have "w = 0" by (intro bit_word_eqI) simp
  then show False using assms by simp
qed

lemma ffs_inv_start: "w0 \<noteq> 0 \<Longrightarrow> ffs_inv w0 LENGTH('a) (w0 :: 'a :: len word, 0)"
  using nonzero_bit [of w0] by (auto simp: ffs_inv_def)

lemma masks:
  "(0x1 :: 'a :: len word) = mask 1" "(0x3 :: 'a word) = mask 2" "(0xf :: 'a word) = mask 4" "(0xff :: 'a word) = mask 8"
  "(0xffff :: 'a word) = mask 16" "(0xffffffff :: 'a word) = mask 32"
  by (simp_all add: mask_eq_exp_minus_1)

lemma ffs_long_spec:
  assumes "w \<noteq> 0"
  shows "bit w (ffs_long w) \<and> (\<forall>i < ffs_long w. \<not> bit w i)"
proof -
  define s1 where "s1 = ffs_step 0xffffffff 32 (w, 0)"
  define s2 where "s2 = ffs_step 0xffff 16 s1"
  define s3 where "s3 = ffs_step 0xff 8 s2"
  define s4 where "s4 = ffs_step 0xf 4 s3"
  define s5 where "s5 = ffs_step 0x3 2 s4"
  have "ffs_inv w (32 + 32) (w, 0)" using ffs_inv_start [OF assms] by simp
  then have "ffs_inv w (16 + 16) s1" using ffs_step_inv [OF _ masks(6)] by (simp add: s1_def)
  then have "ffs_inv w (8 + 8) s2" using ffs_step_inv [OF _ masks(5)] by (simp add: s2_def)
  then have "ffs_inv w (4 + 4) s3" using ffs_step_inv [OF _ masks(4)] by (simp add: s3_def)
  then have "ffs_inv w (2 + 2) s4" using ffs_step_inv [OF _ masks(3)] by (simp add: s4_def)
  then have "ffs_inv w 2 s5" using ffs_step_inv [OF _ masks(2)] by (simp add: s5_def)
  then have "ffs_inv w 1 (ffs_step 0x1 1 s5)" by (intro ffs_step_inv [OF _ masks(1)]) (simp add: numeral_2_eq_2)
  moreover have "snd (ffs_step 0x1 1 s5) = ffs_long w"
    by (simp add: ffs_long_def ffs_step_def [of 1] split: prod.splits flip: s1_def s2_def s3_def s4_def s5_def)
  ultimately show ?thesis using ffs_inv_1 by metis
qed

section \<open>The highest set bit\<close>

definition fls_inv :: "'a :: len word \<Rightarrow> nat \<Rightarrow> 'a word \<times> nat \<Rightarrow> bool" where
  "fls_inv w0 k = (\<lambda>(word, num). k \<le> num \<and> num \<le> LENGTH('a) \<and> word = push_bit (LENGTH('a) - num) w0 \<and>
     (\<forall>i \<ge> num. \<not> bit w0 i) \<and> (\<exists>i. num \<le> i + k \<and> i < num \<and> bit w0 i))"

lemma push_and_high:
  fixes w :: "'a :: len word"
  assumes "k \<le> n" and "n \<le> LENGTH('a)"
  shows "push_bit (LENGTH('a) - n) w AND push_bit (LENGTH('a) - k) (- 1) = 0 \<longleftrightarrow> (\<forall>i. n \<le> i + k \<and> i < n \<longrightarrow> \<not> bit w i)"
proof
  let ?m = "push_bit (LENGTH('a) - n) w AND push_bit (LENGTH('a) - k) (- 1)"
  assume a: "?m = 0"
  show "\<forall>i. n \<le> i + k \<and> i < n \<longrightarrow> \<not> bit w i"
  proof (intro allI impI notI)
    fix i assume i: "n \<le> i + k \<and> i < n" "bit w i"
    then have "bit ?m (i + (LENGTH('a) - n))" using assms by (auto simp: bit_simps)
    then show False using a by simp
  qed
next
  assume a: "\<forall>i. n \<le> i + k \<and> i < n \<longrightarrow> \<not> bit w i"
  show "push_bit (LENGTH('a) - n) w AND push_bit (LENGTH('a) - k) (- 1) = 0"
  proof (rule bit_word_eqI)
    fix j
    have False if "bit (push_bit (LENGTH('a) - n) w AND push_bit (LENGTH('a) - k) (- 1)) j"
    proof -
      have j: "LENGTH('a) - n \<le> j" "LENGTH('a) - k \<le> j" "j < LENGTH('a)" and b: "bit w (j - (LENGTH('a) - n))"
        using that by (auto simp: bit_simps)
      have "n \<le> j - (LENGTH('a) - n) + k" "j - (LENGTH('a) - n) < n" using j assms by arith+
      then show False using a b by blast
    qed
    then show "bit (push_bit (LENGTH('a) - n) w AND push_bit (LENGTH('a) - k) (- 1)) j \<longleftrightarrow> bit (0 :: 'a word) j"
      by auto
  qed
qed

lemma fls_step_inv:
  fixes w0 :: "'a :: len word"
  assumes "fls_inv w0 (k + k) s" and "m = push_bit (LENGTH('a) - k) (- 1)" and "0 < k"
  shows "fls_inv w0 k (fls_step m k s)"
proof (cases s)
  case (Pair word num)
  have inv: "k + k \<le> num" "num \<le> LENGTH('a)" "word = push_bit (LENGTH('a) - num) w0" "\<forall>i \<ge> num. \<not> bit w0 i"
    "\<exists>i. num \<le> i + (k + k) \<and> i < num \<and> bit w0 i"
    using assms(1) Pair by (simp_all add: fls_inv_def)
  have test: "word AND m = 0 \<longleftrightarrow> (\<forall>i. num \<le> i + k \<and> i < num \<longrightarrow> \<not> bit w0 i)"
    using push_and_high [of k num w0] inv(1,2) by (simp add: inv(3) assms(2))
  show ?thesis
  proof (cases "word AND m = 0")
    case True
    then have high: "\<forall>i. num \<le> i + k \<and> i < num \<longrightarrow> \<not> bit w0 i" using test by blast
    obtain i where i: "num \<le> i + (k + k)" "i < num" "bit w0 i" using inv(5) by blast
    then have "i < num - k" using high by (meson le_diff_conv not_le)
    moreover have "\<forall>i \<ge> num - k. \<not> bit w0 i" using high inv(4) by (meson le_diff_conv not_le)
    moreover have "\<exists>i. num - k \<le> i + k \<and> i < num - k \<and> bit w0 i" using i \<open>i < num - k\<close> by (intro exI [of _ i]) auto
    moreover have "k \<le> num - k" "num - k \<le> LENGTH('a)" using inv(1,2) by simp_all
    moreover have "push_bit k word = push_bit (LENGTH('a) - (num - k)) w0"
      using inv(1,2) by (simp add: inv(3) push_bit_push_bit add.commute)
    ultimately show ?thesis using True Pair inv(1,2) by (simp add: fls_inv_def fls_step_def)
  next
    case False
    then have "\<exists>i. num \<le> i + k \<and> i < num \<and> bit w0 i" using test by blast
    then show ?thesis using False Pair inv by (simp add: fls_inv_def fls_step_def)
  qed
qed

lemma fls_inv_start: "w0 \<noteq> 0 \<Longrightarrow> fls_inv w0 LENGTH('a) (w0 :: 'a :: len word, LENGTH('a))"
  using nonzero_bit [of w0] by (auto simp: fls_inv_def dest: bit_imp_le_length)

lemma fls_inv_1: "fls_inv w0 1 s \<Longrightarrow> 1 \<le> snd s \<and> bit w0 (snd s - 1) \<and> (\<forall>i \<ge> snd s. \<not> bit w0 i)"
proof -
  assume "fls_inv w0 1 s"
  then obtain i where i: "snd s \<le> i + 1" "i < snd s" "bit w0 i" and h: "\<forall>i \<ge> snd s. \<not> bit w0 i"
    by (auto simp: fls_inv_def)
  then have "i = snd s - 1" by linarith
  then show ?thesis using i h by auto
qed

lemma high_masks:
  "(0x80000000 :: u32) = push_bit (LENGTH(32) - 1) (- 1)" "(0xc0000000 :: u32) = push_bit (LENGTH(32) - 2) (- 1)"
  "(0xf0000000 :: u32) = push_bit (LENGTH(32) - 4) (- 1)" "(0xff000000 :: u32) = push_bit (LENGTH(32) - 8) (- 1)"
  "(0xffff0000 :: u32) = push_bit (LENGTH(32) - 16) (- 1)"
  by (simp_all add: push_bit_eq_mult)

lemma fls_spec:
  assumes "x \<noteq> 0"
  shows "1 \<le> fls x \<and> bit x (fls x - 1) \<and> (\<forall>i \<ge> fls x. \<not> bit x i)"
proof -
  define s1 where "s1 = fls_step 0xffff0000 16 (x, 32)"
  define s2 where "s2 = fls_step 0xff000000 8 s1"
  define s3 where "s3 = fls_step 0xf0000000 4 s2"
  define s4 where "s4 = fls_step 0xc0000000 2 s3"
  have "fls_inv x (16 + 16) (x, 32)" using fls_inv_start [OF assms] by simp
  then have "fls_inv x (8 + 8) s1" using fls_step_inv [OF _ high_masks(5)] by (simp add: s1_def)
  then have "fls_inv x (4 + 4) s2" using fls_step_inv [OF _ high_masks(4)] by (simp add: s2_def)
  then have "fls_inv x (2 + 2) s3" using fls_step_inv [OF _ high_masks(3)] by (simp add: s3_def)
  then have "fls_inv x 2 s4" using fls_step_inv [OF _ high_masks(2)] by (simp add: s4_def)
  then have "fls_inv x 1 (fls_step 0x80000000 1 s4)"
    by (intro fls_step_inv [OF _ high_masks(1)]) (simp_all add: numeral_2_eq_2)
  moreover have "snd (fls_step 0x80000000 1 s4) = fls x"
    using assms by (simp add: fls_def flip: s1_def s2_def s3_def s4_def)
  ultimately show ?thesis using fls_inv_1 by metis
qed

text \<open>The search of \<^verbatim>\<open>__fls\<close> runs one position behind.\<close>

lemma fls_step_pred: "k < num \<Longrightarrow> fls_step m k (word, num - 1) = map_prod id (\<lambda>n. n - 1) (fls_step m k (word, num))"
  by (simp add: fls_step_def)

lemma fls_step_ge: "fls_inv w0 (k + k) s \<Longrightarrow> k < snd s \<or> k = 0"
  by (auto simp: fls_inv_def)

lemma fls_long_spec:
  assumes "w \<noteq> 0"
  shows "bit w (fls_long w) \<and> (\<forall>i > fls_long w. \<not> bit w i)"
proof -
  define m :: "nat \<Rightarrow> u64" where "m k = push_bit (64 - k) (- 1)" for k
  define pr :: "u64 \<times> nat \<Rightarrow> u64 \<times> nat" where "pr = map_prod id (\<lambda>n. n - 1)"
  have step: "fls_inv w k (fls_step (m k) k s) \<and> fls_step (m k) k (pr s) = pr (fls_step (m k) k s)"
    if "fls_inv w (k + k) s" "0 < k" for k s
    using fls_step_inv [OF that(1) _ that(2), of "m k"] fls_step_pred [of k "snd s" "m k" "fst s"] fls_step_ge [OF that(1)] that(2)
    by (simp add: m_def pr_def map_prod_def split_beta)
  define s1 where "s1 = fls_step (m 32) 32 (w, 64)"
  define s2 where "s2 = fls_step (m 16) 16 s1"
  define s3 where "s3 = fls_step (m 8) 8 s2"
  define s4 where "s4 = fls_step (m 4) 4 s3"
  define s5 where "s5 = fls_step (m 2) 2 s4"
  have "fls_inv w 64 (w, 64)" using fls_inv_start [OF assms] by simp
  then have 1: "fls_inv w 32 s1" "fls_step (m 32) 32 (w, 63) = pr s1" using step [of 32 "(w, 64)"] by (simp_all add: s1_def pr_def)
  then have 2: "fls_inv w 16 s2" "fls_step (m 16) 16 (pr s1) = pr s2" using step [of 16 s1] by (simp_all add: s2_def)
  then have 3: "fls_inv w 8 s3" "fls_step (m 8) 8 (pr s2) = pr s3" using step [of 8 s2] by (simp_all add: s3_def)
  then have 4: "fls_inv w 4 s4" "fls_step (m 4) 4 (pr s3) = pr s4" using step [of 4 s3] by (simp_all add: s4_def)
  then have 5: "fls_inv w 2 s5" "fls_step (m 2) 2 (pr s4) = pr s5" using step [of 2 s4] by (simp_all add: s5_def)
  then have 6: "fls_inv w 1 (fls_step (m 1) 1 s5)" "fls_step (m 1) 1 (pr s5) = pr (fls_step (m 1) 1 s5)"
    using step [of 1 s5] by (simp_all add: numeral_2_eq_2)
  have "fls_long w = snd (fls_step (m 1) 1 (fls_step (m 2) 2 (fls_step (m 4) 4 (fls_step (m 8) 8 (fls_step (m 16) 16 (fls_step (m 32) 32 (w, 63)))))))"
    by (simp add: fls_long_def m_def fls_step_def [of _ "Suc 0"] split: prod.splits)
  then have "fls_long w = snd (fls_step (m 1) 1 s5) - 1" by (simp only: 1 2 3 4 5 6) (simp add: pr_def)
  then show ?thesis using fls_inv_1 [OF 6(1)] by auto
qed

section \<open>Consequences\<close>

text \<open>The bit searches as bounds on the value of the word.\<close>

lemma bit_unat: "bit (unat w) i \<longleftrightarrow> bit w i"
  by (simp add: bit_unsigned_iff)

lemma unat_drop_bit: "unat (drop_bit n w) = unat w div 2 ^ n"
proof -
  have "unat (drop_bit n w) = drop_bit n (unat w)" by (rule bit_eqI) (simp add: bit_unat bit_drop_bit_eq)
  then show ?thesis by (simp only: drop_bit_eq_div)
qed

lemma word_less_exp_iff: "unat (w :: 'a :: len word) < 2 ^ n \<longleftrightarrow> (\<forall>i \<ge> n. \<not> bit w i)"
proof
  assume "unat w < 2 ^ n"
  then have "take_bit n (unat w) = unat w" by (rule take_bit_nat_eq_self)
  then show "\<forall>i \<ge> n. \<not> bit w i" by (metis bit_take_bit_iff bit_unat not_le)
next
  assume a: "\<forall>i \<ge> n. \<not> bit w i"
  have "take_bit n (unat w) = unat w"
    by (rule bit_eqI) (use a in \<open>auto simp: bit_take_bit_iff bit_unat simp flip: not_le\<close>)
  then show "unat w < 2 ^ n" by (simp add: take_bit_nat_eq_self_iff)
qed

lemma exp_le_word: "bit (w :: 'a :: len word) n \<Longrightarrow> 2 ^ n \<le> unat w"
  using word_less_exp_iff [of w n] by (meson le_refl not_le)

lemma fls_bounds: "x \<noteq> 0 \<Longrightarrow> 2 ^ (fls x - 1) \<le> unat x \<and> unat x < 2 ^ fls x \<and> 1 \<le> fls x \<and> fls x \<le> 32"
  using fls_spec [of x] exp_le_word [of x "fls x - 1"] word_less_exp_iff [of x "fls x"] bit_imp_le_length [of x "fls x - 1"] by auto

lemma fls_long_bounds: "w \<noteq> 0 \<Longrightarrow> 2 ^ fls_long w \<le> unat w \<and> unat w < 2 ^ Suc (fls_long w) \<and> fls_long w < 64"
  using fls_long_spec [of w] exp_le_word [of w "fls_long w"] word_less_exp_iff [of w "Suc (fls_long w)"] bit_imp_le_length [of w "fls_long w"]
  by (auto simp: Suc_le_eq)

lemma ffs_long_less: "w \<noteq> 0 \<Longrightarrow> ffs_long w < 64"
  using ffs_long_spec [of w] bit_imp_le_length [of w "ffs_long w"] by simp

text \<open>Shifting out the zeros below the lowest set bit leaves an odd number and loses nothing.\<close>

lemma ffs_long_dvd: "w \<noteq> 0 \<Longrightarrow> unat w = 2 ^ ffs_long w * unat (drop_bit (ffs_long w) w) \<and> odd (unat (drop_bit (ffs_long w) w))"
proof -
  assume "w \<noteq> 0"
  then have f: "bit w (ffs_long w)" "\<forall>i < ffs_long w. \<not> bit w i" using ffs_long_spec by blast+
  have d: "unat (drop_bit (ffs_long w) w) = unat w div 2 ^ ffs_long w" by (rule unat_drop_bit)
  have "take_bit (ffs_long w) (unat w) = 0"
    by (rule bit_eqI) (use f(2) in \<open>auto simp: bit_take_bit_iff bit_unat\<close>)
  then have "unat w mod 2 ^ ffs_long w = 0" by (simp add: take_bit_eq_mod)
  moreover have "odd (unat w div 2 ^ ffs_long w)" using f(1) by (metis bit_iff_odd bit_unat)
  ultimately show ?thesis unfolding d by (metis add_0_right mult_div_mod_eq)
qed

end
