(* ===== verification/Find_Bit.thy ===== *)
theory Find_Bit imports Bitops begin

text \<open>
  Searching bitmaps, \<^verbatim>\<open>lib/src/find_bit.c\<close>, and the iteration macro \<^verbatim>\<open>for_each_set_bit\<close> over it.  A bitmap is a function
  from word indices to 64-bit words; sizes and offsets are natural numbers.  The build is little-endian, so
  the byte-swapping variants are not compiled and the argument \<^verbatim>\<open>le\<close> is always 0.
\<close>

section \<open>Operations\<close>

type_synonym bitmap = "nat \<Rightarrow> u64"

definition FIRST_WORD_MASK :: "nat \<Rightarrow> u64" where
  "FIRST_WORD_MASK start = push_bit (start mod 64) (- 1)"

definition LAST_WORD_MASK :: "nat \<Rightarrow> u64" where
  "LAST_WORD_MASK nbits = drop_bit ((64 - nbits mod 64) mod 64) (- 1)"

definition fetch_word :: "bitmap \<Rightarrow> bitmap option \<Rightarrow> u64 \<Rightarrow> nat \<Rightarrow> u64" where
  "fetch_word addr1 addr2 invert i =
     (let tmp = addr1 i; tmp = (case addr2 of None \<Rightarrow> tmp | Some a \<Rightarrow> tmp AND a i) in tmp XOR invert)"

function find_next_loop :: "bitmap \<Rightarrow> bitmap option \<Rightarrow> nat \<Rightarrow> u64 \<Rightarrow> u64 \<Rightarrow> nat \<Rightarrow> nat" where
  "find_next_loop addr1 addr2 nbits invert tmp start =
     (if tmp \<noteq> 0 then min (start + ffs_long tmp) nbits
      else if nbits \<le> start + 64 then nbits
      else find_next_loop addr1 addr2 nbits invert (fetch_word addr1 addr2 invert ((start + 64) div 64)) (start + 64))"
  by auto
termination by (relation "measure (\<lambda>(_, _, nbits, _, _, start). nbits - start)") auto

declare find_next_loop.simps [simp del]

definition find_next :: "bitmap \<Rightarrow> bitmap option \<Rightarrow> nat \<Rightarrow> nat \<Rightarrow> u64 \<Rightarrow> nat" where
  "find_next addr1 addr2 nbits start invert =
     (if nbits \<le> start then nbits
      else find_next_loop addr1 addr2 nbits invert
             (fetch_word addr1 addr2 invert (start div 64) AND FIRST_WORD_MASK start) (start - start mod 64))"

definition find_next_bit :: "bitmap \<Rightarrow> nat \<Rightarrow> nat \<Rightarrow> nat" where
  "find_next_bit addr sz offset = find_next addr None sz offset 0"

definition find_next_zero_bit :: "bitmap \<Rightarrow> nat \<Rightarrow> nat \<Rightarrow> nat" where
  "find_next_zero_bit addr sz offset = find_next addr None sz offset (- 1)"

definition find_next_and_bit :: "bitmap \<Rightarrow> bitmap \<Rightarrow> nat \<Rightarrow> nat \<Rightarrow> nat" where
  "find_next_and_bit addr1 addr2 sz offset = find_next addr1 (Some addr2) sz offset 0"

function find_first_from :: "bitmap \<Rightarrow> nat \<Rightarrow> nat \<Rightarrow> nat" where
  "find_first_from addr sz idx =
     (if idx * 64 < sz then
        (if addr idx \<noteq> 0 then min (idx * 64 + ffs_long (addr idx)) sz else find_first_from addr sz (idx + 1))
      else sz)"
  by auto
termination by (relation "measure (\<lambda>(_, sz, idx). sz - idx * 64)") auto

definition find_first_bit :: "bitmap \<Rightarrow> nat \<Rightarrow> nat" where
  "find_first_bit addr sz = find_first_from addr sz 0"

function find_first_zero_from :: "bitmap \<Rightarrow> nat \<Rightarrow> nat \<Rightarrow> nat" where
  "find_first_zero_from addr sz idx =
     (if idx * 64 < sz then
        (if addr idx \<noteq> - 1 then min (idx * 64 + ffz (addr idx)) sz else find_first_zero_from addr sz (idx + 1))
      else sz)"
  by auto
termination by (relation "measure (\<lambda>(_, sz, idx). sz - idx * 64)") auto

declare find_first_from.simps [simp del] find_first_zero_from.simps [simp del]

definition find_first_zero_bit :: "bitmap \<Rightarrow> nat \<Rightarrow> nat" where
  "find_first_zero_bit addr sz = find_first_zero_from addr sz 0"

fun find_last_down :: "bitmap \<Rightarrow> nat \<Rightarrow> u64 \<Rightarrow> nat \<Rightarrow> nat" where
  "find_last_down addr sz val idx =
     (if val AND addr idx \<noteq> 0 then idx * 64 + fls_long (val AND addr idx)
      else case idx of 0 \<Rightarrow> sz | Suc i \<Rightarrow> find_last_down addr sz (- 1) i)"

declare find_last_down.simps [simp del]

definition find_last_bit :: "bitmap \<Rightarrow> nat \<Rightarrow> nat" where
  "find_last_bit addr sz = (if sz \<noteq> 0 then find_last_down addr sz (LAST_WORD_MASK sz) ((sz - 1) div 64) else sz)"

definition bitmap_get_value8 :: "bitmap \<Rightarrow> nat \<Rightarrow> u64" where
  "bitmap_get_value8 bmap start = drop_bit (start mod 64) (bmap (start div 64)) AND 0xFF"

text \<open>The clump is \<open>None\<close> when \<^verbatim>\<open>*clump\<close> is not written.\<close>

definition find_next_clump8 :: "bitmap \<Rightarrow> nat \<Rightarrow> nat \<Rightarrow> nat \<times> u64 option" where
  "find_next_clump8 addr sz offset =
     (let offset = find_next_bit addr sz offset
      in if offset = sz then (sz, None)
         else let offset = offset - offset mod 8 in (offset, Some (bitmap_get_value8 addr offset)))"

text \<open>The bits the iteration macros visit, in order.\<close>

partial_function (option) for_each_loop :: "(nat \<Rightarrow> nat) \<Rightarrow> nat \<Rightarrow> nat \<Rightarrow> nat list option" where
  "for_each_loop nxt sz b =
     (if b < sz then Option.bind (for_each_loop nxt sz (nxt (b + 1))) (\<lambda>bs. Some (b # bs)) else Some [])"

definition for_each_set_bit :: "bitmap \<Rightarrow> nat \<Rightarrow> nat list option" where
  "for_each_set_bit addr sz = for_each_loop (find_next_bit addr sz) sz (find_first_bit addr sz)"

definition for_each_clear_bit :: "bitmap \<Rightarrow> nat \<Rightarrow> nat list option" where
  "for_each_clear_bit addr sz = for_each_loop (find_next_zero_bit addr sz) sz (find_first_zero_bit addr sz)"

section \<open>What a search promises\<close>

text \<open>\<open>found P from sz r\<close>: \<open>r\<close> is the first number from \<open>from\<close> on that satisfies \<open>P\<close>, or \<open>sz\<close> if none below \<open>sz\<close> does.\<close>

definition found :: "(nat \<Rightarrow> bool) \<Rightarrow> nat \<Rightarrow> nat \<Rightarrow> nat \<Rightarrow> bool" where
  "found P from sz r \<longleftrightarrow> r \<le> sz \<and> (\<forall>n. from \<le> n \<and> n < r \<longrightarrow> \<not> P n) \<and> (r < sz \<longrightarrow> from \<le> r \<and> P r)"

lemma found_unique: "found P from sz r \<Longrightarrow> found P from sz r' \<Longrightarrow> r = r'"
  unfolding found_def by (metis le_less_trans less_le_trans linorder_neqE_nat)

lemma found_filter:
  assumes "found P from sz r" and "from \<le> sz"
  shows "filter P [from..<sz] = (if r < sz then r # filter P [Suc r..<sz] else [])"
proof (cases "r < sz")
  case True
  then have f: "from \<le> r" "P r" "\<forall>n. from \<le> n \<and> n < r \<longrightarrow> \<not> P n" using assms(1) by (auto simp: found_def)
  have "[from..<sz] = [from..<r] @ r # [Suc r..<sz]" using True f(1) by (metis less_imp_le upt_add_eq_append upt_conv_Cons le_add_diff_inverse)
  moreover have "filter P [from..<r] = []" using f(3) by (simp add: filter_empty_conv)
  ultimately show ?thesis using True f(2) by simp
next
  case False
  then have "\<forall>n. from \<le> n \<and> n < sz \<longrightarrow> \<not> P n" using assms(1) by (auto simp: found_def)
  then show ?thesis using False by (simp add: filter_empty_conv)
qed

locale bit_search =
  fixes test :: "nat \<Rightarrow> bool" and sz :: nat and first :: nat and nxt :: "nat \<Rightarrow> nat"
  assumes first_found: "found test 0 sz first"
    and next_found: "found test from sz (nxt from)"
begin

lemma for_each_loop_filter:
  "found test from sz b \<Longrightarrow> from \<le> sz \<Longrightarrow> for_each_loop nxt sz b = Some (filter test [from..<sz])"
proof (induction "sz - b" arbitrary: b "from" rule: less_induct)
  case less
  show ?case
  proof (cases "b < sz")
    case True
    have "for_each_loop nxt sz (nxt (b + 1)) = Some (filter test [b + 1..<sz])"
    proof (rule less.hyps)
      show "found test (b + 1) sz (nxt (b + 1))" by (rule next_found)
      have "b < nxt (b + 1) \<or> nxt (b + 1) = sz" using next_found [of "b + 1"] by (auto simp: found_def)
      then show "sz - nxt (b + 1) < sz - b" using True by auto
    qed (use True in simp)
    then show ?thesis using True found_filter [OF less.prems] by (simp add: for_each_loop.simps [of nxt sz b])
  next
    case False
    then show ?thesis using found_filter [OF less.prems] by (simp add: for_each_loop.simps [of nxt sz b])
  qed
qed

lemma for_each_visits: "for_each_loop nxt sz first = Some (filter test [0..<sz])"
  using for_each_loop_filter [OF first_found] by simp

end

section \<open>The searches\<close>

definition bit_of :: "bitmap \<Rightarrow> nat \<Rightarrow> bool" where
  "bit_of addr n \<longleftrightarrow> bit (addr (n div 64)) (n mod 64)"

lemma bit_of_word: "j < 64 \<Longrightarrow> bit_of addr (64 * i + j) \<longleftrightarrow> bit (addr i) j"
  by (simp add: bit_of_def)

text \<open>\<open>tmp\<close> holds the bits of word \<open>i\<close> that the search from \<open>lo\<close> on still has to look at.\<close>

definition word_from :: "(nat \<Rightarrow> bool) \<Rightarrow> nat \<Rightarrow> nat \<Rightarrow> u64 \<Rightarrow> bool" where
  "word_from P lo i tmp \<longleftrightarrow> (\<forall>j < 64. bit tmp j \<longleftrightarrow> lo \<le> 64 * i + j \<and> P (64 * i + j))"

lemma word_from_hit:
  assumes "word_from P lo i tmp" and "\<forall>n. lo \<le> n \<and> n < 64 * i \<longrightarrow> \<not> P n" and "tmp \<noteq> 0"
  shows "found P lo nbits (min (64 * i + ffs_long tmp) nbits)"
proof -
  have k: "bit tmp (ffs_long tmp)" "\<forall>j < ffs_long tmp. \<not> bit tmp j" "ffs_long tmp < 64"
    using ffs_long_spec [OF assms(3)] ffs_long_less [OF assms(3)] by auto
  have "\<not> P n" if n: "lo \<le> n" "n < 64 * i + ffs_long tmp" for n
  proof (cases "n < 64 * i")
    case False
    then have "n = 64 * i + (n - 64 * i)" "n - 64 * i < ffs_long tmp" using n by auto
    then show ?thesis using assms(1) k(2,3) n(1) unfolding word_from_def by (metis less_trans)
  qed (use assms(2) n in blast)
  moreover have "lo \<le> 64 * i + ffs_long tmp \<and> P (64 * i + ffs_long tmp)" using assms(1) k(1,3) by (simp add: word_from_def)
  ultimately show ?thesis by (auto simp: found_def)
qed

lemma word_from_miss:
  assumes "word_from P lo i 0" and "\<forall>n. lo \<le> n \<and> n < 64 * i \<longrightarrow> \<not> P n" and n: "lo \<le> n" "n < 64 * i + 64"
  shows "\<not> P n"
proof (cases "n < 64 * i")
  case False
  then have "n = 64 * i + (n - 64 * i)" "n - 64 * i < 64" using n by auto
  then show ?thesis using assms(1) n(1) unfolding word_from_def by (metis bit_0_eq bot_apply bot_bool_def)
qed (use assms(2) n in blast)

lemma find_next_loop_found:
  assumes P: "\<And>i j. j < 64 \<Longrightarrow> P (64 * i + j) \<longleftrightarrow> bit (fetch_word addr1 addr2 invert i) j"
  shows "word_from P lo i tmp \<Longrightarrow> \<forall>n. lo \<le> n \<and> n < 64 * i \<longrightarrow> \<not> P n \<Longrightarrow> lo < 64 * i + 64 \<Longrightarrow>
    found P lo nbits (find_next_loop addr1 addr2 nbits invert tmp (64 * i))"
proof (induction "nbits - 64 * i" arbitrary: i tmp rule: less_induct)
  case less
  show ?case
  proof (cases "tmp = 0")
    case False
    then show ?thesis using word_from_hit [OF less.prems(1,2)] by (simp add: find_next_loop.simps [of _ _ _ _ tmp])
  next
    case tmp: True
    have none: "\<not> P n" if "lo \<le> n" "n < 64 * i + 64" for n
      using word_from_miss less.prems(1,2) that tmp by blast
    show ?thesis
    proof (cases "nbits \<le> 64 * i + 64")
      case True
      then show ?thesis using tmp none by (auto simp: find_next_loop.simps [of _ _ _ _ 0] found_def)
    next
      case False
      let ?w = "fetch_word addr1 addr2 invert (Suc i)"
      have "found P lo nbits (find_next_loop addr1 addr2 nbits invert ?w (64 * Suc i))"
      proof (rule less.hyps)
        show "word_from P lo (Suc i) ?w" using less.prems(3) P [of _ "Suc i"] by (simp add: word_from_def)
        show "\<forall>n. lo \<le> n \<and> n < 64 * Suc i \<longrightarrow> \<not> P n" using none by simp
      qed (use False less.prems(3) in auto)
      moreover have "(64 * i + 64) div 64 = Suc i" by simp
      ultimately show ?thesis using tmp False by (simp add: find_next_loop.simps [of _ _ _ _ 0] add.commute)
    qed
  qed
qed

lemma bit_FIRST_WORD_MASK: "j < 64 \<Longrightarrow> bit (FIRST_WORD_MASK start) j \<longleftrightarrow> start mod 64 \<le> j"
  by (auto simp: FIRST_WORD_MASK_def bit_simps)

lemma find_next_found:
  assumes P: "\<And>i j. j < 64 \<Longrightarrow> P (64 * i + j) \<longleftrightarrow> bit (fetch_word addr1 addr2 invert i) j"
  shows "found P start nbits (find_next addr1 addr2 nbits start invert)"
proof (cases "nbits \<le> start")
  case True
  then show ?thesis by (auto simp: find_next_def found_def)
next
  case False
  define i where "i = start div 64"
  have s: "start - start mod 64 = 64 * i" "64 * i \<le> start" "start < 64 * i + 64"
    unfolding i_def by (simp_all add: minus_mod_eq_mult_div mult_div_mod_eq div_times_less_eq_dividend dividend_less_times_div)
  have m: "start mod 64 = start - 64 * i" by (simp add: i_def minus_mult_div_eq_mod)
  have "word_from P start i (fetch_word addr1 addr2 invert i AND FIRST_WORD_MASK start)"
    using s(2) by (auto simp: word_from_def bit_and_iff bit_FIRST_WORD_MASK P m)
  with P have "found P start nbits (find_next_loop addr1 addr2 nbits invert
      (fetch_word addr1 addr2 invert i AND FIRST_WORD_MASK start) (64 * i))"
    by (rule find_next_loop_found) (use s in auto)
  then show ?thesis using s(1) False by (simp add: find_next_def i_def)
qed

lemma find_next_bit_found: "found (bit_of addr) offset sz (find_next_bit addr sz offset)"
  unfolding find_next_bit_def by (rule find_next_found) (simp add: bit_of_word fetch_word_def)

lemma find_next_zero_bit_found: "found (\<lambda>n. \<not> bit_of addr n) offset sz (find_next_zero_bit addr sz offset)"
  unfolding find_next_zero_bit_def by (rule find_next_found) (simp add: bit_of_word fetch_word_def bit_simps)

lemma find_next_and_bit_found: "found (\<lambda>n. bit_of addr1 n \<and> bit_of addr2 n) offset sz (find_next_and_bit addr1 addr2 sz offset)"
  unfolding find_next_and_bit_def by (rule find_next_found) (simp add: bit_of_word fetch_word_def bit_simps)

lemma find_first_from_found:
  "\<forall>n < 64 * idx. \<not> bit_of addr n \<Longrightarrow> found (bit_of addr) 0 sz (find_first_from addr sz idx)"
proof (induction addr sz idx rule: find_first_from.induct)
  case (1 addr sz idx)
  have w: "word_from (bit_of addr) 0 idx (addr idx)" by (simp add: word_from_def bit_of_word)
  consider "sz \<le> idx * 64" | "idx * 64 < sz" "addr idx \<noteq> 0" | "idx * 64 < sz" "addr idx = 0" by fastforce
  then show ?case
  proof cases
    case 1
    then show ?thesis using "1.prems" by (auto simp: find_first_from.simps [of addr sz idx] found_def)
  next
    case 2
    then show ?thesis using word_from_hit [OF w, of sz] "1.prems" by (simp add: find_first_from.simps [of addr sz idx] mult.commute)
  next
    case 3
    then have "\<forall>n < 64 * (idx + 1). \<not> bit_of addr n" using word_from_miss [of "bit_of addr" 0 idx] w "1.prems" by auto
    then show ?thesis using "1.IH" 3 by (simp add: find_first_from.simps [of addr sz idx])
  qed
qed

lemma find_first_zero_from_flip: "find_first_zero_from addr sz idx = find_first_from (\<lambda>i. NOT (addr i)) sz idx"
proof (induction addr sz idx rule: find_first_zero_from.induct)
  case (1 addr sz idx)
  have "NOT (addr idx) = 0 \<longleftrightarrow> addr idx = - 1" by (metis bit.compl_zero bit.double_compl)
  then show ?case using 1 by (simp add: find_first_zero_from.simps [of addr sz idx] find_first_from.simps [of _ sz idx] ffz_def)
qed

lemma bit_of_not: "bit_of (\<lambda>i. NOT (addr i)) = (\<lambda>n. \<not> bit_of addr n)"
  by (rule ext) (simp add: bit_of_def bit_simps)

lemma find_first_bit_found: "found (bit_of addr) 0 sz (find_first_bit addr sz)"
  unfolding find_first_bit_def by (rule find_first_from_found) simp

lemma find_first_zero_bit_found: "found (\<lambda>n. \<not> bit_of addr n) 0 sz (find_first_zero_bit addr sz)"
  unfolding find_first_zero_bit_def find_first_zero_from_flip
  using find_first_from_found [of 0 "\<lambda>i. NOT (addr i)" sz] by (simp add: bit_of_not)

interpretation set_bits: bit_search "bit_of addr" sz "find_first_bit addr sz" "find_next_bit addr sz" for addr sz
  by unfold_locales (rule find_first_bit_found find_next_bit_found)+

interpretation clear_bits: bit_search "\<lambda>n. \<not> bit_of addr n" sz "find_first_zero_bit addr sz" "find_next_zero_bit addr sz" for addr sz
  by unfold_locales (rule find_first_zero_bit_found find_next_zero_bit_found)+

section \<open>The last set bit\<close>

lemma bit_LAST_WORD_MASK:
  assumes "0 < sz" and "j < 64"
  shows "bit (LAST_WORD_MASK sz) j \<longleftrightarrow> 64 * ((sz - 1) div 64) + j < sz"
proof -
  define q where "q = (sz - 1) div 64"
  define r where "r = (sz - 1) mod 64"
  have sz: "sz = 64 * q + r + 1" "r < 64" using assms(1) by (simp_all add: q_def r_def)
  have "(64 - sz mod 64) mod 64 = 63 - r"
  proof (cases "r = 63")
    case True
    then show ?thesis using sz by simp
  next
    case False
    then have "sz mod 64 = r + 1" using sz by (simp add: mod_Suc)
    then show ?thesis using False sz(2) by simp
  qed
  then show ?thesis using assms(2) sz unfolding q_def [symmetric] by (auto simp: LAST_WORD_MASK_def bit_simps)
qed

text \<open>\<open>val\<close> selects the bits of word \<open>idx\<close> below \<open>hi\<close>, and no bit from \<open>hi\<close> to \<open>sz\<close> is set.\<close>

definition last_found :: "(nat \<Rightarrow> bool) \<Rightarrow> nat \<Rightarrow> nat \<Rightarrow> bool" where
  "last_found P sz r \<longleftrightarrow> (\<forall>n < sz. P n \<longrightarrow> n \<le> r) \<and> (if r < sz then P r else r = sz \<and> (\<forall>n < sz. \<not> P n))"

lemma last_word_hit:
  assumes val: "\<forall>j < 64. bit val j \<longleftrightarrow> 64 * idx + j < hi" and hi: "\<forall>n. hi \<le> n \<and> n < sz \<longrightarrow> \<not> bit_of addr n" "hi \<le> sz"
    and le: "hi \<le> 64 * idx + 64" and ne: "val AND addr idx \<noteq> 0"
  shows "last_found (bit_of addr) sz (idx * 64 + fls_long (val AND addr idx))"
proof -
  define k where "k = fls_long (val AND addr idx)"
  have k: "bit (val AND addr idx) k" "\<forall>j > k. \<not> bit (val AND addr idx) j" "k < 64"
    using fls_long_spec [OF ne] fls_long_bounds [OF ne] by (auto simp: k_def)
  have r: "64 * idx + k < hi" "bit_of addr (64 * idx + k)" using k(1,3) val by (auto simp: bit_and_iff bit_of_word)
  have "n \<le> 64 * idx + k" if n: "n < sz" "bit_of addr n" for n
  proof (rule ccontr)
    assume "\<not> ?thesis"
    then obtain j where j: "n = 64 * idx + j" "k < j" by (metis add_le_cancel_left le_Suc_ex not_le nat_le_linear le_add1 order_trans)
    have "n < hi" using hi(1) n by (meson not_le)
    then have "j < 64" using j(1) le by simp
    then show False using n(2) j k(2) \<open>n < hi\<close> val by (auto simp: bit_and_iff bit_of_word)
  qed
  then show ?thesis using r hi(2) by (simp add: last_found_def mult.commute flip: k_def)
qed

lemma last_word_miss:
  assumes "\<forall>j < 64. bit val j \<longleftrightarrow> 64 * idx + j < hi" and "\<forall>n. hi \<le> n \<and> n < sz \<longrightarrow> \<not> bit_of addr n"
    and "hi \<le> 64 * idx + 64" and "val AND addr idx = 0" and n: "64 * idx \<le> n" "n < sz"
  shows "\<not> bit_of addr n"
proof
  assume b: "bit_of addr n"
  then have lt: "n < hi" using assms(2) n(2) by (meson not_le)
  define j where "j = n - 64 * idx"
  have j: "n = 64 * idx + j" "j < 64" using n(1) lt assms(3) by (simp_all add: j_def)
  then have "bit (val AND addr idx) j" using b lt assms(1) by (simp add: bit_and_iff bit_of_word)
  then show False using assms(4) by simp
qed

lemma find_last_down_found:
  assumes "\<forall>j < 64. bit val j \<longleftrightarrow> 64 * idx + j < hi" and "\<forall>n. hi \<le> n \<and> n < sz \<longrightarrow> \<not> bit_of addr n"
    and "hi \<le> 64 * idx + 64" and "64 * idx < hi" and "hi \<le> sz"
  shows "last_found (bit_of addr) sz (find_last_down addr sz val idx)"
  using assms
proof (induction idx arbitrary: val hi)
  case 0
  show ?case
  proof (cases "val AND addr 0 = 0")
    case False
    then show ?thesis using last_word_hit [OF "0.prems"(1,2,5,3)] by (simp add: find_last_down.simps)
  next
    case True
    then show ?thesis using last_word_miss [OF "0.prems"(1-3)] by (auto simp: find_last_down.simps last_found_def)
  qed
next
  case (Suc i)
  show ?case
  proof (cases "val AND addr (Suc i) = 0")
    case False
    then show ?thesis using last_word_hit [OF Suc.prems(1,2,5,3)] by (simp add: find_last_down.simps [of _ _ _ "Suc i"])
  next
    case True
    have "last_found (bit_of addr) sz (find_last_down addr sz (- 1) i)"
    proof (rule Suc.IH)
      show "\<forall>n. 64 * Suc i \<le> n \<and> n < sz \<longrightarrow> \<not> bit_of addr n" using last_word_miss [OF Suc.prems(1-3) True] by blast
    qed (use Suc.prems(4,5) in auto)
    then show ?thesis using True by (simp add: find_last_down.simps [of _ _ val])
  qed
qed

lemma find_last_bit_found: "last_found (bit_of addr) sz (find_last_bit addr sz)"
proof (cases "sz = 0")
  case True
  then show ?thesis by (simp add: find_last_bit_def last_found_def)
next
  case False
  have "64 * ((sz - 1) div 64) < sz" "sz \<le> 64 * ((sz - 1) div 64) + 64" using False by linarith+
  then have "last_found (bit_of addr) sz (find_last_down addr sz (LAST_WORD_MASK sz) ((sz - 1) div 64))"
    using False by (intro find_last_down_found [of _ _ sz]) (auto simp: bit_LAST_WORD_MASK)
  then show ?thesis using False by (simp add: find_last_bit_def)
qed

section \<open>Properties\<close>

text \<open>(C29) The searches through a bitmap return the right bit: the first set, clear or common bit from the given
  offset on (or the size when there is none), and the last set bit.  The word at the offset is masked, words without
  a hit are skipped, and bits behind the size are never reported.\<close>

theorem find_bit_correct:
  "found (bit_of addr) offset sz (find_next_bit addr sz offset) \<and>
   found (\<lambda>n. \<not> bit_of addr n) offset sz (find_next_zero_bit addr sz offset) \<and>
   found (\<lambda>n. bit_of addr n \<and> bit_of addr2 n) offset sz (find_next_and_bit addr addr2 sz offset) \<and>
   found (bit_of addr) 0 sz (find_first_bit addr sz) \<and>
   found (\<lambda>n. \<not> bit_of addr n) 0 sz (find_first_zero_bit addr sz) \<and>
   last_found (bit_of addr) sz (find_last_bit addr sz)"
  by (intro conjI find_next_bit_found find_next_zero_bit_found find_next_and_bit_found find_first_bit_found
      find_first_zero_bit_found find_last_bit_found)

text \<open>The iteration macros end and visit exactly the set (or clear) bits below the size, each once and in
  ascending order.\<close>

theorem for_each_bit_visits:
  "for_each_set_bit addr sz = Some (filter (bit_of addr) [0..<sz]) \<and>
   for_each_clear_bit addr sz = Some (filter (\<lambda>n. \<not> bit_of addr n) [0..<sz])"
  unfolding for_each_set_bit_def for_each_clear_bit_def
  by (intro conjI set_bits.for_each_visits clear_bits.for_each_visits)

end
