(* ===== verification/Hweight.thy ===== *)
theory Hweight imports Find_Bit begin

text \<open>
  The number of set bits, \<^verbatim>\<open>lib/src/hweight.c\<close> and \<^verbatim>\<open>__bitmap_weight\<close> of \<^verbatim>\<open>lib/src/bitmap.c\<close>.  The functions add
  neighbouring fields of the word in parallel; the proof reads the word as a list of digits and follows the fields.
\<close>

section \<open>Operations\<close>

definition sw_hweight32 :: "u32 \<Rightarrow> u32" where
  "sw_hweight32 w =
     (let res = w - (drop_bit 1 w AND 0x55555555);
          res = (res AND 0x33333333) + (drop_bit 2 res AND 0x33333333);
          res = (res + drop_bit 4 res) AND 0x0F0F0F0F;
          res = res + drop_bit 8 res
      in (res + drop_bit 16 res) AND 0x000000FF)"

definition sw_hweight16 :: "u32 \<Rightarrow> u32" where
  "sw_hweight16 w =
     (let res = w - (drop_bit 1 w AND 0x5555);
          res = (res AND 0x3333) + (drop_bit 2 res AND 0x3333);
          res = (res + drop_bit 4 res) AND 0x0F0F
      in (res + drop_bit 8 res) AND 0x00FF)"

definition sw_hweight8 :: "u32 \<Rightarrow> u32" where
  "sw_hweight8 w =
     (let res = w - (drop_bit 1 w AND 0x55);
          res = (res AND 0x33) + (drop_bit 2 res AND 0x33)
      in (res + drop_bit 4 res) AND 0x0F)"

definition sw_hweight64 :: "u64 \<Rightarrow> u64" where
  "sw_hweight64 w =
     (let res = w - (drop_bit 1 w AND 0x5555555555555555);
          res = (res AND 0x3333333333333333) + (drop_bit 2 res AND 0x3333333333333333);
          res = (res + drop_bit 4 res) AND 0x0F0F0F0F0F0F0F0F;
          res = res + drop_bit 8 res;
          res = res + drop_bit 16 res
      in (res + drop_bit 32 res) AND 0x00000000000000FF)"

text \<open>The sum is an \<^verbatim>\<open>int\<close>; it cannot exceed the number of bits.\<close>

fun weight_loop :: "bitmap \<Rightarrow> nat \<Rightarrow> nat" where
  "weight_loop bmap 0 = 0"
| "weight_loop bmap (Suc k) = weight_loop bmap k + unat (sw_hweight64 (bmap k))"

definition bitmap_weight :: "bitmap \<Rightarrow> nat \<Rightarrow> nat" where
  "bitmap_weight bmap bits =
     (let lim = bits div 64; w = weight_loop bmap lim
      in if bits mod 64 \<noteq> 0 then w + unat (sw_hweight64 (bmap lim AND LAST_WORD_MASK bits)) else w)"

section \<open>Digits\<close>

text \<open>The number a list of digits of \<open>K\<close> bits denotes, the lowest digit first.\<close>

fun val :: "nat \<Rightarrow> nat list \<Rightarrow> nat" where
  "val K [] = 0"
| "val K (d # ds) = d + 2 ^ K * val K ds"

fun evens :: "nat list \<Rightarrow> nat list" where
  "evens (x # y # r) = x # evens r"
| "evens xs = xs"

fun odds :: "nat list \<Rightarrow> nat list" where
  "odds (x # y # r) = y # odds r"
| "odds xs = []"

fun pair_sums :: "nat list \<Rightarrow> nat list" where
  "pair_sums (x # y # r) = (x + y) # pair_sums r"
| "pair_sums xs = []"

abbreviation fields_below :: "nat \<Rightarrow> nat list \<Rightarrow> bool" where
  "fields_below K ds \<equiv> \<forall>d \<in> set ds. d < 2 ^ K"

lemma bit_cat: "a < 2 ^ K \<Longrightarrow> bit (a + 2 ^ K * b :: nat) n \<longleftrightarrow> (if n < K then bit a n else bit b (n - K))"
proof -
  assume a: "a < 2 ^ K"
  have d: "a AND push_bit K b = 0"
  proof (rule bit_eqI)
    fix n :: nat
    have "\<not> bit a n" if "K \<le> n" using that a by (metis bit_take_bit_iff not_le take_bit_nat_eq_self)
    then show "bit (a AND push_bit K b) n \<longleftrightarrow> bit (0 :: nat) n" by (auto simp: bit_and_iff bit_push_bit_iff_nat)
  qed
  have "a + 2 ^ K * b = a OR push_bit K b" using disjunctive_add_eq_or [OF d] by (simp add: push_bit_eq_mult mult.commute)
  moreover have "\<not> bit a n" if "K \<le> n" using that a by (metis bit_take_bit_iff not_le take_bit_nat_eq_self)
  ultimately show ?thesis by (auto simp: bit_or_iff bit_push_bit_iff_nat)
qed

lemma and_cat:
  assumes "a < 2 ^ K" and "c < 2 ^ K"
  shows "(a + 2 ^ K * b) AND (c + 2 ^ K * d) = (a AND c) + 2 ^ K * (b AND d :: nat)"
proof (rule bit_eqI)
  fix n
  have "a AND c < 2 ^ K" using assms by (metis take_bit_and take_bit_nat_eq_self take_bit_nat_less_exp)
  then show "bit ((a + 2 ^ K * b) AND (c + 2 ^ K * d)) n \<longleftrightarrow> bit ((a AND c) + 2 ^ K * (b AND d)) n"
    by (simp add: bit_and_iff bit_cat assms)
qed

text \<open>The mask that keeps every other field of \<open>K\<close> bits.\<close>

abbreviation fmask :: "nat \<Rightarrow> nat \<Rightarrow> nat" where
  "fmask K n \<equiv> val (2 * K) (replicate n (2 ^ K - 1))"

lemma and_full: "a < 2 ^ K \<Longrightarrow> a AND (2 ^ K - 1) = (a :: nat)"
  by (metis mask_eq_exp_minus_1 take_bit_eq_mask take_bit_nat_eq_self)

lemma val_double: "val K (x # y # r) = (x + 2 ^ K * y) + 2 ^ (2 * K) * val K r"
  by (simp add: power_add mult_2_right algebra_simps)

lemma val_evens_and: "fields_below K ds \<Longrightarrow> length ds = 2 * n \<Longrightarrow> val K ds AND fmask K n = val (2 * K) (evens ds)"
proof (induction ds arbitrary: n rule: evens.induct)
  case (1 x y r)
  obtain k where n: "n = Suc k" using "1.prems"(2) by (cases n) auto
  have b: "x < 2 ^ K" "y < 2 ^ K" using "1.prems"(1) by simp_all
  have "x + 2 ^ K * y < 2 ^ K * Suc y" using b(1) by simp
  also have "\<dots> \<le> 2 ^ K * 2 ^ K" using b(2) by (intro mult_le_mono2) simp
  finally have lt: "x + 2 ^ K * y < 2 ^ (2 * K)" by (simp add: power_add mult_2)
  have m: "(2 :: nat) ^ K - 1 < 2 ^ (2 * K)" by (rule less_le_trans [of _ "2 ^ K"]) (simp_all add: power_increasing)
  have "(x + 2 ^ K * y) AND (2 ^ K - 1) = x AND (2 ^ K - 1)" using and_cat [of x K "2 ^ K - 1" y 0] b(1) by simp
  then have low: "(x + 2 ^ K * y) AND (2 ^ K - 1) = x" using and_full [OF b(1)] by simp
  have "val K (x # y # r) AND fmask K n = ((x + 2 ^ K * y) AND (2 ^ K - 1)) + 2 ^ (2 * K) * (val K r AND fmask K k)"
    unfolding val_double n replicate_Suc val.simps(2) [of "2 * K"] by (rule and_cat [OF lt m])
  then show ?case using low "1.IH" [of k] "1.prems" n by simp
qed auto

lemma below_tl: "fields_below K ds \<Longrightarrow> fields_below K (tl ds)"
  by (cases ds) auto

lemma val_snoc_0 [simp]: "val K (ds @ [0]) = val K ds"
  by (induction ds) simp_all

lemma val_div: "fields_below K ds \<Longrightarrow> val K ds div 2 ^ K = val K (tl ds)"
  by (cases ds) simp_all

lemma odds_evens: "even (length ds) \<Longrightarrow> ds \<noteq> [] \<Longrightarrow> odds ds = evens (tl ds @ [0])"
proof (induction ds rule: odds.induct)
  case (1 x y r)
  then show ?case by (cases r) auto
qed auto

lemma val_odds_and:
  assumes "fields_below K ds" and "length ds = 2 * n"
  shows "(val K ds div 2 ^ K) AND fmask K n = val (2 * K) (odds ds)"
proof (cases "ds = []")
  case False
  have "val K ds div 2 ^ K = val K (tl ds @ [0])" by (simp add: val_div [OF assms(1)])
  moreover have "val K (tl ds @ [0]) AND fmask K n = val (2 * K) (evens (tl ds @ [0]))"
    using below_tl [OF assms(1)] assms(2) False by (intro val_evens_and) (auto simp flip: length_greater_0_conv)
  ultimately show ?thesis using odds_evens [OF _ False] assms(2) by simp
qed simp

lemma val_add: "length xs = length ys \<Longrightarrow> val J (map2 (+) xs ys) = val J xs + val J ys"
  by (induction xs ys rule: list_induct2) (simp_all add: distrib_left)

lemma pair_sums_map2: "even (length ds) \<Longrightarrow> pair_sums ds = map2 (+) (evens ds) (odds ds) \<and> length (evens ds) = length (odds ds)"
  by (induction ds rule: pair_sums.induct) auto

lemma length_pair_sums [simp]: "length (pair_sums ds) = length ds div 2"
  by (induction ds rule: pair_sums.induct) auto

lemma pair_sums_le: "\<forall>d \<in> set ds. d \<le> c \<Longrightarrow> \<forall>d \<in> set (pair_sums ds). d \<le> 2 * c"
  by (induction ds rule: pair_sums.induct) auto

lemma sum_pair_sums: "even (length ds) \<Longrightarrow> sum_list (pair_sums ds) = sum_list ds"
  by (induction ds rule: pair_sums.induct) auto

lemma val_split: "even (length ds) \<Longrightarrow> val K ds = val (2 * K) (evens ds) + 2 ^ K * val (2 * K) (odds ds)"
  by (induction ds rule: pair_sums.induct) (simp_all add: algebra_simps mult_2_right power_add)

section \<open>The three steps that all widths share\<close>

lemma step_first:
  assumes "fields_below 1 ds" and "length ds = 2 * n"
  shows "val 1 ds - (val 1 ds div 2 AND fmask 1 n) = val 2 (pair_sums ds)"
proof -
  have e: "even (length ds)" using assms(2) by simp
  have "val 1 ds div 2 AND fmask 1 n = val 2 (odds ds)" using val_odds_and [OF assms] by simp
  moreover have "val 1 ds = val 2 (evens ds) + 2 * val 2 (odds ds)" using val_split [OF e, of 1] by simp
  moreover have "val 2 (pair_sums ds) = val 2 (evens ds) + val 2 (odds ds)" using pair_sums_map2 [OF e] val_add by simp
  ultimately show ?thesis by simp
qed

lemma step_masked:
  assumes "fields_below K ds" and "length ds = 2 * n"
  shows "(val K ds AND fmask K n) + (val K ds div 2 ^ K AND fmask K n) = val (2 * K) (pair_sums ds)"
proof -
  have "val (2 * K) (pair_sums ds) = val (2 * K) (evens ds) + val (2 * K) (odds ds)"
    using pair_sums_map2 [of ds] val_add assms(2) by simp
  then show ?thesis by (simp only: val_evens_and [OF assms] val_odds_and [OF assms])
qed

text \<open>Adding the shifted word first is right when no sum of neighbours overflows its field.\<close>

definition spread :: "nat \<Rightarrow> nat list \<Rightarrow> nat list" where
  "spread j ds = map2 (+) ds (drop j ds @ replicate j 0)"

lemma length_spread [simp]: "j \<le> length ds \<Longrightarrow> length (spread j ds) = length ds"
  by (simp add: spread_def)

lemma val_pad [simp]: "val K (ds @ replicate j 0) = val K ds"
  by (induction j) (simp_all flip: replicate_append_same append_assoc)

lemma val_drop: "fields_below K ds \<Longrightarrow> val K ds div 2 ^ (K * j) = val K (drop j ds)"
proof (induction j arbitrary: ds)
  case (Suc j)
  have "val K ds div 2 ^ (K * Suc j) = val K ds div 2 ^ K div 2 ^ (K * j)" by (simp add: power_add div_mult2_eq)
  then show ?case using Suc.IH [OF below_tl [OF Suc.prems]] by (simp add: val_div [OF Suc.prems] drop_Suc)
qed simp

lemma val_spread:
  assumes "fields_below K ds" and "j \<le> length ds"
  shows "val K ds + val K ds div 2 ^ (K * j) = val K (spread j ds)"
  unfolding spread_def using assms(2) by (subst val_add) (simp_all add: val_drop [OF assms(1)])

lemma evens_spread: "even (length ds) \<Longrightarrow> evens (spread 1 ds) = pair_sums ds"
proof (induction ds rule: pair_sums.induct)
  case (1 x y r)
  then show ?case by (cases r) (simp_all add: spread_def)
qed (simp_all add: spread_def)

lemma spread_le:
  assumes "\<forall>d \<in> set ds. d \<le> c"
  shows "\<forall>d \<in> set (spread j ds). d \<le> 2 * c"
proof
  fix d assume "d \<in> set (spread j ds)"
  then obtain a b where ab: "(a, b) \<in> set (zip ds (drop j ds @ replicate j 0))" "d = a + b" by (auto simp: spread_def)
  have "a \<le> c" using ab(1) assms by (blast dest: set_zip_leftD)
  moreover have "b \<in> set (drop j ds @ replicate j 0)" using ab(1) by (rule set_zip_rightD)
  then have "b \<le> c" using assms by (auto dest: in_set_dropD)
  ultimately show "d \<le> 2 * c" using ab(2) by simp
qed

lemma step_late_mask:
  assumes "\<forall>d \<in> set ds. d \<le> c" and "2 * c < 2 ^ K" and "length ds = 2 * n" and "0 < n"
  shows "val K (spread 1 ds) AND fmask K n = val (2 * K) (pair_sums ds)"
proof -
  have "fields_below K (spread 1 ds)" using spread_le [OF assms(1)] assms(2) by fastforce
  then show ?thesis using val_evens_and [of "spread 1 ds" K n] evens_spread [of ds] assms(3,4) by simp
qed

section \<open>The steps on words\<close>

lemma val_less: "fields_below K ds \<Longrightarrow> val K ds < 2 ^ (K * length ds)"
proof (induction ds)
  case (Cons d ds)
  have "d + 2 ^ K * val K ds < 2 ^ K * Suc (val K ds)" using Cons.prems by simp
  also have "\<dots> \<le> 2 ^ K * 2 ^ (K * length ds)" using Cons by (intro mult_le_mono2) (simp add: Suc_le_eq)
  finally show ?case by (simp add: power_add)
qed simp

lemma val_fits:
  assumes "\<forall>d \<in> set ds. d \<le> c" and "c < 2 ^ K" and "K * length ds \<le> L"
  shows "val K ds < 2 ^ L"
proof -
  have "fields_below K ds" using assms(1,2) by fastforce
  from val_less [OF this] show ?thesis by (rule less_le_trans) (simp add: assms(3) power_increasing)
qed

lemma unat_and: "unat (a AND b :: 'a :: len word) = unat a AND unat b"
  by (rule unsigned_and_eq)

lemma word_first:
  fixes w :: "'a :: len word"
  assumes "unat w = val 1 ds" and "fields_below 1 ds" and "length ds = 2 * n" and "unat M = fmask 1 n"
  shows "unat (w - (drop_bit 1 w AND M)) = val 2 (pair_sums ds)"
proof -
  have e: "unat (drop_bit 1 w AND M) = (val 1 ds div 2 AND fmask 1 n)"
    by (simp add: unat_and unat_drop_bit assms(1,4) del: val.simps)
  have "unat (drop_bit 1 w AND M) \<le> unat (drop_bit 1 w)" unfolding word_le_nat_alt [symmetric] by (rule word_and_le2)
  then have "unat (drop_bit 1 w AND M) \<le> unat w" by (simp add: unat_drop_bit)
  then have "unat (w - (drop_bit 1 w AND M)) = unat w - unat (drop_bit 1 w AND M)"
    by (simp add: unat_sub word_le_nat_alt)
  then show ?thesis by (simp only: e assms(1) step_first [OF assms(2,3)])
qed

lemma word_masked:
  fixes w :: "'a :: len word"
  assumes "unat w = val K ds" and "\<forall>d \<in> set ds. d \<le> c" and "c < 2 ^ K" and "length ds = 2 * n" and "unat M = fmask K n"
    and "2 * K * n \<le> LENGTH('a)" and "2 * c < 2 ^ (2 * K)"
  shows "unat ((w AND M) + (drop_bit K w AND M)) = val (2 * K) (pair_sums ds)"
proof -
  have b: "fields_below K ds" using assms(2,3) by fastforce
  have e: "unat (w AND M) + unat (drop_bit K w AND M) = val (2 * K) (pair_sums ds)"
    unfolding unat_and unat_drop_bit assms(1,5) by (rule step_masked [OF b assms(4)])
  have "val (2 * K) (pair_sums ds) < 2 ^ LENGTH('a)"
    by (rule val_fits [OF pair_sums_le [OF assms(2)] assms(7)]) (simp add: assms(4,6))
  then show ?thesis using e by (metis unat_add_lem)
qed

lemma word_spread:
  fixes w :: "'a :: len word"
  assumes "unat w = val K ds" and "\<forall>d \<in> set ds. d \<le> c" and "2 * c < 2 ^ K" and "j \<le> length ds"
    and "K * length ds \<le> LENGTH('a)"
  shows "unat (w + drop_bit (K * j) w) = val K (spread j ds)"
proof -
  have b: "fields_below K ds" using assms(2,3) by fastforce
  have e: "unat w + unat (drop_bit (K * j) w) = val K (spread j ds)"
    unfolding unat_drop_bit assms(1) by (rule val_spread [OF b assms(4)])
  have "val K (spread j ds) < 2 ^ LENGTH('a)"
    by (rule val_fits [OF spread_le [OF assms(2)] assms(3)]) (simp add: assms(4,5))
  then show ?thesis using e by (metis unat_add_lem)
qed

lemma word_late_mask:
  fixes w :: "'a :: len word"
  assumes "unat w = val K ds" and "\<forall>d \<in> set ds. d \<le> c" and "2 * c < 2 ^ K" and "length ds = 2 * n" and "unat M = fmask K n"
    and "2 * K * n \<le> LENGTH('a)" and "0 < n"
  shows "unat ((w + drop_bit K w) AND M) = val (2 * K) (pair_sums ds)"
proof -
  have "unat (w + drop_bit (K * 1) w) = val K (spread 1 ds)"
    by (rule word_spread [OF assms(1,2,3)]) (use assms(4,6,7) in \<open>simp_all add: mult.assoc mult.left_commute\<close>)
  then show ?thesis unfolding unat_and assms(5) using step_late_mask [OF assms(2,3,4,7)] by simp
qed

section \<open>The digits of a word\<close>

definition bits_of :: "nat \<Rightarrow> 'a :: len word \<Rightarrow> nat list" where
  "bits_of L w = map (\<lambda>i. of_bool (bit w i)) [0..<L]"

lemma val_of_bool: "val 1 (map of_bool bs) = horner_sum of_bool 2 bs"
  by (induction bs) simp_all

lemma val_bits_of: "unat w < 2 ^ L \<Longrightarrow> val 1 (bits_of L w) = unat w"
proof -
  assume w: "unat w < 2 ^ L"
  have "bits_of L w = map of_bool (map (bit (unat w)) [0..<L])" by (simp add: bits_of_def bit_unsigned_iff)
  then have "val 1 (bits_of L w) = take_bit L (unat w)" by (simp only: val_of_bool horner_sum_bit_eq_take_bit)
  then show ?thesis using w by (simp add: take_bit_nat_eq_self)
qed

lemma sum_bits_of: "sum_list (bits_of L w) = card {i. i < L \<and> bit w i}"
proof (induction L)
  case (Suc L)
  have "{i. i < Suc L \<and> bit w i} = (if bit w L then insert L {i. i < L \<and> bit w i} else {i. i < L \<and> bit w i})"
    by (auto simp: less_Suc_eq)
  then show ?case using Suc by (simp add: bits_of_def)
qed (simp add: bits_of_def)

lemma bits_of_le: "\<forall>d \<in> set (bits_of L w). d \<le> 1"
  by (auto simp: bits_of_def)

lemma length_bits_of [simp]: "length (bits_of L w) = L"
  by (simp add: bits_of_def)

section \<open>Counting\<close>

definition octets :: "nat \<Rightarrow> 'a :: len word \<Rightarrow> nat list" where
  "octets q w = pair_sums (pair_sums (pair_sums (bits_of (8 * q) w)))"

lemma octets_props:
  "length (octets q w) = q" "\<forall>d \<in> set (octets q w). d \<le> 8" "sum_list (octets q w) = card {i. i < 8 * q \<and> bit w i}"
proof -
  have "\<forall>d \<in> set (octets q w). d \<le> 2 * (2 * (2 * 1))"
    unfolding octets_def by (intro pair_sums_le bits_of_le)
  then show "\<forall>d \<in> set (octets q w). d \<le> 8" by simp
qed (simp_all add: octets_def sum_pair_sums sum_bits_of)

lemma word_octets:
  fixes w :: "'a :: len word"
  assumes "unat w < 2 ^ (8 * q)" and "8 * q \<le> LENGTH('a)" and "0 < q"
    and "unat M1 = fmask 1 (4 * q)" and "unat M2 = fmask 2 (2 * q)" and "unat M4 = fmask 4 q"
    and r1: "r1 = w - (drop_bit 1 w AND M1)" and r2: "r2 = (r1 AND M2) + (drop_bit 2 r1 AND M2)"
  shows "unat ((r2 + drop_bit 4 r2) AND M4) = val 8 (octets q w)"
proof -
  let ?b = "bits_of (8 * q) w"
  have b1: "fields_below 1 ?b" using bits_of_le by fastforce
  have p1: "\<forall>d \<in> set (pair_sums ?b). d \<le> 2" using pair_sums_le [OF bits_of_le, of "8 * q" w] by simp
  have p2: "\<forall>d \<in> set (pair_sums (pair_sums ?b)). d \<le> 4" using pair_sums_le [OF p1] by simp
  have 1: "unat r1 = val 2 (pair_sums ?b)" unfolding r1
    by (rule word_first [OF _ b1 _ assms(4)]) (simp_all add: val_bits_of [OF assms(1)] del: One_nat_def)
  have 2: "unat r2 = val (2 * 2) (pair_sums (pair_sums ?b))" unfolding r2
    by (rule word_masked [OF 1 p1 _ _ assms(5)]) (use assms(2) in simp_all)
  have "unat ((r2 + drop_bit 4 r2) AND M4) = val (2 * 4) (pair_sums (pair_sums (pair_sums ?b)))"
    by (rule word_late_mask [OF _ p2 _ _ assms(6) _ assms(3)]) (use assms(2) 2 in simp_all)
  then show ?thesis by (simp add: octets_def)
qed

lemma list_4: "length ds = 4 \<Longrightarrow> \<exists>a b c d. ds = [a, b, c, d]"
  by (auto simp: numeral_eq_Suc length_Suc_conv)

lemma list_8: "length ds = 8 \<Longrightarrow> \<exists>a b c d e f g h. ds = [a, b, c, d, e, f, g, h]"
  by (auto simp: numeral_eq_Suc length_Suc_conv)

lemma word_low_octet:
  fixes w :: "'a :: len word"
  assumes "unat w = val 8 (d # ds)" and "d < 256" and "unat M = 255"
  shows "unat (w AND M) = d"
proof -
  have "unat (w AND M) = unat w mod 256"
    unfolding unat_and assms(3) using take_bit_eq_mask [of 8 "unat w"] by (simp add: mask_eq_exp_minus_1 take_bit_eq_mod)
  then show ?thesis using assms(1,2) by simp
qed

lemma replicate_numeral: "replicate (numeral k) x = x # replicate (pred_numeral k) x"
  by (simp add: numeral_eq_Suc)

lemma sw_hweight8_card: "unat w < 2 ^ 8 \<Longrightarrow> unat (sw_hweight8 w) = card {i. i < 8 \<and> bit w i}"
proof -
  assume "unat w < 2 ^ 8"
  then have "unat (sw_hweight8 w) = val 8 (octets 1 w)" unfolding sw_hweight8_def Let_def
    by (intro word_octets [OF _ _ _ _ _ _ refl refl]) (simp_all add: replicate_numeral)
  moreover obtain a where "octets 1 w = [a]" using octets_props(1) [of 1 w] by (auto simp: length_Suc_conv)
  ultimately show ?thesis using octets_props(3) [of 1 w] by simp
qed

lemma sw_hweight16_card: "unat w < 2 ^ 16 \<Longrightarrow> unat (sw_hweight16 w) = card {i. i < 16 \<and> bit w i}"
proof -
  assume w: "unat w < 2 ^ 16"
  define r1 where "r1 = w - (drop_bit 1 w AND 0x5555)"
  define r2 where "r2 = (r1 AND 0x3333) + (drop_bit 2 r1 AND 0x3333)"
  have "unat ((r2 + drop_bit 4 r2) AND 0x0F0F) = val 8 (octets 2 w)"
    by (rule word_octets [OF _ _ _ _ _ _ r1_def r2_def]) (use w in \<open>simp_all add: replicate_numeral\<close>)
  moreover define r3 where "r3 = (r2 + drop_bit 4 r2) AND 0x0F0F"
  ultimately have "unat ((r3 + drop_bit 8 r3) AND 0x00FF) = val (2 * 8) (pair_sums (octets 2 w))"
    by (intro word_late_mask [OF _ octets_props(2), where n = 1]) (simp_all add: octets_props(1))
  moreover have "sw_hweight16 w = (r3 + drop_bit 8 r3) AND 0x00FF"
    unfolding sw_hweight16_def Let_def r3_def r2_def r1_def by (rule refl)
  moreover obtain a b where "octets 2 w = [a, b]"
    using octets_props(1) [of 2 w] by (auto simp: numeral_2_eq_2 length_Suc_conv)
  ultimately show ?thesis using octets_props(3) [of 2 w] by simp
qed

lemma sw_hweight32_card: "unat (sw_hweight32 w) = card {i. bit w i}"
proof -
  define r1 where "r1 = w - (drop_bit 1 w AND 0x55555555)"
  define r2 where "r2 = (r1 AND 0x33333333) + (drop_bit 2 r1 AND 0x33333333)"
  define r3 where "r3 = (r2 + drop_bit 4 r2) AND 0x0F0F0F0F"
  define r4 where "r4 = r3 + drop_bit 8 r3"
  let ?e = "octets 4 w"
  have 3: "unat r3 = val 8 ?e" unfolding r3_def
    by (rule word_octets [OF _ _ _ _ _ _ r1_def r2_def]) (use unsigned_less [of w] in \<open>simp_all add: replicate_numeral\<close>)
  have "unat (r3 + drop_bit (8 * 1) r3) = val 8 (spread 1 ?e)"
    by (rule word_spread [OF 3 octets_props(2)]) (simp_all add: octets_props(1))
  then have 4: "unat r4 = val 8 (spread 1 ?e)" by (simp add: r4_def)
  have "unat (r4 + drop_bit (8 * 2) r4) = val 8 (spread 2 (spread 1 ?e))"
    by (rule word_spread [OF 4 spread_le [OF octets_props(2)]]) (simp_all add: octets_props(1))
  moreover obtain a b c d where e: "?e = [a, b, c, d]" using list_4 [OF octets_props(1)] by blast
  ultimately have "unat (r4 + drop_bit 16 r4) = val 8 ((a + b + (c + d)) # tl (spread 2 (spread 1 ?e)))"
    by (simp add: spread_def numeral_2_eq_2)
  then have "unat ((r4 + drop_bit 16 r4) AND 0x000000FF) = a + b + (c + d)"
    by (rule word_low_octet) (use octets_props(2) [of 4 w] e in auto)
  moreover have "sw_hweight32 w = (r4 + drop_bit 16 r4) AND 0x000000FF"
    unfolding sw_hweight32_def Let_def r4_def r3_def r2_def r1_def by (rule refl)
  moreover have "{i. i < 8 * 4 \<and> bit w i} = {i. bit w i}" by (auto dest: bit_imp_le_length)
  ultimately show ?thesis using octets_props(3) [of 4 w] e by simp
qed

lemma sw_hweight64_card: "unat (sw_hweight64 w) = card {i. bit w i}"
proof -
  define r1 where "r1 = w - (drop_bit 1 w AND 0x5555555555555555)"
  define r2 where "r2 = (r1 AND 0x3333333333333333) + (drop_bit 2 r1 AND 0x3333333333333333)"
  define r3 where "r3 = (r2 + drop_bit 4 r2) AND 0x0F0F0F0F0F0F0F0F"
  define r4 where "r4 = r3 + drop_bit 8 r3"
  define r5 where "r5 = r4 + drop_bit 16 r4"
  let ?e = "octets 8 w"
  have 3: "unat r3 = val 8 ?e" unfolding r3_def
    by (rule word_octets [OF _ _ _ _ _ _ r1_def r2_def]) (use unsigned_less [of w] in \<open>simp_all add: replicate_numeral\<close>)
  have "unat (r3 + drop_bit (8 * 1) r3) = val 8 (spread 1 ?e)"
    by (rule word_spread [OF 3 octets_props(2)]) (simp_all add: octets_props(1))
  then have 4: "unat r4 = val 8 (spread 1 ?e)" by (simp add: r4_def)
  have "unat (r4 + drop_bit (8 * 2) r4) = val 8 (spread 2 (spread 1 ?e))"
    by (rule word_spread [OF 4 spread_le [OF octets_props(2)]]) (simp_all add: octets_props(1))
  then have 5: "unat r5 = val 8 (spread 2 (spread 1 ?e))" by (simp add: r5_def)
  have "unat (r5 + drop_bit (8 * 4) r5) = val 8 (spread 4 (spread 2 (spread 1 ?e)))"
    by (rule word_spread [OF 5 spread_le [OF spread_le [OF octets_props(2)]]]) (simp_all add: octets_props(1))
  moreover obtain a b c d e f g h where e: "?e = [a, b, c, d, e, f, g, h]" using list_8 [OF octets_props(1)] by blast
  ultimately have "unat (r5 + drop_bit 32 r5)
      = val 8 ((a + b + (c + d) + (e + f + (g + h))) # tl (spread 4 (spread 2 (spread 1 ?e))))"
    by (simp add: spread_def numeral_eq_Suc del: val.simps)
  then have "unat ((r5 + drop_bit 32 r5) AND 0x00000000000000FF) = a + b + (c + d) + (e + f + (g + h))"
    by (rule word_low_octet) (use octets_props(2) [of 8 w] e in auto)
  moreover have "sw_hweight64 w = (r5 + drop_bit 32 r5) AND 0x00000000000000FF"
    unfolding sw_hweight64_def Let_def r5_def r4_def r3_def r2_def r1_def by (rule refl)
  moreover have "{i. i < 8 * 8 \<and> bit w i} = {i. bit w i}" by (auto dest: bit_imp_le_length)
  ultimately show ?thesis using octets_props(3) [of 8 w] e by simp
qed

section \<open>The weight of a bitmap\<close>

lemma card_word_bits:
  assumes "\<forall>j < 64. bit w j \<longleftrightarrow> 64 * i + j < sz \<and> bit_of bmap (64 * i + j)"
  shows "card {j. bit (w :: u64) j} = card {n. 64 * i \<le> n \<and> n < 64 * i + 64 \<and> n < sz \<and> bit_of bmap n}"
proof -
  have w: "bit w j \<longleftrightarrow> j < 64 \<and> 64 * i + j < sz \<and> bit_of bmap (64 * i + j)" for j
    using assms impI [OF bit_imp_le_length [of w j]] by (cases "j < 64") simp_all
  have "n \<in> (\<lambda>j. 64 * i + j) ` {j. bit w j}" if "64 * i \<le> n" "n < 64 * i + 64" "n < sz" "bit_of bmap n" for n
    using that by (intro image_eqI [of _ _ "n - 64 * i"]) (simp_all add: w less_diff_conv2)
  then have "(\<lambda>j. 64 * i + j) ` {j. bit w j} = {n. 64 * i \<le> n \<and> n < 64 * i + 64 \<and> n < sz \<and> bit_of bmap n}"
    by (auto simp: w)
  then show ?thesis using card_image [of "\<lambda>j. 64 * i + j" "{j. bit w j}"] by simp
qed

lemma weight_loop_card: "weight_loop bmap k = card {n. n < 64 * k \<and> bit_of bmap n}"
proof (induction k)
  case (Suc k)
  let ?new = "{n. 64 * k \<le> n \<and> n < 64 * k + 64 \<and> n < 64 * Suc k \<and> bit_of bmap n}"
  have "card {j. bit (bmap k) j} = card ?new" by (rule card_word_bits) (simp add: bit_of_word)
  moreover have "{n. n < 64 * Suc k \<and> bit_of bmap n} = {n. n < 64 * k \<and> bit_of bmap n} \<union> ?new" by auto
  moreover have "card ({n. n < 64 * k \<and> bit_of bmap n} \<union> ?new) = card {n. n < 64 * k \<and> bit_of bmap n} + card ?new"
    by (rule card_Un_disjoint) auto
  ultimately show ?case using Suc by (simp add: sw_hweight64_card)
qed simp

lemma bitmap_weight_card: "bitmap_weight bmap bits = card {n. n < bits \<and> bit_of bmap n}"
proof (cases "bits mod 64 = 0")
  case True
  then have "bits = 64 * (bits div 64)" by auto
  then show ?thesis using weight_loop_card [of bmap "bits div 64"] True by (simp add: bitmap_weight_def)
next
  case False
  define lim where "lim = bits div 64"
  let ?new = "{n. 64 * lim \<le> n \<and> n < 64 * lim + 64 \<and> n < bits \<and> bit_of bmap n}"
  obtain s where s: "s = bits mod 64" by blast
  have "bits = 64 * lim + s" "0 < s" "s < 64" using False by (simp_all add: lim_def s)
  then have b: "64 * lim < bits" "bits < 64 * lim + 64" by simp_all
  have "(bits - 1) div 64 = lim" using b by (intro div_nat_eqI) simp_all
  then have lm: "bit (LAST_WORD_MASK bits) j \<longleftrightarrow> 64 * lim + j < bits" if "j < 64" for j
    using bit_LAST_WORD_MASK [of bits j] that b by simp
  have "card {j. bit (bmap lim AND LAST_WORD_MASK bits) j} = card ?new"
    by (rule card_word_bits) (auto simp: bit_and_iff lm bit_of_word)
  moreover have "{n. n < bits \<and> bit_of bmap n} = {n. n < 64 * lim \<and> bit_of bmap n} \<union> ?new" using b by auto
  moreover have "card ({n. n < 64 * lim \<and> bit_of bmap n} \<union> ?new) = card {n. n < 64 * lim \<and> bit_of bmap n} + card ?new"
    by (rule card_Un_disjoint) auto
  ultimately show ?thesis using False weight_loop_card [of bmap lim]
    by (simp add: bitmap_weight_def sw_hweight64_card Let_def flip: lim_def)
qed

section \<open>Properties\<close>

lemma card_ucast_bits:
  fixes x :: "'a :: len word"
  assumes "LENGTH('a) \<le> 32"
  shows "card {i. i < LENGTH('a) \<and> bit (ucast x :: u32) i} = card {i. bit x i}"
  using assms by (intro arg_cong [of _ _ card]) (auto simp: bit_unsigned_iff dest: bit_imp_le_length)

lemma unat_ucast_less: "unat (ucast (x :: 'a :: len word) :: u32) < 2 ^ LENGTH('a)"
proof -
  have "unat (ucast x :: u32) \<le> unat x" by (simp add: unsigned_ucast_eq)
  then show ?thesis using unsigned_less [of x] by (rule le_less_trans)
qed


end
