(* ===== verification/Bitmap.thy ===== *)
theory Bitmap imports Hweight begin

text \<open>
  Ranges of bits, \<^verbatim>\<open>lib/src/bitmap.c\<close> and the inline functions of \<^verbatim>\<open>include/linux/bitmap.h\<close> over it: setting and
  clearing a range, the search for a free aligned area, the empty and the full bitmap, and the next region.
\<close>

section \<open>Operations\<close>

text \<open>The two loops differ in what they do with a word and its mask.\<close>

function range_loop :: "(u64 \<Rightarrow> u64 \<Rightarrow> u64) \<Rightarrow> nat \<Rightarrow> bitmap \<Rightarrow> nat \<Rightarrow> nat \<Rightarrow> nat \<Rightarrow> u64 \<Rightarrow> bitmap" where
  "range_loop upd sz bmap p len bits mk =
     (if bits \<le> len then range_loop upd sz (bmap(p := upd (bmap p) mk)) (p + 1) (len - bits) 64 (- 1)
      else if len \<noteq> 0 then bmap(p := upd (bmap p) (mk AND LAST_WORD_MASK sz))
      else bmap)"
  by auto
termination by (relation "measure (\<lambda>(_, _, _, _, len, bits, _). if bits = 0 then Suc len else len)") auto

declare range_loop.simps [simp del]

definition bitmap_set :: "bitmap \<Rightarrow> nat \<Rightarrow> nat \<Rightarrow> bitmap" where
  "bitmap_set bmap start len =
     range_loop (\<lambda>w mask_to_set. w OR mask_to_set) (start + len) bmap (start div 64) len (64 - start mod 64) (FIRST_WORD_MASK start)"

definition bitmap_clear :: "bitmap \<Rightarrow> nat \<Rightarrow> nat \<Rightarrow> bitmap" where
  "bitmap_clear bmap start len =
     range_loop (\<lambda>w mask_to_clear. w AND NOT mask_to_clear) (start + len) bmap (start div 64) len (64 - start mod 64) (FIRST_WORD_MASK start)"

text \<open>Clearing the bits of a mask is subtracting them.\<close>

definition ALIGN_MASK :: "nat \<Rightarrow> nat \<Rightarrow> nat" where
  "ALIGN_MASK x mk = x + mk - ((x + mk) AND mk)"

partial_function (option) bitmap_find_next_zero_area_off :: "bitmap \<Rightarrow> nat \<Rightarrow> nat \<Rightarrow> nat \<Rightarrow> nat \<Rightarrow> nat \<Rightarrow> nat option" where
  "bitmap_find_next_zero_area_off bmap sz start nr align_mask align_offset =
     (let index = find_next_zero_bit bmap sz start;
          index = ALIGN_MASK (index + align_offset) align_mask - align_offset;
          fin = index + nr
      in if sz < fin then Some fin
         else let i = find_next_bit bmap fin index
              in if i < fin then bitmap_find_next_zero_area_off bmap sz (i + 1) nr align_mask align_offset else Some index)"

definition bitmap_empty :: "bitmap \<Rightarrow> nat \<Rightarrow> bool" where
  "bitmap_empty src nbits \<longleftrightarrow> find_first_bit src nbits = nbits"

definition bitmap_full :: "bitmap \<Rightarrow> nat \<Rightarrow> bool" where
  "bitmap_full src nbits \<longleftrightarrow> find_first_zero_bit src nbits = nbits"

definition bitmap_next_clear_region :: "bitmap \<Rightarrow> nat \<Rightarrow> nat \<Rightarrow> nat \<times> nat" where
  "bitmap_next_clear_region bmap rs fin =
     (let rs' = find_next_zero_bit bmap fin rs in (rs', find_next_bit bmap fin (rs' + 1)))"

definition bitmap_next_set_region :: "bitmap \<Rightarrow> nat \<Rightarrow> nat \<Rightarrow> nat \<times> nat" where
  "bitmap_next_set_region bmap rs fin =
     (let rs' = find_next_bit bmap fin rs in (rs', find_next_zero_bit bmap fin (rs' + 1)))"

section \<open>Ranges\<close>

text \<open>An update of a word that gives the bits of the mask the value \<open>v\<close> and keeps the others.\<close>

definition assigns :: "(u64 \<Rightarrow> u64 \<Rightarrow> u64) \<Rightarrow> bool \<Rightarrow> bool" where
  "assigns upd v \<longleftrightarrow> (\<forall>w mk j. j < 64 \<longrightarrow> bit (upd w mk) j = (if bit mk j then v else bit w j))"

lemma bit_of_upd:
  "assigns upd v \<Longrightarrow> bit_of (bmap(p := upd (bmap p) mk)) n = (if n div 64 = p \<and> bit mk (n mod 64) then v else bit_of bmap n)"
  by (auto simp: assigns_def bit_of_def)

lemma in_word:
  fixes q r p s :: nat
  assumes "r < 64" and "s < 64"
  shows "q = p \<and> s \<le> r \<longleftrightarrow> 64 * p + s \<le> 64 * q + r \<and> 64 * q + r < 64 * p + 64"
proof
  assume a: "64 * p + s \<le> 64 * q + r \<and> 64 * q + r < 64 * p + 64"
  then have "p < q + 1" "q < p + 1" using assms by linarith+
  then have "q = p" by simp
  then show "q = p \<and> s \<le> r" using a by simp
qed (use assms in auto)

lemma range_loop_bits:
  assumes upd: "assigns upd v"
  shows "pos = 64 * p + (64 - bits) \<Longrightarrow> 1 \<le> bits \<Longrightarrow> bits \<le> 64 \<Longrightarrow> sz = pos + len \<Longrightarrow>
    \<forall>j < 64. bit mk j \<longleftrightarrow> 64 - bits \<le> j \<Longrightarrow>
    bit_of (range_loop upd sz bmap p len bits mk) n = (if pos \<le> n \<and> n < pos + len then v else bit_of bmap n)"
proof (induction len arbitrary: bmap p bits mk pos rule: less_induct)
  case (less len)
  have nm: "n = 64 * (n div 64) + n mod 64" "n mod 64 < 64" by simp_all
  have mk: "bit mk (n mod 64) \<longleftrightarrow> 64 - bits \<le> n mod 64" using less.prems(5) nm(2) by blast
  show ?case
  proof (cases "bits \<le> len")
    case True
    let ?b = "bmap(p := upd (bmap p) mk)"
    have fin: "64 * (p + 1) + (len - bits) = pos + len" and le: "pos \<le> 64 * (p + 1)" "64 * (p + 1) \<le> pos + len"
      using less.prems(1-3) True by simp_all
    have "bit_of (range_loop upd sz ?b (p + 1) (len - bits) 64 (- 1)) n =
        (if 64 * (p + 1) \<le> n \<and> n < 64 * (p + 1) + (len - bits) then v else bit_of ?b n)"
      by (rule less.IH) (use less.prems True in auto)
    then have loop: "bit_of (range_loop upd sz bmap p len bits mk) n =
        (if 64 * (p + 1) \<le> n \<and> n < pos + len then v else bit_of ?b n)"
      unfolding fin using True by (subst range_loop.simps) (simp only: if_True)
    have "n div 64 = p \<and> 64 - bits \<le> n mod 64 \<longleftrightarrow> pos \<le> n \<and> n < 64 * (p + 1)"
      using in_word [OF nm(2), of "64 - bits" "n div 64" p] less.prems(1,2) nm(1) by (simp add: add.commute)
    then have "bit_of ?b n = (if pos \<le> n \<and> n < 64 * (p + 1) then v else bit_of bmap n)"
      by (simp only: bit_of_upd [OF upd] mk)
    then show ?thesis unfolding loop using le by (cases "n < 64 * (p + 1)"; cases "pos \<le> n") (simp_all only: if_True if_False, auto)
  next
    case False
    show ?thesis
    proof (cases "len = 0")
      case True
      then show ?thesis using False by (auto simp: range_loop.simps [of _ _ _ _ 0])
    next
      case len: False
      have "(sz - 1) div 64 = p" using less.prems(1-4) False len by (intro div_nat_eqI) auto
      then have lm: "bit (LAST_WORD_MASK sz) (n mod 64) \<longleftrightarrow> 64 * p + n mod 64 < sz"
        using bit_LAST_WORD_MASK [of sz "n mod 64"] len less.prems(4) by simp
      have iw: "n div 64 = p \<and> 64 - bits \<le> n mod 64 \<longleftrightarrow> pos \<le> n \<and> n < 64 * p + 64"
        using in_word [OF nm(2), of "64 - bits" "n div 64" p] less.prems(1,2) nm(1) by simp
      have le: "pos + len \<le> 64 * p + 64" using less.prems(1-3) False by simp
      have "n div 64 = p \<and> bit (mk AND LAST_WORD_MASK sz) (n mod 64) \<longleftrightarrow> (n div 64 = p \<and> 64 - bits \<le> n mod 64) \<and> n < pos + len"
        unfolding bit_and_iff mk lm using nm(1) less.prems(4) by auto
      also have "\<dots> \<longleftrightarrow> pos \<le> n \<and> n < pos + len" unfolding iw using le by auto
      finally have "n div 64 = p \<and> bit (mk AND LAST_WORD_MASK sz) (n mod 64) \<longleftrightarrow> pos \<le> n \<and> n < pos + len" .
      then have "bit_of (bmap(p := upd (bmap p) (mk AND LAST_WORD_MASK sz))) n = (if pos \<le> n \<and> n < pos + len then v else bit_of bmap n)"
        by (simp only: bit_of_upd [OF upd])
      then show ?thesis using len False by (subst range_loop.simps) (simp only: if_False not_False_eq_True if_True)
    qed
  qed
qed

lemma range_bits:
  assumes "assigns upd v"
  shows "bit_of (range_loop upd (start + len) bmap (start div 64) len (64 - start mod 64) (FIRST_WORD_MASK start)) n =
    (if start \<le> n \<and> n < start + len then v else bit_of bmap n)"
proof (rule range_loop_bits [OF assms])
  have m: "start mod 64 < 64" by simp
  then show "start = 64 * (start div 64) + (64 - (64 - start mod 64))" by simp
  show "1 \<le> 64 - start mod 64" using m by arith
  show "\<forall>j < 64. bit (FIRST_WORD_MASK start) j \<longleftrightarrow> 64 - (64 - start mod 64) \<le> j" using m by (auto simp: bit_FIRST_WORD_MASK)
qed simp_all

lemma bitmap_set_bits: "bit_of (bitmap_set bmap start len) n \<longleftrightarrow> start \<le> n \<and> n < start + len \<or> bit_of bmap n"
proof -
  have "assigns (\<lambda>w mk. w OR mk) True" by (auto simp: assigns_def bit_or_iff)
  from range_bits [OF this] show ?thesis by (auto simp: bitmap_set_def)
qed

lemma bitmap_clear_bits: "bit_of (bitmap_clear bmap start len) n \<longleftrightarrow> \<not> (start \<le> n \<and> n < start + len) \<and> bit_of bmap n"
proof -
  have "assigns (\<lambda>w mk. w AND NOT mk) False" by (auto simp: assigns_def bit_simps)
  from range_bits [OF this] show ?thesis by (auto simp: bitmap_clear_def)
qed

section \<open>Free areas\<close>

lemma ALIGN_MASK_multiple:
  fixes x k :: nat
  defines "y \<equiv> ALIGN_MASK x (2 ^ k - 1)"
  shows "x \<le> y" and "2 ^ k dvd y" and "x \<le> z \<Longrightarrow> 2 ^ k dvd z \<Longrightarrow> y \<le> z"
proof -
  define b where "b = (2 :: nat) ^ k"
  have b: "0 < b" by (simp add: b_def)
  have "v AND (2 ^ k - 1) = v mod 2 ^ k" for v :: nat by (metis mask_eq_exp_minus_1 take_bit_eq_mask take_bit_eq_mod)
  then have "(x + (b - 1)) AND (2 ^ k - 1) = (x + (b - 1)) mod b" by (simp only: b_def)
  then have "y = x + (b - 1) - (x + (b - 1)) mod b" by (simp add: y_def ALIGN_MASK_def b_def)
  then have y: "y = b * ((x + (b - 1)) div b)" by (simp add: minus_mod_eq_mult_div)
  show "2 ^ k dvd y" by (simp add: y b_def)
  have "x + (b - 1) = y + (x + (b - 1)) mod b" by (simp add: y)
  moreover have "(x + (b - 1)) mod b \<le> b - 1" using b by (metis Suc_pred' less_Suc_eq_le mod_less_divisor)
  ultimately show "x \<le> y" by linarith
  assume z: "x \<le> z" "2 ^ k dvd z"
  then obtain c where c: "z = b * c" by (auto simp: b_def)
  then have "x + (b - 1) < b * Suc c" using z(1) b by simp
  then have "(x + (b - 1)) div b < Suc c" using b by (simp add: div_less_iff_less_mult mult.commute)
  then show "y \<le> z" unfolding y c by (intro mult_le_mono2) simp
qed

definition free_area :: "bitmap \<Rightarrow> nat \<Rightarrow> nat \<Rightarrow> nat \<Rightarrow> nat \<Rightarrow> nat \<Rightarrow> bool" where
  "free_area bmap sz nr k off r \<longleftrightarrow> r + nr \<le> sz \<and> 2 ^ k dvd r + off \<and> (\<forall>n. r \<le> n \<and> n < r + nr \<longrightarrow> \<not> bit_of bmap n)"

text \<open>What the search returns: the first free aligned area, or a number beyond the size if there is none.\<close>

definition area_found :: "bitmap \<Rightarrow> nat \<Rightarrow> nat \<Rightarrow> nat \<Rightarrow> nat \<Rightarrow> nat \<Rightarrow> nat \<Rightarrow> bool" where
  "area_found bmap sz start nr k off r \<longleftrightarrow>
     (if r \<le> sz then start \<le> r \<and> free_area bmap sz nr k off r \<and> (\<forall>q. start \<le> q \<and> q < r \<longrightarrow> \<not> free_area bmap sz nr k off q)
      else \<forall>q \<ge> start. \<not> free_area bmap sz nr k off q)"

lemma area_lower_bound:
  assumes "free_area bmap sz nr k off q" and "start \<le> q" and "0 < nr"
  shows "ALIGN_MASK (find_next_zero_bit bmap sz start + off) (2 ^ k - 1) - off \<le> q"
proof -
  have q: "\<not> bit_of bmap q" "q < sz" "2 ^ k dvd q + off" using assms(1,3) by (auto simp: free_area_def)
  have "find_next_zero_bit bmap sz start \<le> q"
    using find_next_zero_bit_found [of bmap start sz] q(1) assms(2) unfolding found_def by (meson not_le)
  then have "ALIGN_MASK (find_next_zero_bit bmap sz start + off) (2 ^ k - 1) \<le> q + off"
    using q(3) by (intro ALIGN_MASK_multiple) simp_all
  then show ?thesis by simp
qed

lemma zero_area_found:
  assumes "0 < nr"
  shows "\<exists>r. bitmap_find_next_zero_area_off bmap sz start nr (2 ^ k - 1) off = Some r \<and> area_found bmap sz start nr k off r"
proof (induction "sz - start" arbitrary: start rule: less_induct)
  case less
  define z where "z = find_next_zero_bit bmap sz start"
  define idx where "idx = ALIGN_MASK (z + off) (2 ^ k - 1) - off"
  define i where "i = find_next_bit bmap (idx + nr) idx"
  have z: "found (\<lambda>n. \<not> bit_of bmap n) start sz z" unfolding z_def by (rule find_next_zero_bit_found)
  have al: "z + off \<le> ALIGN_MASK (z + off) (2 ^ k - 1)" "2 ^ k dvd ALIGN_MASK (z + off) (2 ^ k - 1)"
    by (rule ALIGN_MASK_multiple)+
  have idx: "z \<le> idx" "2 ^ k dvd idx + off" using al by (auto simp: idx_def)
  have low: "idx \<le> q" if "free_area bmap sz nr k off q" "start \<le> q" for q
    using area_lower_bound [OF that assms] by (simp add: idx_def z_def)
  note unfold = bitmap_find_next_zero_area_off.simps [of bmap sz start nr "2 ^ k - 1" off, unfolded Let_def, folded z_def, folded idx_def, folded i_def]
  show ?case
  proof (cases "sz < idx + nr")
    case True
    then have "\<forall>q \<ge> start. \<not> free_area bmap sz nr k off q" using low by (fastforce simp: free_area_def)
    then have "area_found bmap sz start nr k off (idx + nr)" using True by (simp add: area_found_def)
    then show ?thesis unfolding unfold if_P [OF True] by blast
  next
    case False
    then have zs: "start \<le> z" "z < sz" using z idx(1) assms by (auto simp: found_def)
    have f: "found (bit_of bmap) idx (idx + nr) i" unfolding i_def by (rule find_next_bit_found)
    show ?thesis
    proof (cases "i < idx + nr")
      case True
      then have hit: "bit_of bmap i" "idx \<le> i" using f by (auto simp: found_def)
      have none: "\<not> free_area bmap sz nr k off q" if q: "start \<le> q" "q < i + 1" for q
      proof
        assume fr: "free_area bmap sz nr k off q"
        then have "idx \<le> q" using low q(1) by blast
        then show False using fr hit(1) True q(2) by (auto simp: free_area_def)
      qed
      have "sz - (i + 1) < sz - start" using hit(2) idx(1) zs by linarith
      from less.hyps [OF this] obtain r where r:
        "bitmap_find_next_zero_area_off bmap sz (i + 1) nr (2 ^ k - 1) off = Some r" "area_found bmap sz (i + 1) nr k off r" by blast
      have "start \<le> i + 1" using hit(2) idx(1) zs(1) by simp
      then have "area_found bmap sz start nr k off r" using r(2) none unfolding area_found_def by (smt (verit) not_less order_trans)
      then show ?thesis unfolding unfold if_not_P [OF False] if_P [OF True] r(1) by blast
    next
      case miss: False
      then have "free_area bmap sz nr k off idx" using f idx(2) False by (auto simp: found_def free_area_def)
      then have "area_found bmap sz start nr k off idx" using low False zs(1) idx(1) by (auto simp: area_found_def simp flip: not_le)
      then show ?thesis unfolding unfold if_not_P [OF False] if_not_P [OF miss] by blast
    qed
  qed
qed

section \<open>Properties\<close>

lemma found_none: "found P 0 sz r \<Longrightarrow> r = sz \<longleftrightarrow> (\<forall>n < sz. \<not> P n)"
  unfolding found_def by (metis le0 le_neq_implies_less)

lemma bitmap_empty_full:
  "bitmap_empty src nbits \<longleftrightarrow> (\<forall>n < nbits. \<not> bit_of src n)" "bitmap_full src nbits \<longleftrightarrow> (\<forall>n < nbits. bit_of src n)"
  unfolding bitmap_empty_def bitmap_full_def
  using found_none [OF find_first_bit_found] found_none [OF find_first_zero_bit_found] by simp_all

text \<open>The next maximal run of bits with \<open>P\<close>, empty at the end if there is none.\<close>

definition next_run :: "(nat \<Rightarrow> bool) \<Rightarrow> nat \<Rightarrow> nat \<Rightarrow> nat \<times> nat \<Rightarrow> bool" where
  "next_run P rs fin = (\<lambda>(s, e). s \<le> fin \<and> e \<le> fin \<and> (\<forall>n. rs \<le> n \<and> n < s \<longrightarrow> \<not> P n) \<and>
     (\<forall>n. s \<le> n \<and> n < e \<longrightarrow> P n) \<and> (s < fin \<longrightarrow> rs \<le> s \<and> s < e) \<and> (e < fin \<longrightarrow> \<not> P e))"

lemma next_run_found:
  assumes "found P rs fin s" and "found (\<lambda>n. \<not> P n) (s + 1) fin e"
  shows "next_run P rs fin (s, e)"
proof -
  have "P n" if n: "s \<le> n" "n < e" for n
  proof (cases "n = s")
    case True
    then have "s < fin" using n assms(2) by (simp add: found_def)
    then show ?thesis using True assms(1) by (simp add: found_def)
  next
    case False
    then have "s + 1 \<le> n" using n(1) by simp
    then show ?thesis using assms(2) n(2) unfolding found_def by blast
  qed
  moreover have "s < e" if "s < fin" using assms(2) that unfolding found_def by (cases "e < fin") auto
  ultimately show ?thesis using assms unfolding next_run_def found_def by simp
qed

lemma next_region_run:
  "next_run (bit_of bmap) rs fin (bitmap_next_set_region bmap rs fin)"
  "next_run (\<lambda>n. \<not> bit_of bmap n) rs fin (bitmap_next_clear_region bmap rs fin)"
  unfolding bitmap_next_set_region_def bitmap_next_clear_region_def Let_def
  by (rule next_run_found; simp add: find_next_bit_found find_next_zero_bit_found)+

text \<open>The weight grows by the number of bits of a free area that is set.\<close>

lemma weight_of_area:
  assumes "free_area bmap sz nr k off r"
  shows "bitmap_weight (bitmap_set bmap r nr) sz = bitmap_weight bmap sz + nr"
proof -
  have "{n. n < sz \<and> bit_of (bitmap_set bmap r nr) n} = {n. n < sz \<and> bit_of bmap n} \<union> {r..<r + nr}"
    using assms by (auto simp: bitmap_set_bits free_area_def)
  moreover have "card ({n. n < sz \<and> bit_of bmap n} \<union> {r..<r + nr}) = card {n. n < sz \<and> bit_of bmap n} + card {r..<r + nr}"
    using assms by (intro card_Un_disjoint) (auto simp: free_area_def)
  ultimately show ?thesis by (simp add: bitmap_weight_card)
qed




end
