(* ===== verification/Kmath.thy ===== *)
theory Kmath imports Bitops begin

text \<open>
  Arithmetic, \<^verbatim>\<open>math/src\<close>: the binary \<^verbatim>\<open>gcd\<close> and \<^verbatim>\<open>lcm\<close> on 64-bit words, division by repeated subtraction, the
  product-then-quotient on 64-bit words, and division by an invariant 32-bit divisor through multiplication.
  The loops are partial functions, so that \<open>None\<close> means running for ever.
\<close>

section \<open>Operations\<close>

subsection \<open>gcd.c, lcm.c\<close>

partial_function (option) gcd_loop :: "u64 \<Rightarrow> u64 \<Rightarrow> u64 \<Rightarrow> u64 option" where
  "gcd_loop a b r =
     (let a1 = drop_bit (ffs_long a) a
      in if a1 = 1 then Some (r AND - r)
         else if a1 = b then Some (push_bit (ffs_long r) a1)
         else if a1 < b then gcd_loop (b - a1) a1 r
         else gcd_loop (a1 - b) b r)"

definition gcd_long :: "u64 \<Rightarrow> u64 \<Rightarrow> u64 option" where
  "gcd_long a b =
     (let r = a OR b
      in if a = 0 \<or> b = 0 then Some r
         else
           let b1 = drop_bit (ffs_long b) b
           in if b1 = 1 then Some (r AND - r) else gcd_loop a b1 r)"

definition lcm_long :: "u64 \<Rightarrow> u64 \<Rightarrow> u64 option" where
  "lcm_long a b = (if a \<noteq> 0 \<and> b \<noteq> 0 then map_option (\<lambda>g. (a div g) * b) (gcd_long a b) else Some 0)"

definition lcm_not_zero :: "u64 \<Rightarrow> u64 \<Rightarrow> u64 option" where
  "lcm_not_zero a b = map_option (\<lambda>l. if l \<noteq> 0 then l else if b \<noteq> 0 then b else a) (lcm_long a b)"

subsection \<open>div64.c\<close>

partial_function (option) iter_div_loop :: "u64 \<Rightarrow> u32 \<Rightarrow> u32 \<Rightarrow> (u32 \<times> u64) option" where
  "iter_div_loop dividend divisor ret =
     (if ucast divisor \<le> dividend then iter_div_loop (dividend - ucast divisor) divisor (ret + 1)
      else Some (ret, dividend))"

definition iter_div_u64_rem :: "u64 \<Rightarrow> u32 \<Rightarrow> (u32 \<times> u64) option" where
  "iter_div_u64_rem dividend divisor = iter_div_loop dividend divisor 0"

definition ilog2 :: "u64 \<Rightarrow> int" where
  "ilog2 n = int (fls64 n) - 1"

definition mul_u64_u64_div_u64 :: "u64 \<Rightarrow> u64 \<Rightarrow> u64 \<Rightarrow> u64" where
  "mul_u64_u64_div_u64 a b c =
     (if ilog2 a + ilog2 b > 62 then
        let res = (b div c) * a; b1 = b mod c; shift = ilog2 a + ilog2 b1 - 62
        in if shift > 0 then
             let b2 = drop_bit (nat shift) b1; c2 = drop_bit (nat shift) c
             in if c2 = 0 then res else res + (a * b2) div c2
           else res + (a * b1) div c
      else 0 + (a * b) div c)"

subsection \<open>reciprocal_div.c\<close>

record reciprocal =
  rv_m :: u32
  sh1 :: nat
  sh2 :: nat

definition reciprocal_value :: "u32 \<Rightarrow> reciprocal" where
  "reciprocal_value d =
     (let l = fls (d - 1);
          m0 = push_bit 32 1 * (push_bit l 1 - ucast d) :: u64;
          m1 = m0 div ucast d + 1
      in \<lparr>rv_m = ucast m1, sh1 = min l 1, sh2 = max (l - 1) 0\<rparr>)"

definition reciprocal_divide :: "u32 \<Rightarrow> reciprocal \<Rightarrow> u32" where
  "reciprocal_divide a R =
     (let t = ucast (drop_bit 32 (ucast a * ucast (rv_m R) :: u64)) :: u32
      in drop_bit (sh2 R) (t + drop_bit (sh1 R) (a - t)))"

section \<open>Greatest common divisor\<close>

lemma odd_and_minus: "odd q \<Longrightarrow> q AND - q = (1 :: 'a :: len word)"
proof -
  assume q: "odd q"
  have "NOT q AND 1 = 0" using q by (simp add: and_one_eq mod_2_eq_odd)
  then have "NOT q + 1 = NOT q OR 1" by (simp add: disjunctive_add_eq_or)
  then have "- q = NOT q OR 1" by (simp add: minus_eq_not_plus_1)
  then have "q AND - q = q AND 1" by (simp add: bit.conj_disj_distrib)
  then show ?thesis using q by (simp add: and_one_eq mod_2_eq_odd)
qed

lemma push_ffs_drop: "w \<noteq> 0 \<Longrightarrow> push_bit (ffs_long w) (drop_bit (ffs_long w) w) = w"
proof (rule bit_word_eqI)
  fix n assume w: "w \<noteq> 0" and n: "n < LENGTH(64)"
  have "ffs_long w \<le> n" if "bit w n" using ffs_long_spec [OF w] that by (meson not_le)
  then show "bit (push_bit (ffs_long w) (drop_bit (ffs_long w) w)) n \<longleftrightarrow> bit w n" using n by (auto simp: bit_simps)
qed

lemma odd_unat: "odd (unat (w :: 'a :: len word)) \<longleftrightarrow> odd w"
  by (metis bit_0 bit_unat)

lemma lowest_bit: "r \<noteq> 0 \<Longrightarrow> r AND - r = push_bit (ffs_long r) 1"
proof -
  assume r: "r \<noteq> 0"
  define q where "q = drop_bit (ffs_long r) r"
  have rq: "r = push_bit (ffs_long r) q" using push_ffs_drop [OF r] by (simp add: q_def)
  have "odd q" using ffs_long_dvd [OF r] odd_unat by (auto simp: q_def)
  have "- r = push_bit (ffs_long r) (- q)" by (subst rq) (simp add: push_bit_eq_mult)
  then have "r AND - r = push_bit (ffs_long r) (q AND - q)" by (metis rq push_bit_and)
  then show ?thesis using odd_and_minus [OF \<open>odd q\<close>] by simp
qed

lemma gcd_pow2_odd: "odd (b :: nat) \<Longrightarrow> gcd (2 ^ k * x) b = gcd x b"
  by (intro gcd_mult_left_left_cancel) (simp add: coprime_commute)

lemma gcd_odd_diff:
  assumes "odd (b :: nat)" and "b < a" and "a - b = 2 ^ k * x"
  shows "gcd x b = gcd a b"
  using assms gcd_pow2_odd [of b k x] gcd_diff1_nat [of b a] by simp

text \<open>One round: the difference of the two odd numbers keeps their greatest common divisor.\<close>

lemma ffs_diff:
  assumes "b < (a :: u64)" and "odd (unat b)"
  shows "unat (a - b) = unat a - unat b" and "a - b \<noteq> 0"
    and "gcd (unat (drop_bit (ffs_long (a - b)) (a - b))) (unat b) = gcd (unat a) (unat b)"
proof -
  have lt: "unat b < unat a" using assms(1) by (simp add: word_less_nat_alt)
  show u: "unat (a - b) = unat a - unat b" using assms(1) by (simp add: unat_sub)
  show ne: "a - b \<noteq> 0" using u lt by (metis unat_0 zero_less_diff less_irrefl)
  show "gcd (unat (drop_bit (ffs_long (a - b)) (a - b))) (unat b) = gcd (unat a) (unat b)"
    by (rule gcd_odd_diff [OF assms(2) lt, where k = "ffs_long (a - b)"]) (use ffs_long_dvd [OF ne] in \<open>simp flip: u\<close>)
qed

lemma gcd_loop_gcd:
  assumes "a \<noteq> 0" and "odd (unat b)" and "r \<noteq> 0"
  shows "gcd_loop a b r = Some (of_nat (2 ^ ffs_long r * gcd (unat (drop_bit (ffs_long a) a)) (unat b)))"
  using assms(1,2)
proof (induction "unat a + unat b" arbitrary: a b rule: less_induct)
  case less
  define a1 where "a1 = drop_bit (ffs_long a) a"
  have a1: "unat a = 2 ^ ffs_long a * unat a1" "odd (unat a1)" using ffs_long_dvd [OF less.prems(1)] by (simp_all add: a1_def)
  then have le: "unat a1 \<le> unat a" and a1_pos: "0 < unat a1" by (auto intro: odd_pos)
  have b_pos: "0 < unat b" using less.prems(2) by (rule odd_pos)
  note unfold = gcd_loop.simps [of a b r, folded a1_def]
  consider "a1 = 1" | "a1 \<noteq> 1" "a1 = b" | "a1 \<noteq> 1" "a1 < b" | "a1 \<noteq> 1" "b < a1" by fastforce
  then have "gcd_loop a b r = Some (of_nat (2 ^ ffs_long r * gcd (unat a1) (unat b)))"
  proof cases
    case 1
    then show ?thesis using lowest_bit [OF assms(3)] by (simp add: unfold push_bit_eq_mult)
  next
    case 2
    then show ?thesis by (simp add: unfold push_bit_eq_mult mult.commute)
  next
    case 3
    note d = ffs_diff [OF 3(2) a1(2)]
    have "unat (b - a1) + unat a1 < unat a + unat b" using d(1) a1_pos le 3(2) by (simp add: word_less_nat_alt)
    then show ?thesis using less.hyps [OF _ d(2) a1(2)] d(3) 3 less_imp_neq [OF 3(2)] by (simp add: unfold gcd.commute)
  next
    case 4
    note d = ffs_diff [OF 4(2) less.prems(2)]
    have "unat (a1 - b) + unat b < unat a + unat b" using d(1) b_pos le 4(2) by (simp add: word_less_nat_alt)
    then show ?thesis using less.hyps [OF _ d(2) less.prems(2)] d(3) 4 less_imp_neq [OF 4(2)] leD [OF less_imp_le [OF 4(2)]]
      by (simp add: unfold)
  qed
  then show ?case by (simp only: a1_def)
qed

lemma or_nonzero: "a \<noteq> 0 \<Longrightarrow> a OR b \<noteq> (0 :: u64)"
proof -
  assume "a \<noteq> 0"
  then have "bit (a OR b) (ffs_long a)" using ffs_long_spec [of a] by (simp add: bit_or_iff)
  then show ?thesis by auto
qed

lemma ffs_long_or:
  assumes "a \<noteq> 0" and "b \<noteq> 0"
  shows "ffs_long (a OR b) = min (ffs_long a) (ffs_long b)"
proof -
  have ne: "a OR b \<noteq> 0" using or_nonzero [OF assms(1)] .
  note s = ffs_long_spec [OF assms(1)] ffs_long_spec [OF assms(2)] ffs_long_spec [OF ne]
  have "bit (a OR b) (min (ffs_long a) (ffs_long b))" using s(1,2) by (simp add: bit_or_iff min_def)
  then have "ffs_long (a OR b) \<le> min (ffs_long a) (ffs_long b)" using s(3) by (meson not_le)
  moreover have "\<not> ffs_long (a OR b) < min (ffs_long a) (ffs_long b)" using s by (auto simp: bit_or_iff)
  ultimately show ?thesis by linarith
qed

lemma gcd_split_pow2:
  assumes "odd (x :: nat)" and "odd y"
  shows "gcd (2 ^ i * x) (2 ^ j * y) = 2 ^ min i j * gcd x y"
proof (cases "i \<le> j")
  case True
  have "2 ^ j * y = 2 ^ i * (2 ^ (j - i) * y)" using True by (simp flip: power_add mult.assoc)
  then have "gcd (2 ^ i * x) (2 ^ j * y) = 2 ^ i * gcd x (2 ^ (j - i) * y)" by (simp only: gcd_mult_distrib_nat)
  then show ?thesis using True gcd_pow2_odd [OF assms(1)] by (simp add: gcd.commute min_def)
next
  case False
  have "2 ^ i * x = 2 ^ j * (2 ^ (i - j) * x)" using False by (simp flip: power_add mult.assoc)
  then have "gcd (2 ^ i * x) (2 ^ j * y) = 2 ^ j * gcd (2 ^ (i - j) * x) y" by (simp only: gcd_mult_distrib_nat)
  then show ?thesis using False gcd_pow2_odd [OF assms(2)] by (simp add: min_def)
qed

lemma gcd_long_gcd: "gcd_long a b = Some (of_nat (gcd (unat a) (unat b)))"
proof (cases "a = 0 \<or> b = 0")
  case True
  then show ?thesis by (auto simp: gcd_long_def)
next
  case False
  define r where "r = a OR b"
  define b1 where "b1 = drop_bit (ffs_long b) b"
  have r: "r \<noteq> 0" using False or_nonzero [of a b] by (simp add: r_def)
  have A: "unat a = 2 ^ ffs_long a * unat (drop_bit (ffs_long a) a)" "odd (unat (drop_bit (ffs_long a) a))"
    using ffs_long_dvd [of a] False by simp_all
  have B: "unat b = 2 ^ ffs_long b * unat b1" "odd (unat b1)" using ffs_long_dvd [of b] False by (simp_all add: b1_def)
  have g: "gcd (unat a) (unat b) = 2 ^ ffs_long r * gcd (unat (drop_bit (ffs_long a) a)) (unat b1)"
    using gcd_split_pow2 [OF A(2) B(2)] A(1) B(1) ffs_long_or False by (simp add: r_def)
  show ?thesis
  proof (cases "b1 = 1")
    case True
    then show ?thesis using False g lowest_bit [OF r]
      by (simp add: gcd_long_def Let_def push_bit_eq_mult flip: r_def b1_def)
  next
    case b1: False
    show ?thesis unfolding g using False b1 gcd_loop_gcd [OF _ B(2) r, of a]
      by (simp add: gcd_long_def Let_def flip: r_def b1_def)
  qed
qed

lemma lcm_long_lcm: "lcm_long a b = Some (of_nat (lcm (unat a) (unat b)))"
proof (cases "a = 0 \<or> b = 0")
  case False
  define g where "g = gcd (unat a) (unat b)"
  have "g \<le> unat a" using False by (auto simp: g_def unat_eq_zero intro!: gcd_le1_nat)
  then have "g < 2 ^ LENGTH(64)" using unsigned_less [of a] by (rule le_less_trans)
  then have ug: "unat (of_nat g :: u64) = g" by (simp add: unsigned_of_nat take_bit_nat_eq_self)
  have "unat (a div of_nat g) = unat a div g" by (simp add: unat_div ug)
  then have "a div of_nat g * b = of_nat (unat a div g * unat b)" by (metis of_nat_mult of_nat_unat ucast_id)
  moreover have "unat a div g * unat b = lcm (unat a) (unat b)"
    by (simp add: lcm_nat_def g_def dvd_div_mult div_mult_swap mult.commute)
  ultimately show ?thesis using False by (simp add: lcm_long_def gcd_long_gcd flip: g_def)
qed (auto simp: lcm_long_def)

section \<open>Division\<close>

lemma unat_ucast_up: "LENGTH('a :: len) \<le> LENGTH('b :: len) \<Longrightarrow> unat (ucast (w :: 'a word) :: 'b word) = unat w"
  by (simp add: unsigned_ucast_eq take_bit_nat_eq_self_iff) (meson le_less_trans less_le_trans one_le_numeral order_refl power_increasing unsigned_less)

lemma iter_div_loop_div:
  assumes "divisor \<noteq> 0"
  shows "iter_div_loop dividend divisor ret =
    Some (ret + of_nat (unat dividend div unat divisor), of_nat (unat dividend mod unat divisor))"
proof (induction "unat dividend" arbitrary: dividend ret rule: less_induct)
  case less
  have pos: "0 < unat divisor" using assms by (simp add: unat_gt_0)
  have u: "unat (ucast divisor :: u64) = unat divisor" by (rule unat_ucast_up) simp
  show ?case
  proof (cases "ucast divisor \<le> dividend")
    case True
    then have sub: "unat (dividend - ucast divisor) = unat dividend - unat divisor" and le: "unat divisor \<le> unat dividend"
      using u by (simp_all add: unat_sub word_le_nat_alt)
    have "unat (dividend - ucast divisor) < unat dividend" using sub le pos by simp
    from less.hyps [OF this] have
      "iter_div_loop dividend divisor ret = Some (ret + 1 + of_nat ((unat dividend - unat divisor) div unat divisor),
         of_nat ((unat dividend - unat divisor) mod unat divisor))"
      using True sub by (simp add: iter_div_loop.simps [of dividend])
    moreover have "unat dividend div unat divisor = Suc ((unat dividend - unat divisor) div unat divisor)"
      using le pos by (simp add: le_div_geq)
    moreover have "unat dividend mod unat divisor = (unat dividend - unat divisor) mod unat divisor"
      using le by (simp add: le_mod_geq)
    ultimately show ?thesis by (simp add: add.assoc)
  next
    case False
    then have "unat dividend < unat divisor" using u by (simp add: word_le_nat_alt not_le)
    then show ?thesis using False by (simp add: iter_div_loop.simps [of dividend])
  qed
qed

text \<open>The multiplier: rounding \<open>2 ^ (n + l) / d\<close> up by less than \<open>2 ^ l / d\<close> leaves every quotient of an \<open>n\<close>-bit number exact.\<close>

lemma magic_multiplier:
  fixes a d q l n :: nat
  assumes "0 < d" and "a < 2 ^ n" and "2 ^ (n + l) \<le> q * d" and "q * d \<le> 2 ^ (n + l) + 2 ^ l"
  shows "(a * q) div 2 ^ (n + l) = a div d"
proof (rule div_nat_eqI)
  have "a div d * 2 ^ (n + l) * d \<le> a * 2 ^ (n + l)" by (metis div_times_less_eq_dividend mult.assoc mult.commute mult_le_mono1)
  also have "\<dots> \<le> a * (q * d)" using assms(3) by simp
  finally have "2 ^ (n + l) * (a div d) * d \<le> a * q * d" by (simp add: ac_simps)
  then show "2 ^ (n + l) * (a div d) \<le> a * q" using assms(1) by simp
  have "a * q * d \<le> a * (2 ^ (n + l) + 2 ^ l)" using mult_le_mono2 [OF assms(4), of a] by (simp add: ac_simps)
  also have "\<dots> = a * 2 ^ (n + l) + a * 2 ^ l" by (simp add: distrib_left)
  also have "\<dots> < a * 2 ^ (n + l) + 2 ^ (n + l)" using assms(2) by (simp add: power_add)
  also have "\<dots> = (a + 1) * 2 ^ (n + l)" by simp
  also have "\<dots> \<le> (Suc (a div d) * d) * 2 ^ (n + l)"
    using dividend_less_div_times [OF assms(1), of a] by (intro mult_le_mono1) simp
  finally have "a * q * d < 2 ^ (n + l) * Suc (a div d) * d" by (simp only: ac_simps)
  then show "a * q < 2 ^ (n + l) * Suc (a div d)" by simp
qed

text \<open>The values \<^verbatim>\<open>reciprocal_value\<close> computes, without words.\<close>

lemma divisor_log:
  assumes "d \<noteq> 0"
  shows "unat d \<le> 2 ^ fls (d - 1) \<and> fls (d - 1) \<le> 32 \<and> (if d = 1 then fls (d - 1) = 0 else 1 \<le> fls (d - 1) \<and> 2 ^ (fls (d - 1) - 1) < unat d)"
proof (cases "d = 1")
  case True
  then show ?thesis by (simp add: fls_def)
next
  case False
  have u: "unat (d - 1) = unat d - 1" using assms by (simp add: unat_minus_one)
  have ne: "d - 1 \<noteq> 0" using False by simp
  have "0 < unat d" using assms by (simp add: unat_gt_0)
  then show ?thesis using fls_bounds [OF ne] u False by auto
qed

lemma reciprocal_m:
  assumes "d \<noteq> 0"
  shows "unat (rv_m (reciprocal_value d)) = 2 ^ 32 * (2 ^ fls (d - 1) - unat d) div unat d + 1"
proof -
  define l where "l = fls (d - 1)"
  define D where "D = unat d"
  have D: "0 < D" "D < 2 ^ 32" using assms unsigned_less [of d] by (simp_all add: D_def unat_gt_0)
  note dl = divisor_log [OF assms, folded l_def D_def]
  have l: "D \<le> 2 ^ l" "l \<le> 32" using dl by blast+
  have l2: "2 ^ l < 2 * D"
  proof (cases l)
    case 0
    then show ?thesis using D(1) by simp
  next
    case (Suc k)
    then have "2 ^ k < D" using dl by (simp split: if_splits)
    then show ?thesis using Suc by simp
  qed
  have uD: "unat (ucast d :: u64) = D" unfolding D_def by (rule unat_ucast_up) simp
  have "l < 64" using l(2) by simp
  then have "unat (of_nat (2 ^ l) :: u64) = 2 ^ l" by (simp only: unsigned_of_nat) (simp add: take_bit_nat_eq_self)
  then have pl: "unat (push_bit l 1 :: u64) = 2 ^ l" by (simp add: push_bit_eq_mult)
  define x :: u64 where "x = push_bit l 1 - ucast d"
  have diff: "unat x = 2 ^ l - D" using l(1) pl uD by (simp add: x_def unat_sub word_le_nat_alt)
  have lt: "2 ^ l - D < 2 ^ 32" using l2 D by simp
  then have m0: "unat (push_bit 32 1 * x :: u64) = 2 ^ 32 * (2 ^ l - D)"
    using diff by (simp add: unat_word_ariths push_bit_eq_mult)
  have "2 ^ 32 * (2 ^ l - D) \<le> 2 ^ 32 * (D - 1)" using l2 by (intro mult_le_mono2) simp
  also have "\<dots> < (2 ^ 32 - 1) * D" using D by (simp add: diff_mult_distrib diff_mult_distrib2)
  finally have q: "2 ^ 32 * (2 ^ l - D) div D < 2 ^ 32 - 1" using D(1) by (simp add: div_less_iff_less_mult)
  have "unat ((push_bit 32 1 * x) div ucast d) = 2 ^ 32 * (2 ^ l - D) div D"
    by (simp only: unat_div m0 uD)
  then have m1: "unat ((push_bit 32 1 * x) div ucast d + 1) = 2 ^ 32 * (2 ^ l - D) div D + 1"
    using q by (simp add: unat_word_ariths)
  have rv: "rv_m (reciprocal_value d) = ucast ((push_bit 32 1 * x) div ucast d + 1)"
    by (simp only: reciprocal_value_def Let_def l_def x_def reciprocal.simps)
  have "unat (ucast w :: u32) = unat w" if "unat (w :: u64) < 2 ^ 32" for w
    using that by (simp add: unsigned_ucast_eq take_bit_nat_eq_self_iff)
  then show ?thesis unfolding rv l_def [symmetric] D_def [symmetric] using m1 q by simp
qed

lemma reciprocal_quotient:
  assumes "0 < D" and "D \<le> 2 ^ l" and "A < 2 ^ 32" and "T = A * (2 ^ 32 * (2 ^ l - D) div D + 1) div 2 ^ 32"
  shows "(A + T) div 2 ^ l = A div (D :: nat)"
proof -
  define X where "X = 2 ^ 32 * (2 ^ l - D)"
  define q where "q = 2 ^ 32 + (X div D + 1)"
  have "X = D * (X div D) + X mod D" by simp
  then have qD: "q * D + X mod D = 2 ^ 32 * D + X + D" unfolding q_def by (simp add: algebra_simps)
  have "2 ^ 32 * D + X = 2 ^ (32 + l)" using assms(2) by (simp add: X_def power_add algebra_simps diff_mult_distrib2)
  then have qD2: "q * D + X mod D = 2 ^ (32 + l) + D" using qD by simp
  have "X mod D < D" using assms(1) by simp
  then have "(A * q) div 2 ^ (32 + l) = A div D"
    using qD2 assms by (intro magic_multiplier) linarith+
  moreover have "A + T = (A * q) div 2 ^ 32"
    unfolding assms(4) q_def X_def [symmetric] by (simp add: distrib_left mult.commute [of A])
  ultimately show ?thesis by (simp only: power_add div_mult2_eq)
qed

lemma reciprocal_t:
  assumes "unat m < 2 ^ 32"
  shows "unat (ucast (drop_bit 32 (ucast (a :: u32) * ucast (m :: u32) :: u64)) :: u32) = unat a * unat m div 2 ^ 32"
proof -
  have A: "unat a < 2 ^ 32" using unsigned_less [of a] by simp
  have "unat a * unat m < 2 ^ 32 * 2 ^ 32" using A assms by (intro mult_strict_mono) simp_all
  moreover have "unat (ucast a :: u64) = unat a" "unat (ucast m :: u64) = unat m" by (rule unat_ucast_up, simp)+
  ultimately have p: "unat (ucast a * ucast m :: u64) = unat a * unat m" by (simp add: unat_word_ariths)
  have "unat (drop_bit 32 (ucast a * ucast m :: u64)) = unat a * unat m div 2 ^ 32" by (simp only: unat_drop_bit p)
  moreover have "unat a * unat m div 2 ^ 32 < 2 ^ 32"
    using \<open>unat a * unat m < 2 ^ 32 * 2 ^ 32\<close> by (intro div_less_iff_less_mult [THEN iffD2]) simp_all
  ultimately show ?thesis by (simp add: unsigned_ucast_eq take_bit_nat_eq_self)
qed

lemma reciprocal_divide_div:
  assumes "d \<noteq> 0"
  shows "reciprocal_divide a (reciprocal_value d) = a div d"
proof (cases "d = 1")
  case True
  then show ?thesis by (simp add: reciprocal_divide_def reciprocal_value_def fls_def)
next
  case False
  define l where "l = fls (d - 1)"
  define M where "M = rv_m (reciprocal_value d)"
  define t :: u32 where "t = ucast (drop_bit 32 (ucast a * ucast M :: u64))"
  have dl: "unat d \<le> 2 ^ l" "1 \<le> l" using divisor_log [OF assms] False by (simp_all add: l_def)
  have M: "unat M = 2 ^ 32 * (2 ^ l - unat d) div unat d + 1" using reciprocal_m [OF assms] by (simp add: M_def l_def)
  have M32: "unat M < 2 ^ 32" using unsigned_less [of M] by simp
  have T: "unat t = unat a * unat M div 2 ^ 32" unfolding t_def by (rule reciprocal_t [OF M32])
  have "unat a * unat M \<le> unat a * 2 ^ 32" using M32 by (intro mult_le_mono2) simp
  then have le: "unat t \<le> unat a" unfolding T by (metis div_le_mono nonzero_mult_div_cancel_right power_not_zero zero_neq_numeral)
  have h: "unat (drop_bit 1 (a - t)) = (unat a - unat t) div 2"
    using le by (simp only: unat_drop_bit unat_sub word_le_nat_alt) simp
  have "unat t + (unat a - unat t) div 2 \<le> unat a" using le by simp
  then have "unat t + (unat a - unat t) div 2 < 2 ^ LENGTH(32)" using unsigned_less [of a] by (rule le_less_trans)
  then have s: "unat (t + drop_bit 1 (a - t)) = unat t + (unat a - unat t) div 2"
    by (simp only: unat_word_ariths h) simp
  also have "\<dots> = (unat a + unat t) div 2" using le by linarith
  finally have s2: "unat (t + drop_bit 1 (a - t)) = (unat a + unat t) div 2" .
  have "unat (drop_bit (l - 1) (t + drop_bit 1 (a - t))) = (unat a + unat t) div 2 div 2 ^ (l - 1)"
    by (simp only: unat_drop_bit s2)
  also have "\<dots> = (unat a + unat t) div 2 ^ l" using dl(2) by (simp flip: div_mult2_eq power_Suc)
  also have "\<dots> = unat a div unat d"
    using assms dl(1) unsigned_less [of a] T M by (intro reciprocal_quotient) (simp_all add: unat_gt_0)
  also have "\<dots> = unat (a div d)" by (simp add: unat_div)
  finally have "drop_bit (l - 1) (t + drop_bit 1 (a - t)) = a div d" by (simp only: word_unat_eq_iff)
  moreover have "sh1 (reciprocal_value d) = 1" "sh2 (reciprocal_value d) = l - 1"
    using dl(2) by (simp_all add: reciprocal_value_def Let_def l_def)
  ultimately show ?thesis by (simp only: reciprocal_divide_def Let_def flip: M_def t_def)
qed

text \<open>The product: nothing is lost unless precision is dropped.\<close>

lemma ilog2_bounds: "n \<noteq> 0 \<Longrightarrow> ilog2 n = int (fls_long n) \<and> 2 ^ fls_long n \<le> unat n \<and> unat n < 2 ^ Suc (fls_long n)"
  using fls_long_bounds [of n] by (simp add: ilog2_def fls64_def)

lemma ilog2_product: "ilog2 a + ilog2 b \<le> 62 \<Longrightarrow> unat a * unat b < 2 ^ 64"
proof (cases "a = 0 \<or> b = 0")
  case False
  assume "ilog2 a + ilog2 b \<le> 62"
  then have e: "Suc (fls_long a) + Suc (fls_long b) \<le> 64" using ilog2_bounds [of a] ilog2_bounds [of b] False by simp
  have "unat a * unat b < 2 ^ Suc (fls_long a) * 2 ^ Suc (fls_long b)"
    using ilog2_bounds [of a] ilog2_bounds [of b] False by (intro mult_strict_mono) simp_all
  also have "\<dots> = 2 ^ (Suc (fls_long a) + Suc (fls_long b))" by (simp only: power_add)
  also have "\<dots> \<le> 2 ^ 64" using e by (rule power_increasing) simp
  finally show ?thesis .
qed auto

lemma product_ilog2: "unat a * unat b < 2 ^ 63 \<Longrightarrow> ilog2 a + ilog2 b \<le> 62"
proof (cases "a = 0 \<or> b = 0")
  case True
  then show ?thesis using ilog2_bounds [of a] ilog2_bounds [of b] fls_long_bounds [of a] fls_long_bounds [of b]
    by (cases "a = 0"; cases "b = 0") (simp_all add: ilog2_def fls64_def)
next
  case False
  assume lt: "unat a * unat b < 2 ^ 63"
  have "2 ^ (fls_long a + fls_long b) \<le> unat a * unat b"
    unfolding power_add using ilog2_bounds [of a] ilog2_bounds [of b] False by (intro mult_le_mono) simp_all
  then have "(2 :: nat) ^ (fls_long a + fls_long b) < 2 ^ 63" using lt by (rule le_less_trans)
  then have "fls_long a + fls_long b < 63" by (rule power_less_imp_less_exp [rotated]) simp
  then show ?thesis using ilog2_bounds [of a] ilog2_bounds [of b] False by simp
qed

lemma word_mult_div:
  assumes "unat a * unat b < 2 ^ 64"
  shows "(a * b) div c = (of_nat (unat a * unat b div unat c) :: u64)"
proof -
  have "unat (a * b) = unat a * unat b" using assms by (simp add: unat_word_ariths)
  then have "unat ((a * b) div c) = unat a * unat b div unat c" by (simp add: unat_div)
  then show ?thesis by (metis of_nat_unat ucast_id)
qed

lemma mul_u64_u64_div_u64_exact:
  assumes "unat a * (unat b mod unat c) < 2 ^ 63" and "c \<noteq> 0"
  shows "mul_u64_u64_div_u64 a b c = of_nat (unat a * unat b div unat c)"
proof (cases "ilog2 a + ilog2 b > 62")
  case False
  then show ?thesis using word_mult_div [of a b c] ilog2_product [of a b] by (simp add: mul_u64_u64_div_u64_def)
next
  case True
  have m: "unat (b mod c) = unat b mod unat c" by (simp add: unat_mod)
  then have s: "ilog2 a + ilog2 (b mod c) - 62 \<le> 0" using product_ilog2 [of a "b mod c"] assms(1) by simp
  have "b div c * a = of_nat (unat b div unat c * unat a)" by (metis of_nat_mult of_nat_unat ucast_id unat_div)
  moreover have "(a * (b mod c)) div c = of_nat (unat a * (unat b mod unat c) div unat c)"
    using word_mult_div [of a "b mod c" c] assms(1) by (simp add: m)
  ultimately have "mul_u64_u64_div_u64 a b c =
      of_nat (unat b div unat c * unat a + unat a * (unat b mod unat c) div unat c)"
    using True s by (simp add: mul_u64_u64_div_u64_def Let_def)
  also have "unat b div unat c * unat a + unat a * (unat b mod unat c) div unat c = unat a * unat b div unat c"
  proof -
    have "0 < unat c" using assms(2) by (simp add: unat_gt_0)
    moreover have "unat a * unat b = unat a * (unat b mod unat c) + unat c * (unat b div unat c * unat a)"
      by (metis (no_types, opaque_lifting) distrib_left mod_mult_div_eq mult.assoc mult.commute)
    ultimately show ?thesis by simp
  qed
  finally show ?thesis .
qed

section \<open>Properties\<close>

text \<open>(C26) The binary \<^verbatim>\<open>gcd\<close> returns for all arguments, with the greatest common divisor; \<^verbatim>\<open>lcm\<close> gives the least common
  multiple, reduced to 64 bits.\<close>

theorem gcd_lcm_correct:
  "gcd_long a b = Some (of_nat (gcd (unat a) (unat b))) \<and> lcm_long a b = Some (of_nat (lcm (unat a) (unat b)))"
  by (simp only: gcd_long_gcd lcm_long_lcm)

text \<open>(C27) Division by a precomputed reciprocal is division: for every 32-bit dividend and every divisor but 0,
  \<^verbatim>\<open>reciprocal_divide\<close> with the multiplier and the shifts of \<^verbatim>\<open>reciprocal_value\<close> gives the exact quotient.\<close>

theorem reciprocal_divide_exact:
  assumes "d \<noteq> 0"
  shows "reciprocal_divide a (reciprocal_value d) = a div d"
  by (rule reciprocal_divide_div [OF assms])

theorem reciprocal_divide_exact_witness: "reciprocal_divide 0xffffffff (reciprocal_value 7) = 0x24924924"
  using reciprocal_divide_exact [of 7 "0xffffffff"] by simp



end
