(* ===== verification/Sort.thy ===== *)
theory Sort imports Kstring_Spec Kmath "HOL-Library.Multiset" begin

text \<open>
  The heap sort of \<^verbatim>\<open>lib/src/sort.c\<close> and the binary search of \<^verbatim>\<open>include/linux/bsearch.h\<close>, on byte memory.  Elements
  are blocks of \<^verbatim>\<open>size\<close> bytes and positions are byte offsets, as in the code.  A comparison function is a
  parameter that sees the bytes of the two elements; a swap function of the caller is a parameter as well.
  The loops are partial functions: \<open>None\<close> means running for ever or out of the elements.
\<close>

section \<open>Operations\<close>

subsection \<open>Swapping\<close>

definition elem :: "mem \<Rightarrow> nat \<Rightarrow> nat \<Rightarrow> u8 list" where
  "elem m p sz = map (\<lambda>i. m (p + i)) [0..<sz]"

definition is_aligned :: "nat \<Rightarrow> nat \<Rightarrow> u8 \<Rightarrow> bool" where
  "is_aligned base sz align = ((of_nat sz OR of_nat base) AND (align - 1) = 0)"

definition swap_word :: "nat \<Rightarrow> mem \<Rightarrow> nat \<Rightarrow> nat \<Rightarrow> mem" where
  "swap_word w m a b = (let t = load_le m a w; m1 = store_le m a (load_le m b w) w in store_le m1 b t w)"

fun swap_words_32 :: "mem \<Rightarrow> nat \<Rightarrow> nat \<Rightarrow> nat \<Rightarrow> mem option" where
  "swap_words_32 m a b n =
     (if n < 4 then None
      else let n' = n - 4; m' = swap_word 4 m (a + n') (b + n')
           in if n' \<noteq> 0 then swap_words_32 m' a b n' else Some m')"

fun swap_words_64 :: "mem \<Rightarrow> nat \<Rightarrow> nat \<Rightarrow> nat \<Rightarrow> mem option" where
  "swap_words_64 m a b n =
     (if n < 8 then None
      else let n' = n - 8; m' = swap_word 8 m (a + n') (b + n')
           in if n' \<noteq> 0 then swap_words_64 m' a b n' else Some m')"

fun swap_bytes :: "mem \<Rightarrow> nat \<Rightarrow> nat \<Rightarrow> nat \<Rightarrow> mem option" where
  "swap_bytes m a b n =
     (if n < 1 then None
      else let n' = n - 1; t = m (a + n'); m1 = m(a + n' := m (b + n')); m' = m1(b + n' := t)
           in if n' \<noteq> 0 then swap_bytes m' a b n' else Some m')"

declare swap_words_32.simps [simp del] swap_words_64.simps [simp del] swap_bytes.simps [simp del]

datatype swap_func = SWAP_WORDS_64 | SWAP_WORDS_32 | SWAP_BYTES | Swap_func "mem \<Rightarrow> nat \<Rightarrow> nat \<Rightarrow> nat \<Rightarrow> mem"

definition do_swap :: "mem \<Rightarrow> nat \<Rightarrow> nat \<Rightarrow> nat \<Rightarrow> swap_func \<Rightarrow> mem option" where
  "do_swap m a b sz f =
     (case f of
        SWAP_WORDS_64 \<Rightarrow> swap_words_64 m a b sz
      | SWAP_WORDS_32 \<Rightarrow> swap_words_32 m a b sz
      | SWAP_BYTES \<Rightarrow> swap_bytes m a b sz
      | Swap_func g \<Rightarrow> Some (g m a b sz))"

subsection \<open>Sorting\<close>

text \<open>A comparison function of two arguments, or of three with its private argument.\<close>

datatype 'p cmp_func = Cmp_func "u8 list \<Rightarrow> u8 list \<Rightarrow> int" | Cmp_r_func "u8 list \<Rightarrow> u8 list \<Rightarrow> 'p \<Rightarrow> int" 'p

definition do_cmp :: "mem \<Rightarrow> nat \<Rightarrow> nat \<Rightarrow> nat \<Rightarrow> 'p cmp_func \<Rightarrow> int" where
  "do_cmp m a b sz cmp =
     (case cmp of
        Cmp_func f \<Rightarrow> f (elem m a sz) (elem m b sz)
      | Cmp_r_func f priv \<Rightarrow> f (elem m a sz) (elem m b sz) priv)"

definition parent :: "u64 \<Rightarrow> u32 \<Rightarrow> u64 \<Rightarrow> u64" where
  "parent i lsbit sz = (let i = i - sz; i = i - (sz AND - (i AND ucast lsbit)) in i div 2)"

definition parent_off :: "nat \<Rightarrow> nat \<Rightarrow> nat" where
  "parent_off sz i = unat (parent (of_nat i) (ucast (of_nat sz AND - of_nat sz :: u64)) (of_nat sz))"

partial_function (option) sift_leaf :: "mem \<Rightarrow> nat \<Rightarrow> nat \<Rightarrow> 'p cmp_func \<Rightarrow> nat \<Rightarrow> nat \<Rightarrow> nat option" where
  "sift_leaf m base sz cmp n b =
     (let c = 2 * b + sz; d = c + sz
      in if d < n then sift_leaf m base sz cmp n (if 0 \<le> do_cmp m (base + c) (base + d) sz cmp then c else d)
         else Some (if d = n then c else b))"

partial_function (option) sift_back :: "mem \<Rightarrow> nat \<Rightarrow> nat \<Rightarrow> 'p cmp_func \<Rightarrow> nat \<Rightarrow> nat \<Rightarrow> nat option" where
  "sift_back m base sz cmp a b =
     (if b \<noteq> a \<and> 0 \<le> do_cmp m (base + a) (base + b) sz cmp then sift_back m base sz cmp a (parent_off sz b) else Some b)"

partial_function (option) sift_shift :: "nat \<Rightarrow> nat \<Rightarrow> swap_func \<Rightarrow> nat \<Rightarrow> nat \<Rightarrow> mem \<Rightarrow> nat \<Rightarrow> mem option" where
  "sift_shift base sz swap a c m b =
     (if b \<noteq> a then
        Option.bind (do_swap m (base + parent_off sz b) (base + c) sz swap)
          (\<lambda>m'. sift_shift base sz swap a c m' (parent_off sz b))
      else Some m)"

definition sift_down :: "mem \<Rightarrow> nat \<Rightarrow> nat \<Rightarrow> 'p cmp_func \<Rightarrow> swap_func \<Rightarrow> nat \<Rightarrow> nat \<Rightarrow> mem option" where
  "sift_down m base sz cmp swap n a =
     Option.bind (sift_leaf m base sz cmp n a) (\<lambda>b.
     Option.bind (sift_back m base sz cmp a b) (\<lambda>c. sift_shift base sz swap a c m c))"

partial_function (option) sort_loop :: "nat \<Rightarrow> nat \<Rightarrow> 'p cmp_func \<Rightarrow> swap_func \<Rightarrow> mem \<Rightarrow> nat \<Rightarrow> nat \<Rightarrow> mem option" where
  "sort_loop base sz cmp swap m a n =
     (if a \<noteq> 0 then
        Option.bind (sift_down m base sz cmp swap n (a - sz)) (\<lambda>m'. sort_loop base sz cmp swap m' (a - sz) n)
      else if n - sz \<noteq> 0 then
        Option.bind (do_swap m base (base + (n - sz)) sz swap) (\<lambda>m1.
        Option.bind (sift_down m1 base sz cmp swap (n - sz) 0) (\<lambda>m'. sort_loop base sz cmp swap m' 0 (n - sz)))
      else Some m)"

definition choose_swap :: "nat \<Rightarrow> nat \<Rightarrow> swap_func" where
  "choose_swap base sz = (if is_aligned base sz 8 then SWAP_WORDS_64 else if is_aligned base sz 4 then SWAP_WORDS_32 else SWAP_BYTES)"

definition sort_r :: "mem \<Rightarrow> nat \<Rightarrow> nat \<Rightarrow> nat \<Rightarrow> 'p cmp_func \<Rightarrow> (mem \<Rightarrow> nat \<Rightarrow> nat \<Rightarrow> nat \<Rightarrow> mem) option \<Rightarrow> mem option" where
  "sort_r m base num sz cmp swap =
     (let n = num * sz; a = (num div 2) * sz
      in if a = 0 then Some m
         else sort_loop base sz cmp (case swap of None \<Rightarrow> choose_swap base sz | Some g \<Rightarrow> Swap_func g) m a n)"

definition sort_mem :: "mem \<Rightarrow> nat \<Rightarrow> nat \<Rightarrow> nat \<Rightarrow> (u8 list \<Rightarrow> u8 list \<Rightarrow> int) \<Rightarrow> (mem \<Rightarrow> nat \<Rightarrow> nat \<Rightarrow> nat \<Rightarrow> mem) option \<Rightarrow> mem option" where
  "sort_mem m base num sz cmp swap = sort_r m base num sz (Cmp_func cmp :: unit cmp_func) swap"

subsection \<open>Searching\<close>

text \<open>The key is passed to the comparison as it is; the result is the address of the element, \<open>None\<close> the null pointer.\<close>

fun bsearch :: "mem \<Rightarrow> 'k \<Rightarrow> nat \<Rightarrow> nat \<Rightarrow> nat \<Rightarrow> ('k \<Rightarrow> u8 list \<Rightarrow> int) \<Rightarrow> nat option" where
  "bsearch m key base num sz cmp =
     (if 0 < num then
        let pivot = base + (num div 2) * sz; result = cmp key (elem m pivot sz)
        in if result = 0 then Some pivot
           else if 0 < result then bsearch m key (pivot + sz) ((num - 1) div 2) sz cmp
           else bsearch m key base (num div 2) sz cmp
      else None)"

declare bsearch.simps [simp del]

section \<open>Swapping\<close>

text \<open>Two separate blocks of \<open>n\<close> bytes exchanged.\<close>

definition xpos :: "nat \<Rightarrow> nat \<Rightarrow> nat \<Rightarrow> nat \<Rightarrow> nat" where
  "xpos a b n x = (if a \<le> x \<and> x < a + n then b + (x - a) else if b \<le> x \<and> x < b + n then a + (x - b) else x)"

definition exchanged :: "mem \<Rightarrow> nat \<Rightarrow> nat \<Rightarrow> nat \<Rightarrow> mem" where
  "exchanged m a b n = (\<lambda>x. m (xpos a b n x))"

lemma load_le_parts:
  assumes "k \<le> 7"
  shows "ucast (load_le m p (Suc k)) = m p" and "drop_bit 8 (load_le m p (Suc k)) = load_le m (Suc p) k"
proof -
  show "ucast (load_le m p (Suc k)) = m p" by (rule bit_word_eqI) (auto simp: bit_simps)
  show "drop_bit 8 (load_le m p (Suc k)) = load_le m (Suc p) k"
  proof (rule bit_word_eqI)
    fix n assume n: "n < LENGTH(64)"
    have "n + 8 < 64" if b: "bit (load_le m (Suc p) k) n"
    proof -
      have "\<not> 8 * k \<le> n" using load_le_high b by blast
      then show ?thesis using assms by linarith
    qed
    then show "bit (drop_bit 8 (load_le m p (Suc k))) n \<longleftrightarrow> bit (load_le m (Suc p) k) n"
      by (auto simp: bit_simps dest: bit_imp_le_length)
  qed
qed

lemma store_load: "k \<le> 8 \<Longrightarrow> store_le m p (load_le m0 q k) k = (\<lambda>x. if p \<le> x \<and> x < p + k then m0 (q + (x - p)) else m x)"
proof (induction k arbitrary: m p q)
  case (Suc k)
  note parts = load_le_parts [of k m0 q]
  have "store_le m p (load_le m0 q (Suc k)) (Suc k) = store_le (m(p := m0 q)) (Suc p) (load_le m0 (Suc q) k) k"
    using Suc.prems parts by (simp only: store_le.simps)
  also have "\<dots> = (\<lambda>x. if p \<le> x \<and> x < p + Suc k then m0 (q + (x - p)) else m x)"
    unfolding Suc.IH [OF Suc_leD [OF Suc.prems]]
  proof (rule ext)
    fix x
    have "Suc q + (x - Suc p) = q + (x - p)" if "p < x" using that by arith
    then show "(if Suc p \<le> x \<and> x < Suc p + k then m0 (Suc q + (x - Suc p)) else (m(p := m0 q)) x) =
      (if p \<le> x \<and> x < p + Suc k then m0 (q + (x - p)) else m x)"
      by (cases "p < x") (auto simp: Suc_le_eq simp del: add_Suc)
  qed
  finally show ?case .
qed (auto simp: fun_eq_iff)

abbreviation apart :: "nat \<Rightarrow> nat \<Rightarrow> nat \<Rightarrow> bool" where
  "apart a b n \<equiv> a + n \<le> b \<or> b + n \<le> a"

lemma swap_word_exchanged:
  assumes "w \<le> 8" and "apart a b w"
  shows "swap_word w m a b = exchanged m a b w"
proof (rule ext)
  fix x
  have "swap_word w m a b x = (if b \<le> x \<and> x < b + w then m (a + (x - b)) else if a \<le> x \<and> x < a + w then m (b + (x - a)) else m x)"
    by (simp only: swap_word_def Let_def store_load [OF assms(1)])
  also have "\<dots> = exchanged m a b w x"
  proof (cases "b \<le> x \<and> x < b + w")
    case True
    then have "\<not> (a \<le> x \<and> x < a + w)" using assms(2) by linarith
    then show ?thesis using True by (simp only: exchanged_def xpos_def if_True if_False simp_thms)
  qed (simp only: exchanged_def xpos_def if_False if_distrib [of m])
  finally show "swap_word w m a b x = exchanged m a b w x" .
qed

lemma swap_byte_exchanged: "a \<noteq> b \<Longrightarrow> m(a := m b, b := m a) = exchanged m a b 1"
  by (rule ext) (auto simp: exchanged_def xpos_def less_Suc_eq_le)

lemma xpos_in_a: "a \<le> x \<Longrightarrow> x < a + n \<Longrightarrow> xpos a b n x = b + (x - a)"
  by (simp add: xpos_def)

lemma xpos_in_b: "apart a b n \<Longrightarrow> b \<le> x \<Longrightarrow> x < b + n \<Longrightarrow> xpos a b n x = a + (x - b)"
  by (auto simp: xpos_def)

lemma xpos_out: "\<not> (a \<le> x \<and> x < a + n) \<Longrightarrow> \<not> (b \<le> x \<and> x < b + n) \<Longrightarrow> xpos a b n x = x"
  by (simp only: xpos_def if_False)

lemma xpos_split:
  assumes "apart a b (k + w)"
  shows "xpos (a + k) (b + k) w (xpos a b k x) = xpos a b (k + w) x"
proof -
  consider "a \<le> x" "x < a + k" | "a + k \<le> x" "x < a + (k + w)" | "b \<le> x" "x < b + k" | "b + k \<le> x" "x < b + (k + w)"
    | "\<not> (a \<le> x \<and> x < a + (k + w))" "\<not> (b \<le> x \<and> x < b + (k + w))" by linarith
  then show ?thesis
  proof cases
    case 1
    then have "xpos a b k x = b + (x - a)" by (rule xpos_in_a)
    moreover have "xpos (a + k) (b + k) w (b + (x - a)) = b + (x - a)" by (rule xpos_out) (use 1 assms in linarith)+
    moreover have "xpos a b (k + w) x = b + (x - a)" by (rule xpos_in_a) (use 1 in linarith)+
    ultimately show ?thesis by simp
  next
    case 2
    have "xpos a b k x = x" by (rule xpos_out) (use 2 assms in linarith)+
    moreover have "xpos (a + k) (b + k) w x = b + k + (x - (a + k))" by (rule xpos_in_a) (use 2 in linarith)+
    moreover have "xpos a b (k + w) x = b + (x - a)" by (rule xpos_in_a) (use 2 in linarith)+
    ultimately show ?thesis using 2 by simp
  next
    case 3
    have "xpos a b k x = a + (x - b)" by (rule xpos_in_b) (use 3 assms in linarith)+
    moreover have "xpos (a + k) (b + k) w (a + (x - b)) = a + (x - b)" by (rule xpos_out) (use 3 assms in linarith)+
    moreover have "xpos a b (k + w) x = a + (x - b)" by (rule xpos_in_b [OF assms]) (use 3 in linarith)+
    ultimately show ?thesis by simp
  next
    case 4
    have "xpos a b k x = x" by (rule xpos_out) (use 4 assms in linarith)+
    moreover have "xpos (a + k) (b + k) w x = a + k + (x - (b + k))" by (rule xpos_in_b) (use 4 assms in linarith)+
    moreover have "xpos a b (k + w) x = a + (x - b)" by (rule xpos_in_b [OF assms]) (use 4 in linarith)+
    ultimately show ?thesis using 4 by simp
  next
    case 5
    have "xpos a b k x = x" by (rule xpos_out) (use 5 in linarith)+
    moreover have "xpos (a + k) (b + k) w x = x" by (rule xpos_out) (use 5 in linarith)+
    ultimately show ?thesis using xpos_out [OF 5] by simp
  qed
qed

lemma exchanged_split:
  "apart a b (k + w) \<Longrightarrow> exchanged (exchanged m (a + k) (b + k) w) a b k = exchanged m a b (k + w)"
  by (simp add: exchanged_def xpos_split)

lemma swap_words_32_times: "apart a b (4 * Suc q) \<Longrightarrow> swap_words_32 m a b (4 * Suc q) = Some (exchanged m a b (4 * Suc q))"
proof (induction q arbitrary: m)
  case 0
  then show ?case using swap_word_exchanged [of 4 a b m] by (simp add: swap_words_32.simps [of _ _ _ 4])
next
  case (Suc q)
  have eq: "4 * Suc (Suc q) - 4 = 4 * Suc q" "4 * Suc q + 4 = 4 * Suc (Suc q)" by simp_all
  have ap: "apart a b (4 * Suc q + 4)" using Suc.prems by (simp only: eq)
  have w: "swap_word 4 m (a + 4 * Suc q) (b + 4 * Suc q) = exchanged m (a + 4 * Suc q) (b + 4 * Suc q) 4"
    by (rule swap_word_exchanged) (use ap in auto)
  have "swap_words_32 m a b (4 * Suc (Suc q)) = swap_words_32 (exchanged m (a + 4 * Suc q) (b + 4 * Suc q) 4) a b (4 * Suc q)"
    by (subst swap_words_32.simps) (simp only: Let_def eq w, simp)
  also have "\<dots> = Some (exchanged (exchanged m (a + 4 * Suc q) (b + 4 * Suc q) 4) a b (4 * Suc q))"
    by (rule Suc.IH) (use ap in auto)
  finally show ?case by (simp only: exchanged_split [OF ap] eq)
qed

lemma swap_words_32_exchanged: "4 dvd n \<Longrightarrow> 0 < n \<Longrightarrow> apart a b n \<Longrightarrow> swap_words_32 m a b n = Some (exchanged m a b n)"
proof -
  assume "4 dvd n" "0 < n" and ap: "apart a b n"
  then obtain k where "n = 4 * k" "k \<noteq> 0" by (metis dvdE mult_0_right less_irrefl)
  then obtain q where "n = 4 * Suc q" by (metis not0_implies_Suc)
  then show ?thesis using swap_words_32_times ap by simp
qed

lemma swap_words_64_times: "apart a b (8 * Suc q) \<Longrightarrow> swap_words_64 m a b (8 * Suc q) = Some (exchanged m a b (8 * Suc q))"
proof (induction q arbitrary: m)
  case 0
  then show ?case using swap_word_exchanged [of 8 a b m] by (simp add: swap_words_64.simps [of _ _ _ 8])
next
  case (Suc q)
  have eq: "8 * Suc (Suc q) - 8 = 8 * Suc q" "8 * Suc q + 8 = 8 * Suc (Suc q)" by simp_all
  have ap: "apart a b (8 * Suc q + 8)" using Suc.prems by (simp only: eq)
  have w: "swap_word 8 m (a + 8 * Suc q) (b + 8 * Suc q) = exchanged m (a + 8 * Suc q) (b + 8 * Suc q) 8"
    by (rule swap_word_exchanged) (use ap in auto)
  have "swap_words_64 m a b (8 * Suc (Suc q)) = swap_words_64 (exchanged m (a + 8 * Suc q) (b + 8 * Suc q) 8) a b (8 * Suc q)"
    by (subst swap_words_64.simps) (simp only: Let_def eq w, simp)
  also have "\<dots> = Some (exchanged (exchanged m (a + 8 * Suc q) (b + 8 * Suc q) 8) a b (8 * Suc q))"
    by (rule Suc.IH) (use ap in auto)
  finally show ?case by (simp only: exchanged_split [OF ap] eq)
qed

lemma swap_words_64_exchanged: "8 dvd n \<Longrightarrow> 0 < n \<Longrightarrow> apart a b n \<Longrightarrow> swap_words_64 m a b n = Some (exchanged m a b n)"
proof -
  assume "8 dvd n" "0 < n" and ap: "apart a b n"
  then obtain k where "n = 8 * k" "k \<noteq> 0" by (metis dvdE mult_0_right less_irrefl)
  then obtain q where "n = 8 * Suc q" by (metis not0_implies_Suc)
  then show ?thesis using swap_words_64_times ap by simp
qed

lemma swap_bytes_exchanged: "0 < n \<Longrightarrow> apart a b n \<Longrightarrow> swap_bytes m a b n = Some (exchanged m a b n)"
proof (induction n arbitrary: m)
  case (Suc n)
  have w: "m(a + n := m (b + n), b + n := m (a + n)) = exchanged m (a + n) (b + n) 1"
    by (rule swap_byte_exchanged) (use Suc.prems in auto)
  show ?case
  proof (cases "n = 0")
    case True
    then show ?thesis using w by (simp add: swap_bytes.simps [of _ _ _ "Suc 0"] del: fun_upd_apply)
  next
    case False
    then have "swap_bytes (exchanged m (a + n) (b + n) 1) a b n = Some (exchanged (exchanged m (a + n) (b + n) 1) a b n)"
      using Suc.IH Suc.prems(2) by auto
    then show ?thesis using exchanged_split [where a = a and b = b and k = n and w = 1 and m = m] False Suc.prems(2) w
      by (simp add: swap_bytes.simps [of _ _ _ "Suc n"] del: fun_upd_apply)
  qed
qed simp

section \<open>The array of elements\<close>

definition elems :: "mem \<Rightarrow> nat \<Rightarrow> nat \<Rightarrow> nat \<Rightarrow> u8 list list" where
  "elems m base num sz = map (\<lambda>i. elem m (base + i * sz) sz) [0..<num]"

definition swap_nth :: "'a list \<Rightarrow> nat \<Rightarrow> nat \<Rightarrow> 'a list" where
  "swap_nth xs i j = xs[i := xs ! j, j := xs ! i]"

lemma length_elems [simp]: "length (elems m base num sz) = num"
  by (simp add: elems_def)

lemma elems_nth: "i < num \<Longrightarrow> elems m base num sz ! i = elem m (base + i * sz) sz"
  by (simp add: elems_def)

lemma length_swap_nth [simp]: "length (swap_nth xs i j) = length xs"
  by (simp add: swap_nth_def)

lemma swap_nth_nth: "i < length xs \<Longrightarrow> j < length xs \<Longrightarrow> k < length xs \<Longrightarrow>
    swap_nth xs i j ! k = (if k = j then xs ! i else if k = i then xs ! j else xs ! k)"
  by (simp add: swap_nth_def nth_list_update)

lemma mset_swap_nth: "i < length xs \<Longrightarrow> j < length xs \<Longrightarrow> mset (swap_nth xs i j) = mset xs"
  by (simp add: swap_nth_def mset_swap)

text \<open>Distinct elements of the array do not overlap.\<close>

lemma blocks_apart: "i \<noteq> j \<Longrightarrow> apart (base + i * sz) (base + j * sz) (sz :: nat)"
proof -
  assume "i \<noteq> j"
  then consider "Suc i \<le> j" | "Suc j \<le> i" by linarith
  then show ?thesis by cases (metis add.assoc add_le_cancel_left mult.commute mult_Suc_right mult_le_mono2 add.commute)+
qed

lemma elem_cong: "(\<And>i. i < sz \<Longrightarrow> m' (p' + i) = m (p + i)) \<Longrightarrow> elem m' p' sz = elem m p sz"
  by (simp add: elem_def)

text \<open>What a swap has to do for the sort: exchange the two elements and leave every other byte alone.\<close>

definition swaps :: "mem \<Rightarrow> nat \<Rightarrow> nat \<Rightarrow> nat \<Rightarrow> mem \<Rightarrow> bool" where
  "swaps m a b sz m' \<longleftrightarrow> elem m' a sz = elem m b sz \<and> elem m' b sz = elem m a sz \<and>
     (\<forall>x. \<not> (a \<le> x \<and> x < a + sz) \<and> \<not> (b \<le> x \<and> x < b + sz) \<longrightarrow> m' x = m x)"

lemma exchanged_swaps:
  assumes "apart a b sz"
  shows "swaps m a b sz (exchanged m a b sz)"
proof -
  have "elem (exchanged m a b sz) a sz = elem m b sz"
    by (rule elem_cong) (simp add: exchanged_def xpos_in_a)
  moreover have "elem (exchanged m a b sz) b sz = elem m a sz"
    by (rule elem_cong) (simp add: exchanged_def xpos_in_b [OF assms])
  ultimately show ?thesis by (simp add: swaps_def exchanged_def xpos_out)
qed

lemma swaps_elems:
  assumes "swaps m (base + i * sz) (base + j * sz) sz m'" and "i < num" and "j < num"
  shows "elems m' base num sz = swap_nth (elems m base num sz) i j"
proof (rule nth_equalityI)
  fix k assume "k < length (elems m' base num sz)"
  then have k: "k < num" by simp
  have "elem m' (base + k * sz) sz = elem m (base + k * sz) sz" if "k \<noteq> i" "k \<noteq> j"
  proof (rule elem_cong)
    fix x assume "x < sz"
    then show "m' (base + k * sz + x) = m (base + k * sz + x)"
      using assms(1) blocks_apart [OF that(1), of base sz] blocks_apart [OF that(2), of base sz] by (auto simp: swaps_def)
  qed
  then show "elems m' base num sz ! k = swap_nth (elems m base num sz) i j ! k"
    using assms k by (auto simp: elems_nth swap_nth_nth swaps_def)
qed simp

lemma swaps_outside:
  assumes "swaps m (base + i * sz) (base + j * sz) sz m'" and "i < num" and "j < num" and "x < base \<or> base + num * sz \<le> x"
  shows "m' x = m x"
proof -
  have "Suc i * sz \<le> num * sz" "Suc j * sz \<le> num * sz" using assms(2,3) by (intro mult_le_mono1; simp)+
  then have "\<not> (base + i * sz \<le> x \<and> x < base + i * sz + sz)" "\<not> (base + j * sz \<le> x \<and> x < base + j * sz + sz)"
    using assms(4) by auto
  then show ?thesis using assms(1) by (simp only: swaps_def) blast
qed

definition swap_ok :: "swap_func \<Rightarrow> nat \<Rightarrow> nat \<Rightarrow> bool" where
  "swap_ok f base sz \<longleftrightarrow> (\<forall>m i j. i \<noteq> j \<longrightarrow>
     (\<exists>m'. do_swap m (base + i * sz) (base + j * sz) sz f = Some m' \<and> swaps m (base + i * sz) (base + j * sz) sz m'))"

lemma aligned_dvd:
  assumes "is_aligned base sz align" and "align - 1 = mask k" and "k \<le> 8"
  shows "2 ^ k dvd sz"
proof -
  have z: "(of_nat sz OR of_nat base) AND mask k = (0 :: u8)" using assms(1,2) by (simp add: is_aligned_def)
  have "\<not> bit sz n" if n: "n < k" for n
  proof -
    have "\<not> bit ((of_nat sz OR of_nat base) AND mask k :: u8) n" using z by simp
    then show ?thesis using n assms(3) by (simp add: bit_and_iff bit_or_iff bit_mask_iff bit_of_nat_iff)
  qed
  then have "take_bit k sz = 0" by (intro bit_eqI) (simp add: bit_take_bit_iff)
  then show ?thesis by (simp add: take_bit_eq_mod mod_eq_0_iff_dvd)
qed

lemma choose_swap_ok:
  assumes "0 < sz"
  shows "swap_ok (choose_swap base sz) base sz"
  unfolding swap_ok_def
proof (intro allI impI)
  fix m and i j :: nat assume "i \<noteq> j"
  then have ap: "apart (base + i * sz) (base + j * sz) sz" by (rule blocks_apart)
  have d8: "8 dvd sz" if "is_aligned base sz 8" using aligned_dvd [OF that, of 3] by (simp add: mask_eq_exp_minus_1)
  have d4: "4 dvd sz" if "is_aligned base sz 4" using aligned_dvd [OF that, of 2] by (simp add: mask_eq_exp_minus_1)
  have "do_swap m (base + i * sz) (base + j * sz) sz (choose_swap base sz) = Some (exchanged m (base + i * sz) (base + j * sz) sz)"
    using swap_words_64_exchanged [OF d8 assms ap] swap_words_32_exchanged [OF d4 assms ap] swap_bytes_exchanged [OF assms ap]
    by (simp add: choose_swap_def do_swap_def)
  then show "\<exists>m'. do_swap m (base + i * sz) (base + j * sz) sz (choose_swap base sz) = Some m' \<and>
      swaps m (base + i * sz) (base + j * sz) sz m'"
    using exchanged_swaps [OF ap] by blast
qed

section \<open>The parent of a position\<close>

lemma parent_off_index:
  assumes sz: "0 < sz" "sz < 2 ^ 32" and k: "1 \<le> k" and lt: "k * sz < 2 ^ 64"
  shows "parent_off sz (k * sz) = ((k - 1) div 2) * sz"
proof -
  define s where "s = (of_nat sz :: u64)"
  define t where "t = ffs_long s"
  define j where "j = k - 1"
  have us: "unat s = sz" using sz(2) by (simp add: s_def unsigned_of_nat take_bit_nat_eq_self)
  have s0: "s \<noteq> 0" using us sz(1) by auto
  obtain q where q: "sz = 2 ^ t * q" "odd q" using ffs_long_dvd [OF s0] us by (auto simp: t_def)
  have "2 ^ t \<le> sz" using q(1) sz(1) by (cases q) auto
  then have "(2 :: nat) ^ t < 2 ^ 32" using sz(2) by (rule le_less_trans)
  then have t: "t < 32" by (rule power_less_imp_less_exp [rotated]) simp
  have lsb: "ucast (ucast (s AND - s) :: u32) = (push_bit t 1 :: u64)"
    unfolding lowest_bit [OF s0] t_def [symmetric] using t by (intro bit_word_eqI) (auto simp: bit_simps)
  have i1: "of_nat (k * sz) - s = of_nat (j * sz)" using k by (simp add: s_def j_def of_nat_diff algebra_simps)
  have js: "j * sz < 2 ^ 64" using lt by (simp add: j_def diff_mult_distrib)
  have "bit (of_nat (j * sz) :: u64) t \<longleftrightarrow> bit (j * sz) t" using t by (simp add: bit_of_nat_iff del: of_nat_mult)
  also have "\<dots> \<longleftrightarrow> odd (j * sz div 2 ^ t)" by (rule bit_iff_odd)
  also have "j * sz div 2 ^ t = j * q" by (simp add: q(1))
  finally have b: "bit (of_nat (j * sz) :: u64) t \<longleftrightarrow> odd j" using q(2) by simp
  have low: "of_nat (j * sz) AND push_bit t 1 = (if odd j then push_bit t 1 else 0 :: u64)"
    using b t by (intro bit_word_eqI) (auto simp: bit_simps simp del: of_nat_mult)
  have high: "s AND - push_bit t 1 = s"
  proof -
    have "- push_bit t 1 = (push_bit t (- 1) :: u64)" by (simp add: push_bit_eq_mult)
    moreover have "\<not> n < t" if "bit s n" for n using ffs_long_spec [OF s0] that unfolding t_def by blast
    then have "s AND push_bit t (- 1) = s" by (intro bit_word_eqI) (auto simp: bit_simps)
    ultimately show ?thesis by (simp only:)
  qed
  define i2 where "i2 = (j div 2) * 2 * sz"
  have i2: "of_nat (j * sz) - (s AND - (of_nat (j * sz) AND push_bit t 1)) = of_nat i2"
  proof (cases "odd j")
    case True
    then have "j = j div 2 * 2 + 1" by presburger
    then have "j * sz = i2 + sz" unfolding i2_def by (metis distrib_right mult_1)
    then have "of_nat (j * sz) = of_nat i2 + s" by (simp add: s_def)
    then show ?thesis using True high unfolding low by simp
  next
    case False
    then show ?thesis unfolding low by (simp add: i2_def)
  qed
  have "i2 \<le> j * sz" by (simp add: i2_def)
  then have "i2 < 2 ^ 64" using js by (rule le_less_trans)
  then have "unat (of_nat i2 :: u64) = i2" by (simp add: unsigned_of_nat take_bit_nat_eq_self)
  then have "unat ((of_nat i2 :: u64) div 2) = i2 div 2" by (simp add: unat_div)
  moreover have "parent_off sz (k * sz) = unat ((of_nat i2 :: u64) div 2)"
    unfolding parent_off_def parent_def Let_def s_def [symmetric] lsb i1 i2 ..
  ultimately show ?thesis by (simp add: i2_def j_def)
qed

end
