(* ===== verification/Sort_Spec.thy ===== *)
theory Sort_Spec imports Sort begin

text \<open>
  The heap sort sorts.  The invariant of the code's comment, the path the bottom-up sift takes to a leaf, where the
  element belongs on it and the shift along it are stated on the list of elements that the memory holds.
\<close>

section \<open>Heaps\<close>

definition heap :: "('e \<Rightarrow> 'e \<Rightarrow> bool) \<Rightarrow> 'e list \<Rightarrow> nat \<Rightarrow> nat \<Rightarrow> bool" where
  "heap ge xs a N \<longleftrightarrow> (\<forall>i c. a \<le> i \<and> c < N \<and> (c = 2 * i + 1 \<or> c = 2 * i + 2) \<longrightarrow> ge (xs ! i) (xs ! c))"

text \<open>The way down from \<open>ps ! 0\<close> to a leaf, always to the greater child.\<close>

definition sift_path :: "('e \<Rightarrow> 'e \<Rightarrow> bool) \<Rightarrow> 'e list \<Rightarrow> nat \<Rightarrow> nat list \<Rightarrow> bool" where
  "sift_path ge xs N ps \<longleftrightarrow> ps \<noteq> [] \<and> N \<le> 2 * last ps + 1 \<and>
     (\<forall>s. Suc s < length ps \<longrightarrow> (ps ! Suc s = 2 * ps ! s + 1 \<or> ps ! Suc s = 2 * ps ! s + 2) \<and> ps ! Suc s < N \<and>
        (\<forall>c < N. c = 2 * ps ! s + 1 \<or> c = 2 * ps ! s + 2 \<longrightarrow> ge (xs ! (ps ! Suc s)) (xs ! c)))"

text \<open>The elements on the path from \<open>s\<close> to \<open>t\<close> moved up by one place, and the one at \<open>s\<close> put at \<open>t\<close>.\<close>

definition shifted :: "'e list \<Rightarrow> nat list \<Rightarrow> nat \<Rightarrow> nat \<Rightarrow> 'e list \<Rightarrow> bool" where
  "shifted xs ps s t ys \<longleftrightarrow> length ys = length xs \<and> (\<forall>u. s \<le> u \<and> u < t \<longrightarrow> ys ! (ps ! u) = xs ! (ps ! Suc u)) \<and>
     ys ! (ps ! t) = xs ! (ps ! s) \<and> (\<forall>k < length xs. (\<forall>u. s \<le> u \<and> u \<le> t \<longrightarrow> k \<noteq> ps ! u) \<longrightarrow> ys ! k = xs ! k)"

lemma path_step: "sift_path ge xs N ps \<Longrightarrow> Suc s < length ps \<Longrightarrow> ps ! Suc s = 2 * ps ! s + 1 \<or> ps ! Suc s = 2 * ps ! s + 2"
  by (simp add: sift_path_def)

lemma path_less: "sift_path ge xs N ps \<Longrightarrow> s < u \<Longrightarrow> u < length ps \<Longrightarrow> ps ! s < ps ! u"
proof (induction u)
  case (Suc u)
  have "ps ! u < ps ! Suc u" using path_step [OF Suc.prems(1,3)] by auto
  then show ?case using Suc by (cases "s = u") auto
qed simp

lemma path_inj: "sift_path ge xs N ps \<Longrightarrow> s < length ps \<Longrightarrow> u < length ps \<Longrightarrow> ps ! s = ps ! u \<Longrightarrow> s = u"
  using path_less by (metis less_irrefl linorder_neqE_nat)

lemma path_parent: "sift_path ge xs N ps \<Longrightarrow> Suc s < length ps \<Longrightarrow> (ps ! Suc s - 1) div 2 = ps ! s"
  using path_step [of ge xs N ps s] by auto

lemma path_bound: "sift_path ge xs N ps \<Longrightarrow> ps ! 0 < N \<Longrightarrow> s < length ps \<Longrightarrow> ps ! s < N"
  by (cases s) (auto simp: sift_path_def)

text \<open>A child of a node of the path that lies on the path is the next node.\<close>

lemma path_child:
  assumes p: "sift_path ge xs N ps" and u: "u < length ps" and c: "ps ! u = 2 * i + 1 \<or> ps ! u = 2 * i + 2" and i: "ps ! 0 \<le> i"
  shows "\<exists>v. u = Suc v \<and> ps ! v = i"
proof (cases u)
  case 0
  then show ?thesis using c i by auto
next
  case (Suc v)
  then have "(ps ! u - 1) div 2 = ps ! v" using path_parent [OF p] u by simp
  then show ?thesis using Suc c by auto
qed

lemma shifted_heap:
  assumes tot: "\<And>x y. ge x y \<or> ge y x" and tr: "\<And>x y z. ge x y \<Longrightarrow> ge y z \<Longrightarrow> ge x z"
    and h: "heap ge xs (Suc (ps ! 0)) N" and p: "sift_path ge xs N ps" and t: "t < length ps"
    and below: "\<forall>u. t < u \<and> u < length ps \<longrightarrow> ge (xs ! (ps ! 0)) (xs ! (ps ! u))"
    and above: "t = 0 \<or> \<not> ge (xs ! (ps ! 0)) (xs ! (ps ! t))"
    and sh: "shifted xs ps 0 t ys" and N: "N \<le> length xs"
  shows "heap ge ys (ps ! 0) N"
  unfolding heap_def
proof (intro allI impI, elim conjE)
  fix i c assume i: "ps ! 0 \<le> i" and c: "c < N" "c = 2 * i + 1 \<or> c = 2 * i + 2"
  have cx: "c < length xs" "i < length xs" using c N by auto
  have same: "ys ! k = xs ! k" if "k < length xs" "\<forall>u \<le> t. k \<noteq> ps ! u" for k using sh that by (auto simp: shifted_def)
  have up: "ys ! (ps ! u) = xs ! (ps ! Suc u)" if "u < t" for u using sh that by (simp add: shifted_def)
  have at: "ys ! (ps ! t) = xs ! (ps ! 0)" using sh by (simp add: shifted_def)
  have child: "\<exists>v. u = Suc v \<and> ps ! v = i" if "u \<le> t" "c = ps ! u" for u
    using path_child [OF p _ _ i, of u] that t c(2) by auto
  have greater: "ge (xs ! (ps ! Suc s)) (xs ! c)" if "Suc s < length ps" "i = ps ! s" for s
    using p that c unfolding sift_path_def by blast
  consider s where "s < t" "i = ps ! s" | "i = ps ! t" | "\<forall>u \<le> t. i \<noteq> ps ! u" by (metis le_neq_implies_less)
  then show "ge (ys ! i) (ys ! c)"
  proof cases
    case (1 s)
    have yi: "ys ! i = xs ! (ps ! Suc s)" using 1 up by simp
    show ?thesis
    proof (cases "c = ps ! Suc s")
      case False
      have "\<forall>u \<le> t. c \<noteq> ps ! u"
      proof (intro allI impI notI)
        fix u assume u: "u \<le> t" "c = ps ! u"
        obtain v where v: "u = Suc v" "ps ! v = i" using child [OF u] by blast
        have "v = s" using path_inj [OF p, of v s] v 1 u t by simp
        then show False using False v u by simp
      qed
      then show ?thesis using greater [of s] same [OF cx(1)] yi 1 t by simp
    next
      case c': True
      show ?thesis
      proof (cases "Suc s = t")
        case True
        then have "\<not> ge (xs ! (ps ! 0)) (xs ! (ps ! t))" using above by simp
        then show ?thesis using tot yi at c' True by metis
      next
        case False
        then have lt: "Suc s < t" using 1(1) by simp
        have "Suc (ps ! 0) \<le> ps ! Suc s" using path_less [OF p, of 0 "Suc s"] lt t by simp
        moreover have "ps ! Suc (Suc s) = 2 * ps ! Suc s + 1 \<or> ps ! Suc (Suc s) = 2 * ps ! Suc s + 2" "ps ! Suc (Suc s) < N"
          using p lt t by (simp_all add: sift_path_def)
        ultimately have "ge (xs ! (ps ! Suc s)) (xs ! (ps ! Suc (Suc s)))" using h unfolding heap_def by blast
        then show ?thesis using yi up [OF lt] c' by simp
      qed
    qed
  next
    case 2
    have nc: "\<forall>u \<le> t. c \<noteq> ps ! u"
    proof (intro allI impI notI)
      fix u assume u: "u \<le> t" "c = ps ! u"
      obtain v where v: "u = Suc v" "ps ! v = i" using child [OF u] by blast
      have "v = t" using path_inj [OF p, of v t] v 2 u t by simp
      then show False using v u by simp
    qed
    have last: "Suc t < length ps"
    proof (rule ccontr)
      assume "\<not> Suc t < length ps"
      then have "last ps = i" using t 2 by (metis Suc_lessI diff_Suc_1 last_conv_nth length_0_conv not_less_zero)
      then show False using p c by (auto simp: sift_path_def)
    qed
    then have "ge (xs ! (ps ! 0)) (xs ! (ps ! Suc t))" "ge (xs ! (ps ! Suc t)) (xs ! c)" using below greater 2 by auto
    then show ?thesis using tr 2 at same [OF cx(1) nc] by metis
  next
    case 3
    have "\<forall>u \<le> t. c \<noteq> ps ! u"
    proof (intro allI impI notI)
      fix u assume u: "u \<le> t" "c = ps ! u"
      obtain v where "u = Suc v" "ps ! v = i" using child [OF u] by blast
      moreover from this have "v \<le> t" using u(1) by simp
      ultimately show False using 3 by blast
    qed
    moreover have "Suc (ps ! 0) \<le> i" using i 3 by (metis Suc_leI le_neq_implies_less zero_le)
    ultimately show ?thesis using h c same [OF cx(1)] same [OF cx(2) 3] unfolding heap_def by metis
  qed
qed

section \<open>One sift\<close>

definition cmp_of :: "'p cmp_func \<Rightarrow> u8 list \<Rightarrow> u8 list \<Rightarrow> int" where
  "cmp_of cmp x y = (case cmp of Cmp_func f \<Rightarrow> f x y | Cmp_r_func f priv \<Rightarrow> f x y priv)"

definition ge :: "'p cmp_func \<Rightarrow> u8 list \<Rightarrow> u8 list \<Rightarrow> bool" where
  "ge cmp x y \<longleftrightarrow> 0 \<le> cmp_of cmp x y"

text \<open>What the sort relies on: the comparison is total and transitive.\<close>

definition cmp_ok :: "'p cmp_func \<Rightarrow> bool" where
  "cmp_ok cmp \<longleftrightarrow> (\<forall>x y. ge cmp x y \<or> ge cmp y x) \<and> (\<forall>x y z. ge cmp x y \<longrightarrow> ge cmp y z \<longrightarrow> ge cmp x z)"

lemma cmp_okD: "cmp_ok cmp \<Longrightarrow> ge cmp x y \<or> ge cmp y x" "cmp_ok cmp \<Longrightarrow> ge cmp x y \<Longrightarrow> ge cmp y z \<Longrightarrow> ge cmp x z"
  unfolding cmp_ok_def by blast+

lemma cmp_refl: "cmp_ok cmp \<Longrightarrow> ge cmp x x"
  using cmp_okD(1) by blast

lemma do_cmp_elems: "i < num \<Longrightarrow> j < num \<Longrightarrow>
    0 \<le> do_cmp m (base + i * sz) (base + j * sz) sz cmp \<longleftrightarrow> ge cmp (elems m base num sz ! i) (elems m base num sz ! j)"
  by (simp add: do_cmp_def ge_def cmp_of_def elems_nth split: cmp_func.splits)

lemma path_Cons:
  assumes "sift_path g xs N ps" and "ps ! 0 = 2 * k + 1 \<or> ps ! 0 = 2 * k + 2" and "ps ! 0 < N"
    and "\<forall>c < N. c = 2 * k + 1 \<or> c = 2 * k + 2 \<longrightarrow> g (xs ! (ps ! 0)) (xs ! c)"
  shows "sift_path g xs N (k # ps)"
  unfolding sift_path_def
proof (intro conjI allI impI)
  show "N \<le> 2 * last (k # ps) + 1" using assms(1) by (simp add: sift_path_def)
  fix s assume s: "Suc s < length (k # ps)"
  have "((k # ps) ! Suc s = 2 * (k # ps) ! s + 1 \<or> (k # ps) ! Suc s = 2 * (k # ps) ! s + 2) \<and> (k # ps) ! Suc s < N \<and>
    (\<forall>c < N. c = 2 * (k # ps) ! s + 1 \<or> c = 2 * (k # ps) ! s + 2 \<longrightarrow> g (xs ! ((k # ps) ! Suc s)) (xs ! c))"
  proof (cases s)
    case 0
    then show ?thesis using assms(2-4) by simp
  next
    case (Suc r)
    then have "Suc r < length ps" using s by simp
    then show ?thesis using assms(1) Suc unfolding sift_path_def by simp
  qed
  then show "(k # ps) ! Suc s = 2 * (k # ps) ! s + 1 \<or> (k # ps) ! Suc s = 2 * (k # ps) ! s + 2" "(k # ps) ! Suc s < N"
    and "\<And>c. c < N \<Longrightarrow> c = 2 * (k # ps) ! s + 1 \<or> c = 2 * (k # ps) ! s + 2 \<Longrightarrow> g (xs ! ((k # ps) ! Suc s)) (xs ! c)"
    by blast+
qed simp

lemma sift_leaf_path:
  assumes cmp: "cmp_ok cmp" and sz: "0 < sz" and N: "N \<le> num"
  shows "k < N \<Longrightarrow> \<exists>ps. sift_leaf m base sz cmp (N * sz) (k * sz) = Some (last ps * sz) \<and>
    sift_path (ge cmp) (elems m base num sz) N ps \<and> ps ! 0 = k"
proof (induction "N - k" arbitrary: k rule: less_induct)
  case less
  let ?xs = "elems m base num sz"
  have c: "2 * (k * sz) + sz = (2 * k + 1) * sz" and d: "(2 * k + 1) * sz + sz = (2 * k + 2) * sz" by (simp_all add: algebra_simps)
  note unfold = sift_leaf.simps [of m base sz cmp "N * sz" "k * sz", unfolded Let_def c d]
  consider "2 * k + 2 < N" | "2 * k + 2 = N" | "N < 2 * k + 2" by linarith
  then show ?case
  proof cases
    case 1
    define k' where "k' = (if ge cmp (?xs ! (2 * k + 1)) (?xs ! (2 * k + 2)) then 2 * k + 1 else 2 * k + 2)"
    have step: "sift_leaf m base sz cmp (N * sz) (k * sz) = sift_leaf m base sz cmp (N * sz) (k' * sz)"
    proof -
      have lt: "(2 * k + 2) * sz < N * sz" using 1 sz by (rule mult_strict_right_mono)
      have dc: "0 \<le> do_cmp m (base + (2 * k + 1) * sz) (base + (2 * k + 2) * sz) sz cmp \<longleftrightarrow> ge cmp (?xs ! (2 * k + 1)) (?xs ! (2 * k + 2))"
        by (rule do_cmp_elems) (use 1 N in auto)
      show ?thesis unfolding unfold if_P [OF lt] dc k'_def
        by (cases "ge cmp (?xs ! (2 * k + 1)) (?xs ! (2 * k + 2))") (simp_all only: if_True if_False)
    qed
    have k': "k' = 2 * k + 1 \<or> k' = 2 * k + 2" "k' < N" using 1 by (auto simp: k'_def)
    have "N - k' < N - k" using k' by auto
    then obtain ps where ps: "sift_leaf m base sz cmp (N * sz) (k' * sz) = Some (last ps * sz)"
        "sift_path (ge cmp) ?xs N ps" "ps ! 0 = k'"
      using less.hyps [of k'] k'(2) by blast
    have "\<forall>c < N. c = 2 * k + 1 \<or> c = 2 * k + 2 \<longrightarrow> ge cmp (?xs ! k') (?xs ! c)"
      using cmp_okD(1) [OF cmp, of "?xs ! (2 * k + 1)" "?xs ! (2 * k + 2)"] cmp_refl [OF cmp] by (auto simp: k'_def)
    then have "sift_path (ge cmp) ?xs N (k # ps)" using path_Cons [OF ps(2)] k' ps(3) by simp
    moreover have "last (k # ps) = last ps" using ps(2) by (simp add: sift_path_def)
    ultimately show ?thesis using step ps(1) by (metis nth_Cons_0)
  next
    case 2
    have leaf: "sift_path (ge cmp) ?xs N [2 * k + 1]" using 2 by (simp add: sift_path_def)
    have "sift_path (ge cmp) ?xs N [k, 2 * k + 1]"
      by (rule path_Cons [OF leaf]) (use 2 cmp_refl [OF cmp] in auto)
    moreover have "sift_leaf m base sz cmp (N * sz) (k * sz) = Some ((2 * k + 1) * sz)" using 2 by (subst unfold) simp
    ultimately show ?thesis by (metis last.simps list.distinct(1) nth_Cons_0)
  next
    case 3
    have "sift_path (ge cmp) ?xs N [k]" using 3 by (simp add: sift_path_def)
    moreover have lt: "N * sz < (2 * k + 2) * sz" using 3 sz by (rule mult_strict_right_mono)
    have "sift_leaf m base sz cmp (N * sz) (k * sz) = Some (k * sz)"
      by (simp only: unfold if_not_P [OF leD [OF less_imp_le [OF lt]]] if_not_P [OF less_imp_neq [OF lt, symmetric]])
    ultimately show ?thesis by (metis last.simps nth_Cons_0)
  qed
qed

lemma parent_off_path:
  assumes "sift_path g xs N ps" and "Suc s < length ps" and "ps ! Suc s < num" and "0 < sz" "sz < 2 ^ 32" "num * sz < 2 ^ 64"
  shows "parent_off sz (ps ! Suc s * sz) = ps ! s * sz"
proof -
  have pos: "1 \<le> ps ! Suc s" using path_step [OF assms(1,2)] by auto
  have "ps ! Suc s * sz \<le> num * sz" using assms(3) by (intro mult_le_mono1) simp
  then have "ps ! Suc s * sz < 2 ^ 64" using assms(6) by (rule le_less_trans)
  then have "parent_off sz (ps ! Suc s * sz) = (ps ! Suc s - 1) div 2 * sz" by (rule parent_off_index [OF assms(4,5) pos])
  then show ?thesis by (simp only: path_parent [OF assms(1,2)])
qed

lemma sift_back_path:
  assumes p: "sift_path (ge cmp) (elems m base num sz) N ps" "ps ! 0 < N" and N: "N \<le> num"
    and sz: "0 < sz" "sz < 2 ^ 32" "num * sz < 2 ^ 64"
  shows "s < length ps \<Longrightarrow>
    \<forall>u. s < u \<and> u < length ps \<longrightarrow> ge cmp (elems m base num sz ! (ps ! 0)) (elems m base num sz ! (ps ! u)) \<Longrightarrow>
    \<exists>t \<le> s. sift_back m base sz cmp (ps ! 0 * sz) (ps ! s * sz) = Some (ps ! t * sz) \<and>
      (\<forall>u. t < u \<and> u < length ps \<longrightarrow> ge cmp (elems m base num sz ! (ps ! 0)) (elems m base num sz ! (ps ! u))) \<and>
      (t = 0 \<or> \<not> ge cmp (elems m base num sz ! (ps ! 0)) (elems m base num sz ! (ps ! t)))"
proof (induction s)
  case 0
  then show ?case by (simp add: sift_back.simps [of _ _ _ _ _ "ps ! 0 * sz"])
next
  case (Suc s)
  let ?xs = "elems m base num sz"
  have lt: "ps ! Suc s < num" "ps ! 0 < num" using path_bound [OF p Suc.prems(1)] p(2) N by auto
  have ne: "ps ! Suc s * sz \<noteq> ps ! 0 * sz" using path_less [OF p(1), of 0 "Suc s"] Suc.prems(1) sz(1) by simp
  note dc = do_cmp_elems [OF lt(2,1), of m base sz cmp]
  show ?case
  proof (cases "ge cmp (?xs ! (ps ! 0)) (?xs ! (ps ! Suc s))")
    case True
    have "sift_back m base sz cmp (ps ! 0 * sz) (ps ! Suc s * sz) = sift_back m base sz cmp (ps ! 0 * sz) (ps ! s * sz)"
      using ne dc True parent_off_path [OF p(1) Suc.prems(1) lt(1) sz]
      by (simp add: sift_back.simps [of _ _ _ _ _ "ps ! Suc s * sz"])
    moreover have "\<forall>u. s < u \<and> u < length ps \<longrightarrow> ge cmp (?xs ! (ps ! 0)) (?xs ! (ps ! u))"
      using Suc.prems(2) True by (metis Suc_lessI)
    ultimately show ?thesis using Suc.IH Suc.prems(1) by (metis Suc_lessD le_SucI)
  next
    case False
    then have "sift_back m base sz cmp (ps ! 0 * sz) (ps ! Suc s * sz) = Some (ps ! Suc s * sz)"
      using dc by (simp add: sift_back.simps [of _ _ _ _ _ "ps ! Suc s * sz"])
    then show ?thesis using False Suc.prems(2) by blast
  qed
qed

text \<open>The first \<open>N\<close> elements are permuted, the rest stays.\<close>

definition permuted :: "nat \<Rightarrow> 'e list \<Rightarrow> 'e list \<Rightarrow> bool" where
  "permuted N xs ys \<longleftrightarrow> mset (take N ys) = mset (take N xs) \<and> drop N ys = drop N xs"

definition same_outside :: "nat \<Rightarrow> nat \<Rightarrow> mem \<Rightarrow> mem \<Rightarrow> bool" where
  "same_outside base len m m' \<longleftrightarrow> (\<forall>x. x < base \<or> base + len \<le> x \<longrightarrow> m' x = m x)"

lemma permuted_refl: "permuted N xs xs"
  by (simp add: permuted_def)

lemma permuted_trans: "permuted N xs ys \<Longrightarrow> permuted N ys zs \<Longrightarrow> permuted N xs zs"
  by (simp add: permuted_def)

lemma same_outside_refl: "same_outside base len m m"
  by (simp add: same_outside_def)

lemma same_outside_trans: "same_outside base len m m1 \<Longrightarrow> same_outside base len m1 m2 \<Longrightarrow> same_outside base len m m2"
  by (simp add: same_outside_def)

lemma swap_nth_permuted:
  assumes "i < N" and "j < N" and "N \<le> length xs"
  shows "permuted N xs (swap_nth xs i j)"
proof -
  have "take N (swap_nth xs i j) = swap_nth (take N xs) i j"
    using assms by (simp add: swap_nth_def take_update_swap)
  then show ?thesis using assms mset_swap_nth [of i "take N xs" j] by (simp add: permuted_def swap_nth_def drop_update_cancel)
qed

lemma do_swap_elems:
  assumes "swap_ok swap base sz" and "i \<noteq> j" and "i < N" "j < N" "N \<le> num"
  shows "\<exists>m'. do_swap m (base + i * sz) (base + j * sz) sz swap = Some m' \<and>
    elems m' base num sz = swap_nth (elems m base num sz) i j \<and> permuted N (elems m base num sz) (elems m' base num sz) \<and>
    same_outside base (num * sz) m m'"
proof -
  obtain m' where m': "do_swap m (base + i * sz) (base + j * sz) sz swap = Some m'" "swaps m (base + i * sz) (base + j * sz) sz m'"
    using assms(1,2) unfolding swap_ok_def by blast
  have lt: "i < num" "j < num" using assms(3-5) by simp_all
  note e = swaps_elems [OF m'(2) lt]
  have "permuted N (elems m base num sz) (elems m' base num sz)"
    unfolding e using assms(3-5) by (intro swap_nth_permuted) simp_all
  moreover have "same_outside base (num * sz) m m'"
    unfolding same_outside_def using swaps_outside [OF m'(2) lt] by blast
  ultimately show ?thesis using m'(1) e by blast
qed

lemma shifted_step:
  assumes p: "sift_path g xs0 N ps" and t: "s < t" "t < length ps" and b: "\<And>u. u < length ps \<Longrightarrow> ps ! u < length xs"
    and sh: "shifted xs ps (Suc s) t ys"
  shows "shifted xs ps s t (swap_nth ys (ps ! s) (ps ! t))"
proof -
  have len: "length ys = length xs" using sh by (simp add: shifted_def)
  have ne: "ps ! u \<noteq> ps ! v" if "u < v" "v < length ps" for u v using path_less [OF p that] by simp
  have nth: "swap_nth ys (ps ! s) (ps ! t) ! k = (if k = ps ! t then ys ! (ps ! s) else if k = ps ! s then ys ! (ps ! t) else ys ! k)"
    if "k < length xs" for k using that b t len by (intro swap_nth_nth) auto
  have "\<forall>u. Suc s \<le> u \<and> u \<le> t \<longrightarrow> ps ! s \<noteq> ps ! u" using ne t(2) by (auto simp: Suc_le_eq)
  then have "ys ! (ps ! s) = xs ! (ps ! s)" using sh b [of s] t by (simp add: shifted_def)
  moreover have "swap_nth ys (ps ! s) (ps ! t) ! (ps ! u) = xs ! (ps ! Suc u)" if u: "s \<le> u" "u < t" for u
  proof (cases "u = s")
    case True
    then show ?thesis using nth [OF b [of s]] ne [OF t] t sh by (simp add: shifted_def)
  next
    case False
    then have "s < u" using u(1) by simp
    then show ?thesis using nth [OF b [of u]] ne [of u t] ne [of s u] u t sh by (auto simp: shifted_def)
  qed
  moreover have "swap_nth ys (ps ! s) (ps ! t) ! k = xs ! k" if "k < length xs" "\<forall>u. s \<le> u \<and> u \<le> t \<longrightarrow> k \<noteq> ps ! u" for k
    using nth [OF that(1)] that t sh by (auto simp: shifted_def)
  ultimately show ?thesis using nth [OF b [OF t(2)]] len by (simp add: shifted_def)
qed

lemma sift_shift_path:
  assumes p: "sift_path g xs0 N ps" "ps ! 0 < N" and N: "N \<le> num" and t: "t < length ps"
    and sz: "0 < sz" "sz < 2 ^ 32" "num * sz < 2 ^ 64" and sw: "swap_ok swap base sz" and xs: "length xs = num"
  shows "s \<le> t \<Longrightarrow> shifted xs ps s t (elems m base num sz) \<Longrightarrow>
    \<exists>m'. sift_shift base sz swap (ps ! 0 * sz) (ps ! t * sz) m (ps ! s * sz) = Some m' \<and>
      shifted xs ps 0 t (elems m' base num sz) \<and> permuted N (elems m base num sz) (elems m' base num sz) \<and> same_outside base (num * sz) m m'"
proof (induction s arbitrary: m)
  case 0
  then show ?case by (simp add: sift_shift.simps [of _ _ _ _ _ _ "ps ! 0 * sz"] permuted_refl same_outside_refl)
next
  case (Suc s)
  have b: "ps ! u < N" if "u < length ps" for u using path_bound [OF p that] .
  have st: "s < t" "Suc s < length ps" using Suc.prems(1) t by simp_all
  have ne: "ps ! s \<noteq> ps ! t" using path_less [OF p(1) st(1) t] by simp
  have bs: "ps ! s < N" "ps ! t < N" using b st(2) t by simp_all
  have ne0: "ps ! Suc s * sz \<noteq> ps ! 0 * sz" using path_less [OF p(1), of 0 "Suc s"] st(2) sz(1) by simp
  have "ps ! Suc s < num" using b [OF st(2)] N by simp
  note par = parent_off_path [OF p(1) st(2) this sz]
  obtain m1 where m1: "do_swap m (base + ps ! s * sz) (base + ps ! t * sz) sz swap = Some m1"
    "elems m1 base num sz = swap_nth (elems m base num sz) (ps ! s) (ps ! t)"
    "permuted N (elems m base num sz) (elems m1 base num sz)" "same_outside base (num * sz) m m1"
    using do_swap_elems [OF sw ne bs N, where m = m] by blast
  have "shifted xs ps s t (elems m1 base num sz)"
    unfolding m1(2) by (rule shifted_step [OF p(1) st(1) t _ Suc.prems(2)]) (use b N xs in force)
  then obtain m' where m': "sift_shift base sz swap (ps ! 0 * sz) (ps ! t * sz) m1 (ps ! s * sz) = Some m'"
    "shifted xs ps 0 t (elems m' base num sz)" "permuted N (elems m1 base num sz) (elems m' base num sz)" "same_outside base (num * sz) m1 m'"
    using Suc.IH [of m1] st(1) by auto
  have "sift_shift base sz swap (ps ! 0 * sz) (ps ! t * sz) m (ps ! Suc s * sz) = Some m'"
    using ne0 m1(1) m'(1) by (simp add: sift_shift.simps [of _ _ _ _ _ _ "ps ! Suc s * sz"] par)
  then show ?case using m'(2) permuted_trans [OF m1(3) m'(3)] same_outside_trans [OF m1(4) m'(4)] by blast
qed

lemma sift_down_heap:
  assumes cmp: "cmp_ok cmp" and sw: "swap_ok swap base sz" and sz: "0 < sz" "sz < 2 ^ 32" "num * sz < 2 ^ 64" and N: "N \<le> num" "a < N"
    and h: "heap (ge cmp) (elems m base num sz) (Suc a) N"
  shows "\<exists>m'. sift_down m base sz cmp swap (N * sz) (a * sz) = Some m' \<and> heap (ge cmp) (elems m' base num sz) a N \<and>
    permuted N (elems m base num sz) (elems m' base num sz) \<and> same_outside base (num * sz) m m'"
proof -
  let ?xs = "elems m base num sz"
  obtain ps where leaf: "sift_leaf m base sz cmp (N * sz) (a * sz) = Some (last ps * sz)"
    and p: "sift_path (ge cmp) ?xs N ps" and a: "ps ! 0 = a"
    using sift_leaf_path [OF cmp sz(1) N] by blast
  have p0: "ps ! 0 < N" using a N(2) by simp
  have ne: "ps \<noteq> []" using p by (simp add: sift_path_def)
  then have last: "last ps = ps ! (length ps - 1)" "length ps - 1 < length ps" by (simp_all add: last_conv_nth)
  have vac: "\<forall>u. length ps - 1 < u \<and> u < length ps \<longrightarrow> ge cmp (?xs ! (ps ! 0)) (?xs ! (ps ! u))" by auto
  obtain t where t: "t \<le> length ps - 1" "sift_back m base sz cmp (ps ! 0 * sz) (last ps * sz) = Some (ps ! t * sz)"
    "\<forall>u. t < u \<and> u < length ps \<longrightarrow> ge cmp (?xs ! (ps ! 0)) (?xs ! (ps ! u))"
    "t = 0 \<or> \<not> ge cmp (?xs ! (ps ! 0)) (?xs ! (ps ! t))"
    using sift_back_path [OF p p0 N(1) sz last(2) vac, folded last(1)] by blast
  have tl: "t < length ps" using t(1) last(2) by simp
  have "shifted ?xs ps t t ?xs" by (auto simp: shifted_def)
  then obtain m' where m': "sift_shift base sz swap (ps ! 0 * sz) (ps ! t * sz) m (ps ! t * sz) = Some m'"
    "shifted ?xs ps 0 t (elems m' base num sz)" "permuted N ?xs (elems m' base num sz)" "same_outside base (num * sz) m m'"
    using sift_shift_path [OF p p0 N(1) tl sz sw length_elems order_refl] by blast
  have "heap (ge cmp) (elems m' base num sz) (ps ! 0) N"
    using shifted_heap [of "ge cmp" ?xs ps N t, OF cmp_okD [OF cmp]] h p tl t(3,4) m'(2) N(1) a by simp
  moreover have "sift_down m base sz cmp swap (N * sz) (a * sz) = Some m'"
    using leaf t(2) m'(1) a by (simp add: sift_down_def)
  ultimately show ?thesis using m'(3,4) a by blast
qed

section \<open>The sort\<close>

lemma heap_root:
  assumes "cmp_ok cmp" and "heap (ge cmp) xs 0 N"
  shows "i < N \<Longrightarrow> ge cmp (xs ! 0) (xs ! i)"
proof (induction i rule: less_induct)
  case (less i)
  show ?case
  proof (cases "i = 0")
    case True
    then show ?thesis using cmp_refl [OF assms(1)] by simp
  next
    case False
    let ?p = "(i - 1) div 2"
    have "i = 2 * ?p + 1 \<or> i = 2 * ?p + 2" using False by presburger
    then have "ge cmp (xs ! ?p) (xs ! i)" using assms(2) less.prems unfolding heap_def by blast
    moreover have "?p < i" using False by auto
    then have "ge cmp (xs ! 0) (xs ! ?p)" using less.IH less.prems by auto
    ultimately show ?thesis using cmp_okD(2) [OF assms(1)] by blast
  qed
qed

text \<open>The invariant of the main loop: a heap from \<open>A\<close> to \<open>N\<close>, followed by the greatest elements in order.\<close>

definition sort_inv :: "('e \<Rightarrow> 'e \<Rightarrow> bool) \<Rightarrow> 'e list \<Rightarrow> nat \<Rightarrow> nat \<Rightarrow> bool" where
  "sort_inv g xs A N \<longleftrightarrow> heap g xs A N \<and> sorted_wrt (\<lambda>x y. g y x) (drop N xs) \<and>
     (\<forall>x \<in> set (take N xs). \<forall>y \<in> set (drop N xs). g y x) \<and> 1 \<le> N \<and> N \<le> length xs \<and> A \<le> N"

lemma permuted_mset: "permuted N xs ys \<Longrightarrow> mset ys = mset xs"
  unfolding permuted_def by (metis append_take_drop_id mset_append)

lemma sort_inv_permuted:
  assumes "sort_inv g xs A N" and "permuted N xs ys" and "heap g ys B N" and "B \<le> N"
  shows "sort_inv g ys B N"
proof -
  have "set (take N ys) = set (take N xs)" "drop N ys = drop N xs" using assms(2) by (auto simp: permuted_def dest: mset_eq_setD)
  moreover have "length ys = length xs" using permuted_mset [OF assms(2)] by (metis size_mset)
  ultimately show ?thesis using assms(1,3,4) by (simp add: sort_inv_def)
qed

lemma sort_inv_extract:
  assumes cmp: "cmp_ok cmp" and inv: "sort_inv (ge cmp) xs 0 N" and N: "2 \<le> N"
  shows "heap (ge cmp) (swap_nth xs 0 (N - 1)) 1 (N - 1) \<and> sorted_wrt (\<lambda>x y. ge cmp y x) (drop (N - 1) (swap_nth xs 0 (N - 1))) \<and>
    (\<forall>x \<in> set (take (N - 1) (swap_nth xs 0 (N - 1))). \<forall>y \<in> set (drop (N - 1) (swap_nth xs 0 (N - 1))). ge cmp y x)"
proof -
  let ?ys = "swap_nth xs 0 (N - 1)"
  have h: "heap (ge cmp) xs 0 N" and so: "sorted_wrt (\<lambda>x y. ge cmp y x) (drop N xs)"
    and le: "\<forall>x \<in> set (take N xs). \<forall>y \<in> set (drop N xs). ge cmp y x" and len: "N \<le> length xs"
    using inv by (simp_all add: sort_inv_def)
  have nth: "?ys ! k = (if k = N - 1 then xs ! 0 else if k = 0 then xs ! (N - 1) else xs ! k)" if "k < length xs" for k
    using that len N by (intro swap_nth_nth) auto
  have "drop (N - 1) ?ys = ?ys ! (N - 1) # drop (Suc (N - 1)) ?ys" using len N by (intro Cons_nth_drop_Suc [symmetric]) simp
  then have d: "drop (N - 1) ?ys = xs ! 0 # drop N xs" using nth [of "N - 1"] len N by (simp add: swap_nth_def)
  have x0: "xs ! 0 \<in> set (take N xs)" using len N by (auto simp: in_set_conv_nth intro!: exI [of _ 0])
  have "set (take (N - 1) ?ys) \<subseteq> set (take N ?ys)" by (simp add: set_take_subset_set_take)
  also have "\<dots> = set (take N xs)" using swap_nth_permuted [of 0 N "N - 1" xs] len N by (auto simp: permuted_def dest: mset_eq_setD)
  finally have tk: "set (take (N - 1) ?ys) \<subseteq> set (take N xs)" .
  have root: "ge cmp (xs ! 0) x" if "x \<in> set (take N xs)" for x
    using that heap_root [OF cmp h] len by (auto simp: in_set_conv_nth)
  have "heap (ge cmp) ?ys 1 (N - 1)"
    unfolding heap_def
  proof (intro allI impI, elim conjE)
    fix i c assume i: "1 \<le> i" and c: "c < N - 1" "c = 2 * i + 1 \<or> c = 2 * i + 2"
    then have "?ys ! i = xs ! i" "?ys ! c = xs ! c" using nth [of i] nth [of c] len by auto
    then show "ge cmp (?ys ! i) (?ys ! c)" using h i c unfolding heap_def by auto
  qed
  moreover have "sorted_wrt (\<lambda>x y. ge cmp y x) (drop (N - 1) ?ys)" unfolding d using so le x0 by simp
  moreover have "\<forall>x \<in> set (take (N - 1) ?ys). \<forall>y \<in> set (drop (N - 1) ?ys). ge cmp y x" unfolding d using tk root le by auto
  ultimately show ?thesis by blast
qed

lemma sort_loop_sorts:
  assumes cmp: "cmp_ok cmp" and sw: "swap_ok swap base sz" and sz: "0 < sz" "sz < 2 ^ 32" "num * sz < 2 ^ 64"
  shows "sort_inv (ge cmp) (elems m base num sz) A N \<Longrightarrow>
    \<exists>m'. sort_loop base sz cmp swap m (A * sz) (N * sz) = Some m' \<and>
      sorted_wrt (\<lambda>x y. ge cmp y x) (elems m' base num sz) \<and> mset (elems m' base num sz) = mset (elems m base num sz) \<and>
      same_outside base (num * sz) m m'"
proof (induction "A + N" arbitrary: m A N rule: less_induct)
  case less
  note inv = less.prems
  have N: "1 \<le> N" "N \<le> num" using inv by (simp_all add: sort_inv_def)
  note unfold = sort_loop.simps [of base sz cmp swap m "A * sz" "N * sz"]
  consider B where "A = Suc B" | "A = 0" "N = 1" | K where "A = 0" "N = Suc K" "1 \<le> K" using N by (cases A; cases "N = 1"; cases N) (auto simp: Suc_le_eq)
  then show ?case
  proof cases
    case (1 B)
    have B: "B < N" "heap (ge cmp) (elems m base num sz) (Suc B) N" using inv 1 by (simp_all add: sort_inv_def)
    obtain m1 where m1: "sift_down m base sz cmp swap (N * sz) (B * sz) = Some m1" "heap (ge cmp) (elems m1 base num sz) B N"
      "permuted N (elems m base num sz) (elems m1 base num sz)" "same_outside base (num * sz) m m1"
      using sift_down_heap [OF cmp sw sz N(2) B] by blast
    have inv1: "sort_inv (ge cmp) (elems m1 base num sz) B N" using sort_inv_permuted [OF inv m1(3,2)] B(1) by simp
    have "B + N < A + N" using 1 by simp
    from less.hyps [OF this inv1] obtain m' where m': "sort_loop base sz cmp swap m1 (B * sz) (N * sz) = Some m'"
      "sorted_wrt (\<lambda>x y. ge cmp y x) (elems m' base num sz)" "mset (elems m' base num sz) = mset (elems m1 base num sz)"
      "same_outside base (num * sz) m1 m'" by blast
    have "sort_loop base sz cmp swap m (A * sz) (N * sz) = Some m'" using 1 sz(1) m1(1) m'(1) by (subst unfold) simp
    then show ?thesis using m'(2,3) permuted_mset [OF m1(3)] same_outside_trans [OF m1(4) m'(4)] by metis
  next
    case 2
    have "sorted_wrt (\<lambda>x y. ge cmp y x) (take 1 (elems m base num sz) @ drop 1 (elems m base num sz))"
      unfolding sorted_wrt_append using inv 2 N by (cases "elems m base num sz") (auto simp: sort_inv_def)
    then have "sorted_wrt (\<lambda>x y. ge cmp y x) (elems m base num sz)" by (simp only: append_take_drop_id)
    moreover have "sort_loop base sz cmp swap m (A * sz) (N * sz) = Some m" using 2 by (subst unfold) simp
    ultimately show ?thesis using same_outside_refl by blast
  next
    case (3 K)
    have K: "K \<le> num" "0 < K" "0 \<noteq> K" "0 < N" "K < N" using 3 N by auto
    have inv0: "sort_inv (ge cmp) (elems m base num sz) 0 N" using inv 3 by simp
    obtain m1 where m1: "do_swap m (base + 0 * sz) (base + K * sz) sz swap = Some m1"
      "elems m1 base num sz = swap_nth (elems m base num sz) 0 K"
      "permuted N (elems m base num sz) (elems m1 base num sz)" "same_outside base (num * sz) m m1"
      using do_swap_elems [OF sw K(3,4,5) N(2)] by blast
    have ext: "heap (ge cmp) (elems m1 base num sz) (Suc 0) K" "sorted_wrt (\<lambda>x y. ge cmp y x) (drop K (elems m1 base num sz))"
      "\<forall>x \<in> set (take K (elems m1 base num sz)). \<forall>y \<in> set (drop K (elems m1 base num sz)). ge cmp y x"
      unfolding m1(2) using sort_inv_extract [OF cmp inv0] 3 by simp_all
    obtain m2 where m2: "sift_down m1 base sz cmp swap (K * sz) (0 * sz) = Some m2" "heap (ge cmp) (elems m2 base num sz) 0 K"
      "permuted K (elems m1 base num sz) (elems m2 base num sz)" "same_outside base (num * sz) m1 m2"
      using sift_down_heap [OF cmp sw sz K(1,2) ext(1)] by blast
    have "sort_inv (ge cmp) (elems m1 base num sz) (Suc 0) K" using ext K 3 by (simp add: sort_inv_def)
    then have inv2: "sort_inv (ge cmp) (elems m2 base num sz) 0 K" using sort_inv_permuted [OF _ m2(3,2)] by simp
    have "0 + K < A + N" using 3 by simp
    from less.hyps [OF this inv2] obtain m' where m': "sort_loop base sz cmp swap m2 (0 * sz) (K * sz) = Some m'"
      "sorted_wrt (\<lambda>x y. ge cmp y x) (elems m' base num sz)" "mset (elems m' base num sz) = mset (elems m2 base num sz)"
      "same_outside base (num * sz) m2 m'" by blast
    have "sort_loop base sz cmp swap m (A * sz) (N * sz) = Some m'" using 3 sz(1) m1(1) m2(1) m'(1) by (subst unfold) simp
    then show ?thesis
      using m'(2,3) permuted_mset [OF m1(3)] permuted_mset [OF m2(3)] same_outside_trans [OF m1(4) same_outside_trans [OF m2(4) m'(4)]] by metis
  qed
qed

lemma sort_inv_start: "2 \<le> length xs \<Longrightarrow> sort_inv g xs (length xs div 2) (length xs)"
  by (auto simp: sort_inv_def heap_def)

text \<open>A swap function of the caller has to exchange two elements.\<close>

definition caller_swap_ok :: "(mem \<Rightarrow> nat \<Rightarrow> nat \<Rightarrow> nat \<Rightarrow> mem) option \<Rightarrow> bool" where
  "caller_swap_ok swap \<longleftrightarrow> (case swap of None \<Rightarrow> True | Some g \<Rightarrow> \<forall>m a b sz. apart a b sz \<longrightarrow> swaps m a b sz (g m a b sz))"

lemma sort_r_sorts:
  assumes cmp: "cmp_ok cmp" and sw: "caller_swap_ok swap" and sz: "sz < 2 ^ 32" "num * sz < 2 ^ 64"
  shows "\<exists>m'. sort_r m base num sz cmp swap = Some m' \<and> sorted_wrt (\<lambda>x y. ge cmp y x) (elems m' base num sz) \<and>
    mset (elems m' base num sz) = mset (elems m base num sz) \<and> same_outside base (num * sz) m m'"
proof (cases "(num div 2) * sz = 0")
  case True
  then have r: "sort_r m base num sz cmp swap = Some m" by (simp add: sort_r_def)
  have "sorted_wrt (\<lambda>x y. ge cmp y x) (elems m base num sz)"
  proof (cases "sz = 0")
    case True
    then have "elems m base num sz = replicate num []" by (simp add: elems_def elem_def map_replicate_const)
    then show ?thesis using cmp_refl [OF cmp] by (simp add: sorted_wrt_iff_nth_less)
  next
    case False
    then have "num < 2" using True by simp
    then show ?thesis by (simp add: sorted_wrt_iff_nth_less)
  qed
  then show ?thesis using r same_outside_refl by blast
next
  case False
  then have sz0: "0 < sz" and num: "2 \<le> num" by auto
  define f where "f = (case swap of None \<Rightarrow> choose_swap base sz | Some g \<Rightarrow> Swap_func g)"
  have "swap_ok f base sz"
  proof (cases swap)
    case None
    then show ?thesis using choose_swap_ok [OF sz0] by (simp add: f_def)
  next
    case (Some g)
    have "swaps m a b sz (g m a b sz)" if "apart a b sz" for m a b sz using sw Some that by (simp only: caller_swap_ok_def option.case)
    then show ?thesis using Some blocks_apart by (simp only: f_def swap_ok_def do_swap_def option.case swap_func.case) blast
  qed
  moreover have "sort_inv (ge cmp) (elems m base num sz) (num div 2) num" using sort_inv_start [of "elems m base num sz" "ge cmp"] num by simp
  ultimately show ?thesis using sort_loop_sorts [OF cmp _ sz0 sz, of f base m "num div 2" num] False by (simp add: sort_r_def f_def)
qed

section \<open>Binary search\<close>

text \<open>The elements in ascending order as the key sees them: with every element the key is not greater than, it is not
  greater than the following ones either.\<close>

definition key_sorted :: "('k \<Rightarrow> u8 list \<Rightarrow> int) \<Rightarrow> 'k \<Rightarrow> u8 list list \<Rightarrow> bool" where
  "key_sorted cmp key xs \<longleftrightarrow> (\<forall>i j. i < j \<and> j < length xs \<longrightarrow>
     (cmp key (xs ! i) < 0 \<longrightarrow> cmp key (xs ! j) < 0) \<and> (cmp key (xs ! j) > 0 \<longrightarrow> cmp key (xs ! i) > 0))"

lemma bsearch_loop_index:
  assumes so: "key_sorted cmp key (elems m base num sz)"
  shows "lo + n \<le> num \<Longrightarrow> \<forall>i < lo. cmp key (elems m base num sz ! i) \<noteq> 0 \<Longrightarrow>
    \<forall>i < num. lo + n \<le> i \<longrightarrow> cmp key (elems m base num sz ! i) \<noteq> 0 \<Longrightarrow>
    (case bsearch m key (base + lo * sz) n sz cmp of
       Some p \<Rightarrow> \<exists>i < num. p = base + i * sz \<and> cmp key (elems m base num sz ! i) = 0
     | None \<Rightarrow> \<forall>i < num. cmp key (elems m base num sz ! i) \<noteq> 0)"
proof (induction n arbitrary: lo rule: less_induct)
  case (less n)
  let ?xs = "elems m base num sz"
  show ?case
  proof (cases "n = 0")
    case True
    then show ?thesis using less.prems by (auto simp: bsearch.simps)
  next
    case False
    define h where "h = n div 2"
    define r where "r = cmp key (?xs ! (lo + h))"
    have h: "h < n" "lo + h < num" using False less.prems(1) by (auto simp: h_def)
    have pos: "base + lo * sz + h * sz = base + (lo + h) * sz" "base + (lo + h) * sz + sz = base + Suc (lo + h) * sz"
      by (simp_all add: algebra_simps)
    have el: "elem m (base + (lo + h) * sz) sz = ?xs ! (lo + h)" using h by (simp only: elems_nth)
    have unfold: "bsearch m key (base + lo * sz) n sz cmp =
       (if r = 0 then Some (base + (lo + h) * sz)
        else if 0 < r then bsearch m key (base + Suc (lo + h) * sz) ((n - 1) div 2) sz cmp
        else bsearch m key (base + lo * sz) h sz cmp)"
      using False by (subst bsearch.simps) (simp add: Let_def pos el flip: h_def r_def)
    consider "r = 0" | "0 < r" | "r < 0" by linarith
    then show ?thesis
    proof cases
      case 1
      then show ?thesis using h(2) unfold by (auto simp: r_def)
    next
      case 2
      have "Suc (lo + h) + (n - 1) div 2 = lo + n" using False by (simp add: h_def)
      moreover have "cmp key (?xs ! i) \<noteq> 0" if "i < Suc (lo + h)" for i
        using so 2 that h(2) unfolding key_sorted_def r_def by (metis less_irrefl less_Suc_eq length_elems)
      ultimately have "case bsearch m key (base + Suc (lo + h) * sz) ((n - 1) div 2) sz cmp of
         Some p \<Rightarrow> \<exists>i < num. p = base + i * sz \<and> cmp key (?xs ! i) = 0 | None \<Rightarrow> \<forall>i < num. cmp key (?xs ! i) \<noteq> 0"
        using less.prems h False by (intro less.IH) auto
      then show ?thesis using 2 unfold by simp
    next
      case 3
      have "cmp key (?xs ! i) \<noteq> 0" if "i < num" "lo + h \<le> i" for i
        using so 3 that unfolding key_sorted_def r_def by (metis less_irrefl le_neq_implies_less length_elems)
      then have "case bsearch m key (base + lo * sz) h sz cmp of
         Some p \<Rightarrow> \<exists>i < num. p = base + i * sz \<and> cmp key (?xs ! i) = 0 | None \<Rightarrow> \<forall>i < num. cmp key (?xs ! i) \<noteq> 0"
        using less.prems h False by (intro less.IH) auto
      then show ?thesis using 3 unfold by simp
    qed
  qed
qed

section \<open>Properties\<close>

definition byte_cmp :: "u8 list \<Rightarrow> u8 list \<Rightarrow> int" where
  "byte_cmp x y = int (unat (hd x)) - int (unat (hd y))"

lemma byte_cmp_ok: "cmp_ok (Cmp_func byte_cmp :: unit cmp_func)"
  by (auto simp: cmp_ok_def ge_def cmp_of_def byte_cmp_def)

text \<open>(C30) \<^verbatim>\<open>sort_r\<close> returns with the array in ascending order and with the same elements, and changes no byte outside
  of it, for every total and transitive comparison, whether it swaps by words, by bytes or with a function
  of the caller that exchanges two elements.\<close>

theorem sort_r_correct:
  assumes "cmp_ok cmp" and "caller_swap_ok swap" and "sz < 2 ^ 32" and "num * sz < 2 ^ 64"
  shows "\<exists>m'. sort_r m base num sz cmp swap = Some m' \<and> sorted_wrt (\<lambda>x y. ge cmp y x) (elems m' base num sz) \<and>
    mset (elems m' base num sz) = mset (elems m base num sz) \<and> same_outside base (num * sz) m m'"
  by (rule sort_r_sorts [OF assms])

theorem sort_r_correct_witness:
  "\<exists>m'. sort_r sample_mem 16 5 1 (Cmp_func byte_cmp :: unit cmp_func) None = Some m' \<and>
    sorted_wrt (\<lambda>x y. ge (Cmp_func byte_cmp :: unit cmp_func) y x) (elems m' 16 5 1) \<and>
    mset (elems m' 16 5 1) = mset [[104], [101], [108], [108], [111]] \<and> same_outside 16 5 sample_mem m'"
proof -
  have "elems sample_mem 16 5 1 = [[104], [101], [108], [108], [111]]"
    by (simp add: elems_def elem_def upt_conv_Cons sample_mem_def mem_at_def)
  then show ?thesis using sort_r_correct [OF byte_cmp_ok, of None 1 5 sample_mem 16] by (simp add: caller_swap_ok_def)
qed

text \<open>(C31) \<^verbatim>\<open>bsearch\<close> on an array in ascending order returns the address of an element that is equal to the key, and the
  null pointer only if there is none.\<close>

theorem bsearch_finds:
  assumes "key_sorted cmp key (elems m base num sz)"
  shows "case bsearch m key base num sz cmp of
      Some p \<Rightarrow> \<exists>i < num. p = base + i * sz \<and> cmp key (elems m base num sz ! i) = 0
    | None \<Rightarrow> \<forall>i < num. cmp key (elems m base num sz ! i) \<noteq> 0"
  using bsearch_loop_index [OF assms, of 0 num] by simp

theorem bsearch_finds_witness:
  "\<exists>i < 3. bsearch sample_mem [111] 18 3 1 byte_cmp = Some (18 + i) \<and> byte_cmp [111] ([[108], [108], [111]] ! i) = 0"
proof -
  have e: "elems sample_mem 18 3 1 = [[108], [108], [111]]"
    by (simp add: elems_def elem_def upt_conv_Cons sample_mem_def mem_at_def)
  have "key_sorted byte_cmp [111] (elems sample_mem 18 3 1)"
    unfolding e by (auto simp: key_sorted_def byte_cmp_def less_Suc_eq numeral_3_eq_3)
  note found = bsearch_finds [OF this, unfolded e]
  show ?thesis
  proof (cases "bsearch sample_mem [111] 18 3 1 byte_cmp")
    case None
    then have "\<forall>i < 3. byte_cmp [111] ([[108], [108], [111 :: u8]] ! i) \<noteq> 0" using found by simp
    from this [rule_format, of 2] show ?thesis by (simp add: byte_cmp_def)
  next
    case (Some p)
    then show ?thesis using found by auto
  qed
qed

end
