(* ===== verification/Spec2Isabelle.thy ===== *)
theory Spec2Isabelle
  imports Ch_Bootrd Memblock_Safety Printf_Spec Cmdline Llist Bitmap Sort_Spec
begin

text \<open>
  A verification library for cLinux, a Linux kernel for RISC-V that is split into components.  Every directory of the source
  tree is a component that is compiled to a relocatable file of its own.  The host tool \<^verbatim>\<open>tools/mk_bootrd\<close> finds out which components
  need which, packs them with one profile per top component into the image \<^verbatim>\<open>bootrd.disk\<close>, and \<^verbatim>\<open>tools/ch_bootrd\<close> selects the profile
  to boot.  The booter loads the components of that profile in the order it lists.  The first component that manages anything
  is \<^verbatim>\<open>memblock\<close>, the allocator of early memory; all of them call the base library in \<^verbatim>\<open>lib/src\<close> and \<^verbatim>\<open>math/src\<close>.  Modelled are the two
  tools, the early allocator and most of the base library.  Paths below are relative to \<^verbatim>\<open>src/\<close>.

  \<^bold>\<open>Shared vocabulary.\<close>  \<open>Prelude\<close> names the C integer types as words.  Code that can fail returns \<open>failure + 'a\<close>: \<open>Inl Exit\<close> where a tool
  calls \<^verbatim>\<open>exit\<close>, \<open>Inl Crash\<close> for a \<^verbatim>\<open>BUG_ON\<close> or an access that C does not define.  A loop for which the code gives no bound is a
  \<open>partial_function (option)\<close>, so that \<open>None\<close> means that it runs for ever, and what is proved is that it returns.  Memory is a function
  from natural addresses to bytes, and the null pointer is 0; \<open>cstr m p s\<close> says that a NUL-terminated string lies at \<open>p\<close>.

  \<^bold>\<open>The tools\<close> (\<^verbatim>\<open>tools/mk_bootrd/main.c\<close>, \<^verbatim>\<open>module.h\<close>, \<^verbatim>\<open>tools/ch_bootrd/main.c\<close>).
  \<^item> \<open>Dep_Graph\<close>: the record \<open>tool\<close> holds the lists \<^verbatim>\<open>modules\<close>, \<^verbatim>\<open>symbols\<close> and \<^verbatim>\<open>fixups\<close>, and the \<^verbatim>\<open>module\<close> and \<^verbatim>\<open>depend\<close> objects in stores by
    address, because \<open>match_undef\<close> leaves \<^verbatim>\<open>next\<close> links in them that later symbols see.  The edges are exactly those from a module to
    the exporters of its undefined symbols; a component that exports a name twice makes the tool hang, and a stale link makes
    it report a conflict that is none.
  \<^item> \<open>Elf_Scan\<close>: section headers, string tables and symbol tables of a component file, the exported names, the names of the booter.
  \<^item> \<open>Dep_Traverse\<close>: the recursive walk \<open>traverse_dependency\<close>.  It takes fuel for the depth of the recursion; one unit per module and one
    for the booter are enough on every graph, cyclic ones included.  It succeeds exactly on acyclic graphs and gives a topological
    order.  The white and black lists of a profile are set up here.
  \<^item> \<open>Bootrd_Image\<close>: the image with its modules and profiles, up to \<open>mk_bootrd_main\<close>.  The layout of the headers is in \<^verbatim>\<open>bootrd.h\<close>, which is not
    in the repository, and the JSON files are read by a library; both are fields of the record \<open>host\<close>.
  \<^item> \<open>Ch_Bootrd\<close>: the listing of the profiles and the selection of one.  The section below puts both tools together.

  \<^bold>\<open>The early allocator\<close> (\<^verbatim>\<open>memblock/src/memblock.c\<close>, \<^verbatim>\<open>include/linux/memblock.h\<close>).
  \<^item> \<open>Memblock\<close>: the arrays of regions with the index loops of the code.  \<open>Memblock_Refine\<close>: an array means a map from addresses to
    flags; adding, isolating, removing and merging are related to that map.
  \<^item> \<open>Memblock_Find\<close>: the iterators over free memory and the searches from below and from above.
  \<^item> \<open>Memblock_Alloc\<close>: the global state and the operations on it.  Growing the array of reserved regions reserves its new place in the
    same array, so the operations call each other and take fuel; three units are enough while the arrays may not be resized; when
    they may, a request keeps its contract for every amount of fuel with which it returns.
  \<^item> \<open>Memblock_Safety\<close>: the contract of the requests is the locale \<open>memblock_calls\<close>, that of an allocation the locale \<open>block_allocator\<close>; both are
    interpreted on the model.  Allocated blocks are aligned, lie in free memory and never overlap; an allocation fails only when there
    is no room; every sequence of calls, the inductive relation \<open>mb_run\<close>, keeps the arrays sorted, disjoint and in step with their total size.

  \<^bold>\<open>The base library.\<close>
  \<^item> \<open>Ctype\<close>, \<open>Kstring\<close>, \<open>Kstring_Spec\<close> (\<^verbatim>\<open>lib/src/ctype.c\<close>, \<^verbatim>\<open>string.c\<close>): operations on byte memory and what they do to strings, overlapping
    copies and the word-wise search included.
  \<^item> \<open>Kstrtox\<close> (\<^verbatim>\<open>kstrtox.c\<close>): what a string denotes, as an integer without bounds, and that each conversion returns it or \<^verbatim>\<open>-ERANGE\<close>.
  \<^item> \<open>Printf_Number\<close>, \<open>Printf\<close>, \<open>Printf_Spec\<close> (\<^verbatim>\<open>vsprintf.c\<close>): every character goes through \<open>emit\<close>, which writes below the end of the buffer and
    always advances; \<open>vsnprintf\<close> refines the function \<open>vs_text\<close> from formats to texts.
  \<^item> \<open>Cmdline\<close> (\<^verbatim>\<open>cmdline.c\<close>): numbers, ranges, sizes and arguments of the command line, with a range that escapes its array.
  \<^item> \<open>Siphash\<close> (\<^verbatim>\<open>siphash.c\<close>, \<^verbatim>\<open>include/linux/siphash.h\<close>): all variants compute one reference function of the bytes.
  \<^item> \<open>Bitops\<close>, \<open>Find_Bit\<close>, \<open>Hweight\<close>, \<open>Bitmap\<close> (\<^verbatim>\<open>include/asm-generic/bitops\<close>, \<^verbatim>\<open>find_bit.c\<close>, \<^verbatim>\<open>hweight.c\<close>, \<^verbatim>\<open>bitmap.c\<close>): which bit a search finds, how
    many bits are set, ranges and free areas.  The iteration macros rest on the locale \<open>bit_search\<close>.
  \<^item> \<open>Kmath\<close> (\<^verbatim>\<open>math/src\<close>): \<^verbatim>\<open>gcd\<close>, \<^verbatim>\<open>lcm\<close>, division by multiplication and by subtraction, at their widths.
  \<^item> \<open>Sort\<close>, \<open>Sort_Spec\<close> (\<^verbatim>\<open>sort.c\<close>, \<^verbatim>\<open>include/linux/bsearch.h\<close>): the bottom-up heap sort on bytes sorts, with any of its swap functions.
  \<^item> \<open>Llist\<close> (\<^verbatim>\<open>llist.c\<close>, \<^verbatim>\<open>include/linux/llist.h\<close>): the lock-less list, step by step; every interleaving that keeps the rules of use behaves
    as a stack.

  \<^bold>\<open>Configuration.\<close>  The build is 64-bit and little-endian with one memory node; \<^verbatim>\<open>char\<close> is unsigned; signed arithmetic wraps around, as with
  \<^verbatim>\<open>-fno-strict-overflow\<close>.  Natural addresses do not wrap around, so objects at the very end of the address space are outside the model.

  \<^bold>\<open>Not modelled.\<close>  The booter and the components above the base library (memory management proper, scheduling, file systems, the
  network stack, drivers): they work on page tables, control registers and structures shared between processors.  Of the modelled
  files, what is commented out or not compiled for this configuration, the printers that only print, and the functions that
  the manifest lists as missing.  Allocation by \<^verbatim>\<open>malloc\<close> and writing to files succeed.
\<close>

section \<open>The two tools together\<close>

text \<open>The profiles of an image as blocks.\<close>

definition top_block :: "host \<Rightarrow> tool \<Rightarrow> nat \<Rightarrow> nat list \<Rightarrow> block" where
  "top_block H T m ord =
     (\<lparr>ph_version = 1, ph_total_size = sizeof_profile_header H + 8 * length ord, ph_mod_num = length ord,
       ph_sname = sname_of H (m_name (mods T m))\<rparr>, concat (map (\<lambda>x. le_bytes 8 (mod_off T x)) ord))"

lemma top_block_bytes: "block_bytes H (top_block H T m ord) = profile_block H T m ord"
  by (simp add: block_bytes_def top_block_def profile_block_def)

lemma length_offsets: "length (concat (map (\<lambda>x. le_bytes 8 (f x)) ord)) = 8 * length ord"
  by (induction ord) simp_all

text \<open>The names of top components are C strings.\<close>

definition names_ok :: "tool \<Rightarrow> nat list \<Rightarrow> bool" where
  "names_ok T ms \<longleftrightarrow> (\<forall>m \<in> set ms. CHR 0x00 \<notin> set (m_name (mods T m)))"

lemma top_block_ok:
  assumes "headers_ok H" "0 < sizeof_sname H" "CHR 0x00 \<notin> set (m_name (mods T m))" "length (profile_block H T m ord) < 2 ^ 32"
  shows "block_ok H (top_block H T m ord)"
proof -
  have "length (profile_block H T m ord) = sizeof_profile_header H + 8 * length ord"
    using assms(1) by (simp add: profile_block_def headers_ok_def length_offsets)
  moreover have "set (sname_of H (m_name (mods T m))) \<subseteq> set (m_name (mods T m))"
    by (auto simp: sname_of_def Let_def split: option.splits dest!: in_set_takeD in_set_dropD)
  moreover have "length (sname_of H (m_name (mods T m))) < sizeof_sname H"
    using assms(2) by (simp add: sname_of_def Let_def min_less_iff_disj)
  ultimately show ?thesis using assms(3,4) by (auto simp: block_ok_def top_block_def fits_profile_header_def length_offsets)
qed

lemma length_block_le: "x \<in> set xs \<Longrightarrow> length x \<le> length (concat xs)"
  by (induction xs) auto

section \<open>The graph of a run\<close>

text \<open>What the search for modules leaves: modules numbered from 1 with names from the directory, and no edges yet.\<close>

definition discovered :: "host \<Rightarrow> tool \<Rightarrow> bool" where
  "discovered H T \<longleftrightarrow> modules T = [1..<Suc (num_modules T)] \<and> symbols T = [] \<and>
     (\<forall>m. dependencies (mods T m) = [] \<and> num_dependencies (mods T m) = 0) \<and>
     (\<forall>m \<in> set (modules T). m_name (mods T m) \<in> fst ` set (entries H))"

lemma discover_loop_discovered:
  "discover_loop H names hb hm T fp = Inr (hb', hm', T', fp') \<Longrightarrow> set names \<subseteq> fst ` set (entries H) \<Longrightarrow> discovered H T \<Longrightarrow> discovered H T'"
proof (induction names arbitrary: hb hm T fp)
  case (Cons name names)
  from Cons.prems(1) obtain ok where ok: "check_module name = Inr ok" by (auto simp: run_simps)
  show ?case
  proof (cases ok)
    case False
    then show ?thesis using Cons.prems ok Cons.IH by (auto split: if_splits)
  next
    case True
    let ?m = "Suc (num_modules T)"
    let ?T = "T\<lparr>mods := (mods T)(?m := new_module name []), modules := modules T @ [?m], num_modules := ?m\<rparr>"
    from Cons.prems(1) True ok obtain T1 fp1 where
      w: "write_mod_to_bootrd H ?m ?T fp = Inr (T1, fp1)" and rest: "discover_loop H names hb hm T1 fp1 = Inr (hb', hm', T', fp')"
      by (auto simp: run_simps Let_def)
    have T1: "T1 = ?T\<lparr>mods := (mods ?T)(?m := (mods ?T ?m)\<lparr>offset_in_file := word_of_nat (f_pos fp)\<rparr>)\<rparr>"
      using w by (auto simp: write_mod_to_bootrd_def run_simps split: if_splits)
    have "discovered H T1" using Cons.prems(2,3) unfolding T1 discovered_def by (auto simp: new_module_def)
    then show ?thesis using Cons.IH [OF rest] Cons.prems(2) by simp
  qed
qed simp

lemma build_all_names:
  "graph_wf T \<Longrightarrow> syms_ok (symbols T) \<Longrightarrow> build_all ms T = Some T' \<Longrightarrow> m_name (mods T' m) = m_name (mods T m)"
proof (induction ms arbitrary: T)
  case (Cons k ms)
  obtain T1 where T1: "build_dependency k T = Some T1" "graph_wf T1" "frame k T T1"
    using build_dependency_spec [OF Cons.prems(1,2)] by blast
  have "m_name (mods T' m) = m_name (mods T1 m)"
    using Cons.IH [OF T1(2)] Cons.prems(2,3) T1(1,3) by (simp add: frame_def)
  then show ?case using T1(3) by (cases "m = k") (auto simp: frame_def)
qed simp

text \<open>
  The graph that the last loop of \<open>sort_modules\<close> walks is one that the walk expects, if no component exports a name twice.
\<close>

lemma sort_modules_ready:
  assumes disc: "discover_modules H empty_tool fp = Inr (T1, fp1)"
    and scan: "bind_run (init_symtable (host_file H) T1) (analyse_all (host_file H) (modules T1)) = Inr T2"
    and syms: "distinct (symbols T2)" and build: "build_all (modules T2) T2 = Some T3"
    and names: "\<forall>name \<in> fst ` set (entries H). length name < 2 ^ 64 \<and> CHR 0x00 \<notin> set name"
  shows "graph_ready T3" and "names_ok T3 (modules T3)" and "modules T3 = modules T1"
proof -
  have "discovered H empty_tool" by (simp add: discovered_def empty_tool_def new_tool_def new_module_def)
  moreover obtain hb hm where "discover_loop H (rev (map fst (entries H))) False False empty_tool fp = Inr (hb, hm, T1, fp1)"
    using disc by (auto simp: discover_modules_def run_simps split: if_splits)
  ultimately have T1: "discovered H T1" using discover_loop_discovered [of H "rev (map fst (entries H))"] by auto
  then have "modules T1 = [1..<Suc (num_modules T1)]" by (simp add: discovered_def)
  then have ms: "sorted (modules T1)" "distinct (modules T1)" "booter \<notin> set (modules T1)" by (simp_all add: booter_def del: upt_Suc)
  obtain ss where init: "init_symtable (host_file H) T1 = Inr (add_exports booter ss T1)"
    "analyse_all (host_file H) (modules T1) (add_exports booter ss T1) = Inr T2"
    using scan by (auto simp: init_symtable_def run_simps Let_def split: option.splits prod.splits)
  obtain rest where fr: "symbols T2 = symbols (add_exports booter ss T1) @ rest" "\<forall>sy \<in> set rest. s_mod sy \<in> set (modules T1)"
    "sorted (map s_mod rest)" "\<forall>m. dependencies (mods T2 m) = [] \<and> m_name (mods T2 m) = m_name (mods T1 m) \<and> num_dependencies (mods T2 m) = 0"
    "modules T2 = modules T1"
    using analyse_all_frame [OF init(2)] T1 ms(1) by (auto simp: add_exports_def discovered_def)
  have sym2: "symbols T2 = map (\<lambda>s. \<lparr>s_name = s, s_mod = booter\<rparr>) ss @ rest" using fr(1) T1 by (simp add: add_exports_def discovered_def)
  have "sorted (map (\<lambda>_. 0 :: nat) ss)" by (induction ss) simp_all
  then have "sorted (map s_mod (symbols T2))" unfolding sym2 using fr(3) by (simp add: sorted_append comp_def booter_def)
  then have so: "syms_ok (symbols T2)" using syms by (simp add: syms_ok_def)
  have wf: "graph_wf T2" using fr(4) by (simp add: graph_wf_def mod_wf_def links_ok_def)
  obtain T' where T': "build_all (modules T2) T2 = Some T'" "modules T' = modules T2"
    "\<And>m. m \<notin> set (modules T2) \<Longrightarrow> mods T' m = mods T2 m"
    "\<And>m. m \<in> set (modules T2) \<Longrightarrow> targets T' m = targets T2 m \<union> (\<Union>u \<in> set (undef_syms (mods T2 m)). exporters (symbols T2) u)"
    using build_all_spec [OF wf so, of "modules T2"] ms(2) fr(5) by auto
  then have T3: "T' = T3" using build by simp
  have nm: "m_name (mods T3 m) = m_name (mods T1 m)" for m using build_all_names [OF wf so build] fr(4) by simp
  have "targets T3 m \<subseteq> insert booter (set (modules T1))" if "m \<in> set (modules T1)" for m
    using T'(4) [of m] that fr(2,4,5) unfolding T3 sym2 by (auto simp: targets_def exporters_def)
  moreover have "dependencies (mods T3 booter) = []" using T'(3) [of booter] ms(3) fr(4,5) unfolding T3 by simp
  moreover have "length (m_name (mods T3 m)) < 2 ^ 64 \<and> CHR 0x00 \<notin> set (m_name (mods T3 m))" if "m \<in> set (modules T1)" for m
  proof -
    have "m_name (mods T1 m) \<in> fst ` set (entries H)" using T1 that unfolding discovered_def by blast
    then show ?thesis unfolding nm using names by blast
  qed
  ultimately show "graph_ready T3" "names_ok T3 (modules T3)" "modules T3 = modules T1"
    using ms(3) T'(2) fr(5) unfolding T3 by (auto simp: graph_ready_def names_ok_def)
qed

text \<open>The header of an image to which no profile has been written.\<close>

definition fresh_header :: "bootrd_header \<Rightarrow> bool" where
  "fresh_header h \<longleftrightarrow> fits_bootrd_header h \<and> bh_version h = 1 \<and> bh_profile_offset h = 0 \<and> bh_profile_num h = 0"

lemma profiled_image:
  assumes ok: "codec_ok H R" "0 < sizeof_sname H" "sizeof_bootrd_header H \<le> length (f_data (st_fp S))" "f_data (st_fp S) \<noteq> []"
    and fresh: "fresh_header (st_hdr S)"
    and run: "graph_ready T" "names_ok T ms" "set ms \<subseteq> set (modules T)" "tops_inv S" "sort_tops H T ms S = Some (Inr S')"
    and img: "complete_bootrd H False (st_hdr S') (st_fp S') = Inr (Some img)" "length (f_data (st_fp S')) < BOOTRD_SIZE"
    and some: "tops_of T ms \<noteq> []"
  obtains ords bs h front rest where
    "list_all2 (\<lambda>m. profile_order (profile_env H T m) m) (tops_of T ms) ords" "bs = map2 (top_block H T) (tops_of T ms) ords"
    "img = enc_bootrd_header H h @ front @ concat (map (block_bytes H) bs) @ rest"
    "list_all (block_ok H) bs" "fits_bootrd_header h" "bh_version h = 1" "bh_profile_num h = length bs"
    "bh_profile_offset h = length (enc_bootrd_header H h @ front)" "bh_profile_offset h + length (concat (map (block_bytes H) bs)) < BOOTRD_SIZE"
proof -
  obtain ords where o: "list_all2 (\<lambda>m. profile_order (profile_env H T m) m) (tops_of T ms) ords" "tops_inv S'"
    "f_data (st_fp S') = f_data (st_fp S) @ concat (map2 (profile_block H T) (tops_of T ms) ords)" "header_points S S' (tops_of T ms)"
    using sort_tops_blocks [OF run(1,3,4,5)] ok by (auto simp: codec_ok_def)
  define bs where "bs = map2 (top_block H T) (tops_of T ms) ords"
  define h where "h = (st_hdr S')\<lparr>bh_total_size := length (f_data (st_fp S'))\<rparr>"
  define front where "front = drop (sizeof_bootrd_header H) (f_data (st_fp S))"
  let ?bytes = "concat (map (block_bytes H) bs)"
  have hok: "headers_ok H" and hdr: "length (enc_bootrd_header H x) = sizeof_bootrd_header H" for x
    using ok(1) by (simp_all add: codec_ok_def headers_ok_def)
  have "map (block_bytes H) bs = map2 (profile_block H T) (tops_of T ms) ords"
    by (simp add: bs_def comp_def case_prod_beta top_block_bytes)
  then have data: "f_data (st_fp S') = f_data (st_fp S) @ ?bytes" using o(3) by simp
  have small: "length (f_data (st_fp S')) < 2 ^ 25" using img(2) by (simp add: BOOTRD_SIZE_def)
  have pos: "f_pos (st_fp S) = length (f_data (st_fp S))" "f_pos (st_fp S') = length (f_data (st_fp S'))"
    using run(4) o(2) by (simp_all add: tops_inv_def)
  have "complete_bootrd H False (st_hdr S') (st_fp S') = Inr (Some (enc_bootrd_header H h @
      drop (sizeof_bootrd_header H) (take (BOOTRD_SIZE - 1) (f_data (st_fp S'))) @
      replicate (BOOTRD_SIZE - min (BOOTRD_SIZE - 1) (length (f_data (st_fp S')))) 0))"
    using complete_bootrd_eq [OF hok pos(2)] ok(3) data img(2) small by (simp add: h_def)
  moreover have "drop (sizeof_bootrd_header H) (take (BOOTRD_SIZE - 1) (f_data (st_fp S'))) = front @ ?bytes"
    using img(2) ok(3) data by (simp add: front_def)
  ultimately obtain rest where image: "img = enc_bootrd_header H h @ front @ ?bytes @ rest" using img(1) by auto
  have len: "length bs = length (tops_of T ms)" using list_all2_lengthD [OF o(1)] by (simp add: bs_def)
  have blocks: "block_ok H b" if b_in: "b \<in> set bs" for b
  proof -
    obtain m ord where b: "b = top_block H T m ord" "m \<in> set (tops_of T ms)"
      using b_in by (auto simp: bs_def dest: set_zip_leftD)
    have "length (block_bytes H b) \<le> length ?bytes" using b_in by (intro length_block_le) simp
    then show ?thesis using top_block_ok [OF hok ok(2)] b run(2) small data by (auto simp: names_ok_def tops_of_def top_block_bytes)
  qed
  have "length bs \<le> length ?bytes" by (rule blocks_length [OF ok(1)])
  moreover have hp: "bh_profile_num h = length bs" "bh_profile_offset h = length (f_data (st_fp S))" "bh_version h = 1"
    "bh_mod_offset h = bh_mod_offset (st_hdr S)" "bh_mod_num h = bh_mod_num (st_hdr S)"
    "bh_current_profile h \<le> max (bh_current_profile (st_hdr S)) (length (f_data (st_fp S')))"
    using o(4) fresh some len pos by (simp_all add: header_points_def Let_def h_def fresh_header_def)
  moreover have "bh_total_size h = length (f_data (st_fp S'))" by (simp add: h_def)
  ultimately have fit: "fits_bootrd_header h" using fresh small data by (auto simp: fits_bootrd_header_def fresh_header_def)
  show ?thesis
  proof (rule that [OF o(1) bs_def image _ fit hp(3,1)])
    show "list_all (block_ok H) bs" using blocks by (simp add: list_all_iff)
    show "bh_profile_offset h = length (enc_bootrd_header H h @ front)" using hp(2) hdr ok(3) by (simp add: front_def)
    show "bh_profile_offset h + length ?bytes < BOOTRD_SIZE" using hp(2) data img(2) by simp
  qed
qed

text \<open>
  (C1) What \<^verbatim>\<open>mk_bootrd\<close> writes, \<^verbatim>\<open>ch_bootrd\<close> can use: on a finished image, selecting the profile with number \<open>i\<close> succeeds, lists the
  profiles under the names of the top components, marks number \<open>i\<close> and no other, and changes nothing in the image but the field
  of the header that names the current profile.  At the offset that is stored there lies the profile of the \<open>i\<close>-th top
  component, which lists what that component needs in a topological order.  Looking at the image afterwards prints the
  same lines and leaves the image as it is.
\<close>

theorem switch_profile:
  assumes ok: "codec_ok H R" "0 < sizeof_sname H" "sizeof_bootrd_header H \<le> length (f_data (st_fp S))" "f_data (st_fp S) \<noteq> []"
    and fresh: "fresh_header (st_hdr S)"
    and run: "graph_ready T" "names_ok T ms" "set ms \<subseteq> set (modules T)" "tops_inv S" "sort_tops H T ms S = Some (Inr S')"
    and img: "complete_bootrd H False (st_hdr S') (st_fp S') = Inr (Some img)" "length (f_data (st_fp S')) < BOOTRD_SIZE"
    and i: "i < length (tops_of T ms)"
  shows "\<exists>out img' h off ord.
    ch_bootrd_main H R (int i) img = Inr (out, img') \<and>
    map (\<lambda>(_, _, name, _). name) out = map (\<lambda>m. sname_of H (m_name (mods T m))) (tops_of T ms) \<and>
    (\<forall>k < length out. fst (out ! k) \<longleftrightarrow> k = i) \<and> snd (snd (snd (out ! i))) = off \<and>
    drop (sizeof_bootrd_header H) img' = drop (sizeof_bootrd_header H) img \<and>
    dec_bootrd_header R (take (sizeof_bootrd_header H) img) = Some h \<and>
    dec_bootrd_header R (take (sizeof_bootrd_header H) img') = Some (h\<lparr>bh_current_profile := off\<rparr>) \<and>
    profile_order (profile_env H T (tops_of T ms ! i)) (tops_of T ms ! i) ord \<and>
    take (length (profile_block H T (tops_of T ms ! i) ord)) (drop off img') = profile_block H T (tops_of T ms ! i) ord \<and>
    ch_bootrd_main H R (- 1) img' = Inr (out, img')"
proof -
  have some: "tops_of T ms \<noteq> []" using i by auto
  obtain ords bs h front rest where
    o: "list_all2 (\<lambda>m. profile_order (profile_env H T m) m) (tops_of T ms) ords" "bs = map2 (top_block H T) (tops_of T ms) ords"
    and image: "img = enc_bootrd_header H h @ front @ concat (map (block_bytes H) bs) @ rest"
    and bs: "list_all (block_ok H) bs" and h: "fits_bootrd_header h" "bh_version h = 1" "bh_profile_num h = length bs"
    and off: "bh_profile_offset h = length (enc_bootrd_header H h @ front)" "bh_profile_offset h + length (concat (map (block_bytes H) bs)) < BOOTRD_SIZE"
    by (rule profiled_image [OF ok fresh run img some])
  define tail where "tail = front @ concat (map (block_bytes H) bs) @ rest"
  define p where "p = block_off (bh_profile_offset h) bs i"
  define h' where "h' = h\<lparr>bh_current_profile := p\<rparr>"
  define out where "out = listing (int i) (bh_current_profile h) 0 (bh_profile_offset h) bs"
  have hdr: "length (enc_bootrd_header H x) = sizeof_bootrd_header H" for x using ok(1) by (simp add: codec_ok_def headers_ok_def)
  have len: "length bs = length (tops_of T ms)" "length ords = length (tops_of T ms)" using list_all2_lengthD [OF o(1)] by (simp_all add: o(2))
  then have ib: "i < length bs" using i by simp
  have nth: "bs ! k = top_block H T (tops_of T ms ! k) (ords ! k)" if "k < length bs" for k using that len by (simp add: o(2))
  note sel = ch_bootrd_selects(2-4) [OF ok(1) bs h off ib, where rest = rest, folded p_def out_def tail_def h'_def]
  note fit = ch_bootrd_selects(1) [OF ok(1) bs h off ib, folded p_def h'_def]
  have out: "out ! k = (k = i, k, sname_of H (m_name (mods T (tops_of T ms ! k))), block_off (bh_profile_offset h) bs k)" if "k < length bs" for k
    using that listing_nth [OF that] nth [OF that] by (auto simp: out_def top_block_def)
  have dec: "dec_bootrd_header R (enc_bootrd_header H x) = Some x" if "fits_bootrd_header x" for x using ok(1) that by (simp add: codec_ok_def)
  show ?thesis
  proof (intro exI conjI)
    show "ch_bootrd_main H R (int i) img = Inr (out, enc_bootrd_header H h' @ tail)" using sel(1) by (simp add: image tail_def)
    show "map (\<lambda>(_, _, name, _). name) out = map (\<lambda>m. sname_of H (m_name (mods T m))) (tops_of T ms)"
      by (rule nth_equalityI) (use out len in \<open>auto simp: out_def\<close>)
    show "\<forall>k < length out. fst (out ! k) \<longleftrightarrow> k = i" using out by (simp add: out_def)
    show "snd (snd (snd (out ! i))) = p" using out [OF ib] by (simp add: p_def)
    show "drop (sizeof_bootrd_header H) (enc_bootrd_header H h' @ tail) = drop (sizeof_bootrd_header H) img" using hdr by (simp add: image tail_def)
    show "dec_bootrd_header R (take (sizeof_bootrd_header H) img) = Some h" using dec [OF h(1)] hdr by (simp add: image)
    show "dec_bootrd_header R (take (sizeof_bootrd_header H) (enc_bootrd_header H h' @ tail)) = Some (h\<lparr>bh_current_profile := p\<rparr>)"
      using dec [OF fit] hdr by (simp flip: h'_def)
    show "profile_order (profile_env H T (tops_of T ms ! i)) (tops_of T ms ! i) (ords ! i)" using list_all2_nthD [OF o(1) i] .
    show "take (length (profile_block H T (tops_of T ms ! i) (ords ! i))) (drop p (enc_bootrd_header H h' @ tail)) = profile_block H T (tops_of T ms ! i) (ords ! i)"
      using sel(3) unfolding nth [OF ib] top_block_bytes .
    show "ch_bootrd_main H R (- 1) (enc_bootrd_header H h' @ tail) = Inr (out, enc_bootrd_header H h' @ tail)" by (rule sel(2))
  qed
qed


section \<open>A run of both tools\<close>

text \<open>An image with 32-bit numbers in its headers and 32 bytes for a name.\<close>

definition enc_bh :: "bootrd_header \<Rightarrow> u8 list" where
  "enc_bh h = le_bytes 4 (bh_version h) @ le_bytes 4 (bh_total_size h) @ le_bytes 4 (bh_mod_offset h) @ le_bytes 4 (bh_mod_num h) @
     le_bytes 4 (bh_profile_offset h) @ le_bytes 4 (bh_profile_num h) @ le_bytes 4 (bh_current_profile h)"

definition dec_bh :: "u8 list \<Rightarrow> bootrd_header option" where
  "dec_bh b = Some \<lparr>bh_version = field 0 4 b, bh_total_size = field 4 4 b, bh_mod_offset = field 8 4 b, bh_mod_num = field 12 4 b,
     bh_profile_offset = field 16 4 b, bh_profile_num = field 20 4 b, bh_current_profile = field 24 4 b\<rparr>"

definition enc_ph :: "profile_header \<Rightarrow> u8 list" where
  "enc_ph h = le_bytes 4 (ph_version h) @ le_bytes 4 (ph_total_size h) @ le_bytes 4 (ph_mod_num h) @
     take 32 (bytes (ph_sname h) @ replicate 32 0)"

definition dec_ph :: "u8 list \<Rightarrow> profile_header option" where
  "dec_ph b = Some \<lparr>ph_version = field 0 4 b, ph_total_size = field 4 4 b, ph_mod_num = field 8 4 b,
     ph_sname = chars (takeWhile (\<lambda>c. c \<noteq> 0) (drop 12 b))\<rparr>"

definition host_rd :: host where
  "host_rd = host_ex\<lparr>enc_bootrd_header := enc_bh, sizeof_bootrd_header := 28, enc_profile_header := enc_ph, sizeof_profile_header := 44\<rparr>"

definition reader_rd :: reader where
  "reader_rd = \<lparr>dec_bootrd_header = dec_bh, dec_profile_header = dec_ph\<rparr>"

lemma bytes_nonzero: "CHR 0x00 \<notin> set s \<Longrightarrow> 0 \<notin> set (bytes s)"
proof (induction s)
  case (Cons c s)
  have "(word_of_nat (of_char c) :: u8) = 0 \<Longrightarrow> c = CHR 0x00"
  proof -
    assume "(word_of_nat (of_char c) :: u8) = 0"
    then have "unat (word_of_nat (of_char c) :: u8) = 0" by simp
    moreover have "(of_char c :: nat) < 256" by simp
    ultimately have "(of_char c :: nat) = of_char (CHR 0x00)" by (simp add: unat_of_nat)
    then show "c = CHR 0x00" by (simp only: of_char_eq_iff)
  qed
  then show ?case using Cons by (auto simp: bytes_def)
qed (simp add: bytes_def)

lemma codec_rd: "codec_ok host_rd reader_rd"
proof -
  have f: "field n 4 (a @ le_bytes 4 x @ b) = x" if "length a = n" "x < 2 ^ 32" for a n x b
    using that le_nat_le_bytes [of 4 x] by (simp add: field_def)
  have bh: "dec_bh (enc_bh h) = Some h" if fit: "fits_bootrd_header h" for h
  proof -
    obtain v t mo mn po pn c where h: "h = \<lparr>bh_version = v, bh_total_size = t, bh_mod_offset = mo, bh_mod_num = mn, bh_profile_offset = po,
        bh_profile_num = pn, bh_current_profile = c\<rparr>" by (cases h)
    show ?thesis
      using fit f [of "[]" 0 v] f [of "le_bytes 4 v" 4 t] f [of "le_bytes 4 v @ le_bytes 4 t" 8 mo] f [of "le_bytes 4 v @ le_bytes 4 t @ le_bytes 4 mo" 12 mn]
        f [of "le_bytes 4 v @ le_bytes 4 t @ le_bytes 4 mo @ le_bytes 4 mn" 16 po] f [of "le_bytes 4 v @ le_bytes 4 t @ le_bytes 4 mo @ le_bytes 4 mn @ le_bytes 4 po" 20 pn]
        f [of "le_bytes 4 v @ le_bytes 4 t @ le_bytes 4 mo @ le_bytes 4 mn @ le_bytes 4 po @ le_bytes 4 pn" 24 c "[]"]
      by (simp add: dec_bh_def enc_bh_def h fits_bootrd_header_def)
  qed
  have ph: "dec_ph (enc_ph h) = Some h" if fit: "fits_profile_header host_rd h" for h
  proof -
    obtain v t mn s where h: "h = \<lparr>ph_version = v, ph_total_size = t, ph_mod_num = mn, ph_sname = s\<rparr>" by (cases h)
    have s: "length s < 32" "0 \<notin> set (bytes s)" using fit bytes_nonzero by (simp_all add: fits_profile_header_def h host_rd_def host_ex_def)
    then have pad: "take 32 (bytes s @ replicate 32 0) = bytes s @ 0 # replicate (31 - length s) 0"
      by (simp add: bytes_def replicate_Suc [symmetric] Suc_diff_le del: replicate_Suc)
    have "\<forall>c \<in> set (bytes s). c \<noteq> 0" using s(2) by auto
    then have name: "takeWhile (\<lambda>c. c \<noteq> 0) (bytes s @ 0 # replicate (31 - length s) 0) = bytes s" by (simp add: takeWhile_append2)
    show ?thesis
      using fit f [of "[]" 0 v] f [of "le_bytes 4 v" 4 t] f [of "le_bytes 4 v @ le_bytes 4 t" 8 mn]
      by (simp add: dec_ph_def enc_ph_def h pad name fits_profile_header_def del: take_append)
  qed
  have "length (enc_bh h) = 28" "length (enc_ph g) = 44" for h g by (simp_all add: enc_bh_def enc_ph_def)
  then show ?thesis using bh ph by (simp add: codec_ok_def headers_ok_def host_rd_def reader_rd_def)
qed

theorem switch_profile_witness:
  "\<exists>img out img'. ch_bootrd_main host_rd reader_rd 0 img = Inr (out, img') \<and> map (\<lambda>(_, _, name, _). name) out = [''a''] \<and>
     ch_bootrd_main host_rd reader_rd (- 1) img' = Inr (out, img')"
proof -
  let ?T = "graph env_ex"
  let ?S = "\<lparr>st_walk = walk_start False, st_hdr = fst (create_bootrd host_rd), st_fp = \<lparr>f_data = replicate 28 0, f_pos = 28\<rparr>, st_json = []\<rparr>"
  have env: "profile_env host_rd ?T m = env_ex" for m by (simp add: profile_env_def host_rd_def host_ex_def env_ex_def)
  have ready: "graph_ready ?T" by (auto simp: graph_ready_def env_ex_simps targets_def split: if_splits)
  have names: "m_name (mods ?T 1) = ''top_a.ko''" "m_name (mods ?T 2) = ''b.ko''" "num_modules ?T = 2" "fixups ?T = []" "modules ?T = [1, 2]" "\<not> verify env_ex"
    by (simp_all add: env_ex_simps)
  have st: "(walk_start False)\<lparr>profile_mods := [], json_deps := []\<rparr> = walk_start False" by (simp add: walk_start_def)
  have enc: "enc_profile_header host_rd = enc_ph" "length (enc_ph h) = 44" for h by (simp_all add: host_rd_def enc_ph_def)
  have "\<exists>S'. sort_tops host_rd ?T [1, 2] ?S = Some (Inr S') \<and> length (f_data (st_fp S')) < 100"
    by (simp add: sort_top_def names env st env_ex_run env_ex_final_def append_fixups_to_profile_def enc fwrite_def
        strncmp_eq_def write_profile_to_bootrd_def Let_def take_Suc_Cons [of 0, folded One_nat_def] del: One_nat_def)
  then obtain S' where S': "sort_tops host_rd ?T [1, 2] ?S = Some (Inr S')" and short: "length (f_data (st_fp S')) < 100" by blast
  have inv: "tops_inv ?S" by (simp add: tops_inv_def)
  have top: "tops_of ?T [1, 2] = [1]" by (simp add: tops_of_def names strncmp_eq_def del: One_nat_def)
  have fresh: "fresh_header (st_hdr ?S)" by (simp add: fresh_header_def fits_bootrd_header_def create_bootrd_def host_rd_def)
  have nok: "names_ok ?T [1, 2]" by (simp add: names_ok_def names del: One_nat_def)
  have ok: "0 < sizeof_sname host_rd" "sizeof_bootrd_header host_rd = 28" "headers_ok host_rd"
    using codec_rd by (simp_all add: host_rd_def host_ex_def codec_ok_def)
  obtain ords where o: "list_all2 (\<lambda>m. profile_order (profile_env host_rd ?T m) m) [1] ords"
    "f_data (st_fp S') = replicate 28 0 @ concat (map2 (profile_block host_rd ?T) [1] ords)" "tops_inv S'"
    using sort_tops_blocks [OF ready _ inv S'] names(5) unfolding top by auto
  have small: "length (f_data (st_fp S')) < BOOTRD_SIZE" using short by (simp add: BOOTRD_SIZE_def)
  have "f_pos (st_fp S') = length (f_data (st_fp S'))" "28 \<le> length (f_data (st_fp S'))" using o(2,3) by (simp_all add: tops_inv_def)
  then obtain img where img: "complete_bootrd host_rd False (st_hdr S') (st_fp S') = Inr (Some img)"
    using complete_bootrd_eq [OF ok(3), of "st_fp S'" "st_hdr S'"] small ok(2) by (auto simp: BOOTRD_SIZE_def)
  have "sname_of host_rd ''top_a.ko'' = ''a''" by (simp add: sname_of_def host_rd_def host_ex_def)
  then show ?thesis
    using switch_profile [OF codec_rd ok(1) _ _ fresh ready nok _ inv S' img small, of 0] names(1,5) ok(2) unfolding top by force
qed

end
